(* ===== verification/Rust_Prelude.thy ===== *)
theory Rust_Prelude
  imports Main "HOL-Library.Word"
begin

text \<open>
  What the components share: the machine types of the Rust sources, the outcome of a Rust call
  (a value, an \<open>Err\<close>, or a panic), arithmetic under both settings of \<open>overflow-checks\<close>, checked
  indexing and copying, little-endian encodings, and \<open>std::collections::BTreeSet\<close> over a
  user-supplied \<open>Ord\<close> (the locale \<open>rust_ord\<close>).
\<close>

unbundle bit_operations_syntax

named_theorems outcome_simps \<open>evaluation of checked operations whose guard holds\<close>
named_theorems outcome_elims \<open>inversion of a composed call that returned\<close>

text \<open>Ranges \<open>[a..<b]\<close> between numerals stay folded in proofs.\<close>

declare upt_rec_numeral [simp del]

section \<open>Machine types\<close>

type_synonym byte = "8 word"
type_synonym u16 = "16 word"
type_synonym u32 = "32 word"
type_synonym u64 = "64 word"
type_synonym bytes = "byte list"

section \<open>Outcomes of a call\<close>

datatype ('e, 'a) outcome = Ret 'a | Fail 'e | Panic

fun obind :: "('e, 'a) outcome \<Rightarrow> ('a \<Rightarrow> ('e, 'b) outcome) \<Rightarrow> ('e, 'b) outcome" where
  "obind (Ret x) f = f x"
| "obind (Fail e) f = Fail e"
| "obind Panic f = Panic"

text \<open>\<open>Result::map_err\<close>.\<close>

fun map_fail :: "('e \<Rightarrow> 'f) \<Rightarrow> ('e, 'a) outcome \<Rightarrow> ('f, 'a) outcome" where
  "map_fail g (Ret x) = Ret x"
| "map_fail g (Fail e) = Fail (g e)"
| "map_fail g Panic = Panic"

text \<open>\<open>Option::ok_or\<close>, and \<open>unwrap\<close>/\<open>expect\<close> on an \<open>Option\<close>.\<close>

fun ok_or :: "'e \<Rightarrow> 'a option \<Rightarrow> ('e, 'a) outcome" where
  "ok_or e None = Fail e"
| "ok_or e (Some x) = Ret x"

fun unwrap :: "'a option \<Rightarrow> ('e, 'a) outcome" where
  "unwrap None = Panic"
| "unwrap (Some x) = Ret x"

text \<open>\<open>unwrap\<close>/\<open>expect\<close> on a \<open>Result\<close>: an error is a panic.\<close>

fun expect :: "('e, 'a) outcome \<Rightarrow> ('f, 'a) outcome" where
  "expect (Ret x) = Ret x"
| "expect (Fail e) = Panic"
| "expect Panic = Panic"

lemma obind_cong [fundef_cong]:
  "m = m' \<Longrightarrow> (\<And>x. m' = Ret x \<Longrightarrow> f x = g x) \<Longrightarrow> obind m f = obind m' g"
  by (cases m) auto

lemma obind_eq_Ret [outcome_elims]: "obind m f = Ret y \<longleftrightarrow> (\<exists>x. m = Ret x \<and> f x = Ret y)"
  by (cases m) auto

lemma obind_eq_Fail [outcome_elims]:
  "obind m f = Fail e \<longleftrightarrow> m = Fail e \<or> (\<exists>x. m = Ret x \<and> f x = Fail e)"
  by (cases m) auto

lemma obind_eq_Panic [outcome_elims]:
  "obind m f = Panic \<longleftrightarrow> m = Panic \<or> (\<exists>x. m = Ret x \<and> f x = Panic)"
  by (cases m) auto

lemma ok_or_eq_Ret [outcome_elims]: "ok_or e m = Ret x \<longleftrightarrow> m = Some x"
  by (cases m) auto

lemma ok_or_not_Panic [simp]: "ok_or e m \<noteq> Panic"
  by (cases m) auto

text \<open>A \<open>for\<close> loop whose body may return early.\<close>

fun ofold :: "('a \<Rightarrow> 's \<Rightarrow> ('e, 's) outcome) \<Rightarrow> 'a list \<Rightarrow> 's \<Rightarrow> ('e, 's) outcome" where
  "ofold f [] s = Ret s"
| "ofold f (x # xs) s = obind (f x s) (ofold f xs)"

fun omap :: "('a \<Rightarrow> ('e, 'b) outcome) \<Rightarrow> 'a list \<Rightarrow> ('e, 'b list) outcome" where
  "omap f [] = Ret []"
| "omap f (x # xs) = obind (f x) (\<lambda>y. obind (omap f xs) (\<lambda>ys. Ret (y # ys)))"

lemma ofold_append: "ofold f (xs @ ys) s = obind (ofold f xs s) (ofold f ys)"
proof (induction xs arbitrary: s)
  case (Cons x xs)
  then show ?case by (cases "f x s") auto
qed simp

lemma obind_Ret_right [simp]: "obind m Ret = m"
  by (cases m) auto

lemma obind_assoc: "obind (obind m f) g = obind m (\<lambda>x. obind (f x) g)"
  by (cases m) auto

lemma ofold_snoc: "ofold f (xs @ [x]) s = obind (ofold f xs s) (f x)"
proof -
  have "ofold f [] = Ret" by (rule ext) simp
  then have "ofold f [x] = f x" by (intro ext) simp
  then show ?thesis by (simp add: ofold_append)
qed

lemma ofold_single [simp]: "ofold f [x] = f x"
proof -
  have "ofold f [] = Ret" by (rule ext) simp
  then show ?thesis by (intro ext) simp
qed

lemma ofold_Ret: "ofold (\<lambda>x s. Ret (f x s)) xs s = Ret (fold f xs s)"
  by (induction xs arbitrary: s) auto

lemma ofold_map: "ofold f (map g xs) s = ofold (\<lambda>x. f (g x)) xs s"
proof (induction xs arbitrary: s)
  case (Cons x xs)
  then show ?case by (cases "f (g x) s") auto
qed simp

lemma ofold_cong [fundef_cong]:
  "xs = ys \<Longrightarrow> s = t \<Longrightarrow> (\<And>x u. x \<in> set ys \<Longrightarrow> f x u = g x u) \<Longrightarrow> ofold f xs s = ofold g ys t"
proof (induction xs arbitrary: ys s t)
  case (Cons x xs)
  then show ?case by (cases "g x t") auto
qed simp

lemma ofold_Ret_step: "ofold f xs s = Ret t \<Longrightarrow> x \<in> set xs \<Longrightarrow> \<exists>u v. f x u = Ret v"
  by (induction xs arbitrary: s) (auto simp: obind_eq_Ret)

lemma ofold_Fail_step: "ofold f xs s = Fail e \<Longrightarrow> \<exists>x \<in> set xs. \<exists>u. f x u = Fail e"
  by (induction xs arbitrary: s) (auto simp: obind_eq_Fail)

lemma omap_Ret: "(\<And>x. x \<in> set xs \<Longrightarrow> f x = Ret (g x)) \<Longrightarrow> omap f xs = Ret (map g xs)"
  by (induction xs) auto

lemma omap_eq_Ret:
  "omap f xs = Ret ys \<longleftrightarrow> length ys = length xs \<and> (\<forall>i < length xs. f (xs ! i) = Ret (ys ! i))"
proof (induction xs arbitrary: ys)
  case (Cons x xs)
  show ?case
    by (cases ys) (auto simp: obind_eq_Ret Cons.IH nth_Cons split: nat.splits)
qed auto

section \<open>Arithmetic with and without overflow checks\<close>

text \<open>
  \<open>a + b\<close> and \<open>a - b\<close> on an unsigned type: with overflow checks (the dev and test profiles,
  \<open>oc = True\<close>) an overflow panics, without them (the release profile, which \<open>Cargo.toml\<close> leaves
  at its default) it wraps.
\<close>

definition rust_add :: "bool \<Rightarrow> 'w::len word \<Rightarrow> 'w word \<Rightarrow> ('e, 'w word) outcome" where
  "rust_add oc a b = (if oc \<and> 2 ^ LENGTH('w) \<le> unat a + unat b then Panic else Ret (a + b))"

definition rust_sub :: "bool \<Rightarrow> 'w::len word \<Rightarrow> 'w word \<Rightarrow> ('e, 'w word) outcome" where
  "rust_sub oc a b = (if oc \<and> a < b then Panic else Ret (a - b))"

definition rust_mul :: "bool \<Rightarrow> 'w::len word \<Rightarrow> 'w word \<Rightarrow> ('e, 'w word) outcome" where
  "rust_mul oc a b = (if oc \<and> 2 ^ LENGTH('w) \<le> unat a * unat b then Panic else Ret (a * b))"

lemma rust_arith_release [simp]:
  "rust_add False a b = Ret (a + b)"
  "rust_sub False a b = Ret (a - b)"
  "rust_mul False a b = Ret (a * b)"
  by (simp_all add: rust_add_def rust_sub_def rust_mul_def)

lemma rust_arith_not_Fail [simp]:
  "rust_add oc a b \<noteq> Fail e" "rust_sub oc a b \<noteq> Fail e" "rust_mul oc a b \<noteq> Fail e"
  by (simp_all add: rust_add_def rust_sub_def rust_mul_def)

lemma rust_add_eq_Ret: "rust_add oc a b = Ret c \<Longrightarrow> c = a + b"
  by (simp add: rust_add_def split: if_splits)

lemma rust_sub_eq_Ret: "rust_sub oc a b = Ret c \<Longrightarrow> c = a - b"
  by (simp add: rust_sub_def split: if_splits)

section \<open>Checked slices and copies\<close>

definition slice :: "nat \<Rightarrow> nat \<Rightarrow> 'a list \<Rightarrow> 'a list" where
  "slice i j xs = take (j - i) (drop i xs)"

text \<open>\<open>&xs[i..j]\<close>, \<open>xs[i]\<close> and \<open>xs[i..j].copy_from_slice(src)\<close>: each panics out of range.\<close>

definition rslice :: "nat \<Rightarrow> nat \<Rightarrow> 'a list \<Rightarrow> ('e, 'a list) outcome" where
  "rslice i j xs = (if i \<le> j \<and> j \<le> length xs then Ret (slice i j xs) else Panic)"

definition rindex :: "'a list \<Rightarrow> nat \<Rightarrow> ('e, 'a) outcome" where
  "rindex xs i = (if i < length xs then Ret (xs ! i) else Panic)"

definition put :: "nat \<Rightarrow> 'a list \<Rightarrow> 'a list \<Rightarrow> 'a list" where
  "put i src xs = take i xs @ src @ drop (i + length src) xs"

definition copy_into :: "nat \<Rightarrow> nat \<Rightarrow> 'a list \<Rightarrow> 'a list \<Rightarrow> ('e, 'a list) outcome" where
  "copy_into i j src xs =
     (if i \<le> j \<and> j \<le> length xs \<and> length src = j - i then Ret (put i src xs) else Panic)"

lemma rslice_ok [outcome_simps]: "i \<le> j \<Longrightarrow> j \<le> length xs \<Longrightarrow> rslice i j xs = Ret (slice i j xs)"
  by (simp add: rslice_def)

lemma rindex_ok [outcome_simps]: "i < length xs \<Longrightarrow> rindex xs i = Ret (xs ! i)"
  by (simp add: rindex_def)

lemma copy_into_ok [outcome_simps]:
  "i \<le> j \<Longrightarrow> j \<le> length xs \<Longrightarrow> length src = j - i \<Longrightarrow> copy_into i j src xs = Ret (put i src xs)"
  by (simp add: copy_into_def)

lemma length_slice [simp]: "j \<le> length xs \<Longrightarrow> length (slice i j xs) = j - i"
  by (simp add: slice_def)

lemma length_put [simp]: "i + length src \<le> length xs \<Longrightarrow> length (put i src xs) = length xs"
  by (simp add: put_def)

lemma slice_put_same:
  "i + length src = j \<Longrightarrow> j \<le> length xs \<Longrightarrow> slice i j (put i src xs) = src"
  by (simp add: slice_def put_def)

lemma slice_put_below:
  "j \<le> i \<Longrightarrow> i + length src \<le> length xs \<Longrightarrow> slice k j (put i src xs) = slice k j xs"
  by (auto simp: slice_def put_def drop_take [symmetric] take_append min_def)

lemma slice_put_above:
  "i + length src \<le> k \<Longrightarrow> i + length src \<le> length xs \<Longrightarrow> slice k j (put i src xs) = slice k j xs"
  by (simp add: slice_def put_def)

lemma nth_slice: "i + k < j \<Longrightarrow> j \<le> length xs \<Longrightarrow> slice i j xs ! k = xs ! (i + k)"
  by (simp add: slice_def)

lemma slice_single: "i < length xs \<Longrightarrow> slice i (Suc i) xs = [xs ! i]"
  by (simp add: slice_def take_Suc_conv_app_nth hd_drop_conv_nth)

lemma slice_append_split:
  "i \<le> j \<Longrightarrow> j \<le> k \<Longrightarrow> k \<le> length xs \<Longrightarrow> slice i k xs = slice i j xs @ slice j k xs"
proof -
  assume "i \<le> j" "j \<le> k"
  then have "k - i = (j - i) + (k - j)" and "(j - i) + i = j" by auto
  then show ?thesis by (simp only: slice_def take_add drop_drop)
qed

text \<open>\<open>put\<close> into a buffer that is given in segments: a collection that evaluates a sequence of writes.\<close>

named_theorems put_simps \<open>evaluation of writes into a segmented buffer\<close>

lemma put_later [put_simps]: "length a \<le> i \<Longrightarrow> put i src (a @ b) = a @ put (i - length a) src b"
  by (simp add: put_def)

lemma put_first [put_simps]: "length src = length a \<Longrightarrow> put 0 src (a @ b) = src @ b"
  by (simp add: put_def)

lemma put_zeros [put_simps]:
  "i + length src \<le> n \<Longrightarrow>
     put i src (replicate n x) = replicate i x @ src @ replicate (n - i - length src) x"
  by (simp add: put_def)

lemma put_all [put_simps]: "length src = length a \<Longrightarrow> put 0 src a = src"
  by (simp add: put_def)

lemma put_Cons [put_simps]: "0 < i \<Longrightarrow> put i src (x # b) = x # put (i - 1) src b"
  using put_later [of "[x]"] by simp

lemma put_first_Cons [put_simps]: "put 0 [y] (x # b) = y # b"
  using put_first [of "[y]" "[x]"] by simp

named_theorems slice_simps \<open>slices of a segmented buffer\<close>

lemma slice_later [slice_simps]:
  "length a \<le> i \<Longrightarrow> slice i j (a @ b) = slice (i - length a) (j - length a) b"
  by (cases "length a \<le> j") (auto simp: slice_def)

lemma slice_first [slice_simps]: "length a = j \<Longrightarrow> slice 0 j (a @ b) = a"
  by (simp add: slice_def)

lemma slice_all [slice_simps]: "length a = j \<Longrightarrow> slice 0 j a = a"
  by (simp add: slice_def)

lemma slice_across [slice_simps]:
  "length a \<le> j \<Longrightarrow> slice 0 j (a @ b) = a @ slice 0 (j - length a) b"
  by (simp add: slice_def)

lemma slice_Cons [slice_simps]: "0 < i \<Longrightarrow> slice i j (x # b) = slice (i - 1) (j - 1) b"
  using slice_later [of "[x]"] by simp

lemma slice_first_Cons [slice_simps]: "0 < j \<Longrightarrow> slice 0 j (x # b) = x # slice 0 (j - 1) b"
  using slice_across [of "[x]"] by (simp add: Suc_le_eq)

lemma slice_inside [slice_simps]: "j \<le> length a \<Longrightarrow> slice i j (a @ b) = slice i j a"
  by (simp add: slice_def)

text \<open>A sequence of \<open>buf[i..j].copy_from_slice(src)\<close>, and an update of one element of a \<open>Vec\<close>.\<close>

definition write_fields :: "(nat \<times> nat \<times> 'a list) list \<Rightarrow> 'a list \<Rightarrow> ('e, 'a list) outcome" where
  "write_fields fs = ofold (\<lambda>(i, j, src). copy_into i j src) fs"

definition update_at :: "nat \<Rightarrow> ('a \<Rightarrow> ('e, 'a) outcome) \<Rightarrow> 'a list \<Rightarrow> ('e, 'a list) outcome" where
  "update_at i f xs = obind (rindex xs i) (\<lambda>x. obind (f x) (\<lambda>y. Ret (xs[i := y])))"

lemma update_range:
  assumes "a \<le> b" and "b \<le> length xs" and "\<And>i. a \<le> i \<Longrightarrow> i < b \<Longrightarrow> f i (xs ! i) = Ret (g i)"
  shows "ofold (\<lambda>i. update_at i (f i)) [a..<b] xs = Ret (take a xs @ map g [a..<b] @ drop b xs)"
  using assms(1,2,3)
proof (induction b rule: dec_induct)
  case (step b)
  let ?ys = "take a xs @ map g [a..<b] @ drop b xs"
  have "ofold (\<lambda>i. update_at i (f i)) [a..<b] xs = Ret ?ys" using step by simp
  moreover have "?ys ! b = xs ! b" "b < length ?ys" using step by (simp_all add: nth_append)
  moreover have "?ys[b := g b] = take a xs @ map g [a..<Suc b] @ drop (Suc b) xs"
    using step
    by (simp add: list_update_append Cons_nth_drop_Suc [symmetric])
  ultimately show ?case
    using step by (simp add: ofold_append update_at_def outcome_simps)
qed simp

section \<open>Little-endian encodings\<close>

fun le_bytes :: "nat \<Rightarrow> nat \<Rightarrow> bytes" where
  "le_bytes 0 n = []"
| "le_bytes (Suc k) n = word_of_nat n # le_bytes k (n div 256)"

fun le_nat :: "bytes \<Rightarrow> nat" where
  "le_nat [] = 0"
| "le_nat (b # bs) = unat b + 256 * le_nat bs"

definition to_le_bytes :: "'w::len word \<Rightarrow> bytes" where
  "to_le_bytes w = le_bytes (LENGTH('w) div 8) (unat w)"

definition from_le_bytes :: "bytes \<Rightarrow> 'w::len word" where
  "from_le_bytes bs = word_of_nat (le_nat bs)"

lemma length_le_bytes [simp]: "length (le_bytes k n) = k"
  by (induction k arbitrary: n) auto

lemma length_to_le_bytes [simp]: "length (to_le_bytes (w :: 'w::len word)) = LENGTH('w) div 8"
  by (simp add: to_le_bytes_def)

lemma le_nat_zeros [simp]: "le_nat (replicate n 0) = 0"
  by (induction n) auto

lemma le_bytes_numeral:
  "le_bytes (numeral k) n = word_of_nat n # le_bytes (pred_numeral k) (n div 256)"
  by (metis le_bytes.simps(2) numeral_eq_Suc)

lemma le_nat_le_bytes: "n < 256 ^ k \<Longrightarrow> le_nat (le_bytes k n) = n"
proof (induction k arbitrary: n)
  case (Suc k)
  then have "n div 256 < 256 ^ k"
    by (simp add: less_mult_imp_div_less mult.commute)
  with Suc.IH show ?case
    by (simp add: unat_of_nat)
qed simp

lemma le_nat_bound: "le_nat bs < 256 ^ length bs"
proof (induction bs)
  case (Cons b bs)
  have "unat b < 256" using unsigned_less [of b] by simp
  with Cons show ?case by simp
qed simp

lemma le_bytes_le_nat: "le_bytes (length bs) (le_nat bs) = bs"
proof (induction bs)
  case (Cons b bs)
  have b: "unat b < 256" using unsigned_less [of b] by simp
  have "(256 :: byte) = 0" by simp
  then have "256 * (word_of_nat (le_nat bs) :: byte) = 0"
    by (simp only: mult_zero_left)
  then have "word_of_nat (unat b + 256 * le_nat bs) = (b :: byte)" by simp
  moreover have "(unat b + 256 * le_nat bs) div 256 = le_nat bs"
    using b by simp
  ultimately show ?case using Cons by simp
qed simp

lemma pow256: "8 dvd n \<Longrightarrow> (256::nat) ^ (n div 8) = 2 ^ n"
proof -
  assume "8 dvd n"
  then obtain m where "n = 8 * m" by (elim dvdE)
  then show ?thesis by (simp add: power_mult)
qed

lemma from_to_le_bytes:
  fixes w :: "'w::len word"
  assumes "8 dvd LENGTH('w)"
  shows "from_le_bytes (to_le_bytes w) = w"
  using unsigned_less [of w] assms
  by (simp add: from_le_bytes_def to_le_bytes_def le_nat_le_bytes pow256)

lemma to_from_le_bytes:
  assumes "8 dvd LENGTH('w)" and "length bs = LENGTH('w::len) div 8"
  shows "to_le_bytes (from_le_bytes bs :: 'w word) = bs"
proof -
  have "le_nat bs < 2 ^ LENGTH('w)"
    using le_nat_bound [of bs] assms by (simp add: pow256)
  then have "unat (from_le_bytes bs :: 'w word) = le_nat bs"
    by (simp add: from_le_bytes_def unat_of_nat)
  with assms(2) show ?thesis
    using le_bytes_le_nat [of bs] by (simp add: to_le_bytes_def)
qed

lemmas from_to_le [simp] =
  from_to_le_bytes [where 'w = 16, simplified] from_to_le_bytes [where 'w = 32, simplified]
  from_to_le_bytes [where 'w = 64, simplified]

lemma to_le_bytes_inj:
  assumes "8 dvd LENGTH('w::len)"
  shows "to_le_bytes (v :: 'w word) = to_le_bytes w \<longleftrightarrow> v = w"
  using from_to_le_bytes [OF assms] by metis

end
