(* ===== verification/Rust_Text.thy ===== *)
theory Rust_Text
  imports Rust_Prelude
begin

text \<open>
  The text functions of the Rust standard library that the program uses: decimal output of unsigned
  integers, \<open>str::parse::<u64>\<close>, \<open>strip_prefix\<close>, \<open>contains\<close> and \<open>find\<close> on strings.
\<close>

section \<open>Decimal numbers\<close>

definition digit_char :: "nat \<Rightarrow> char" where
  "digit_char d = char_of (48 + d)"

definition char_digit :: "char \<Rightarrow> nat option" where
  "char_digit c = (if 48 \<le> (of_char c :: nat) \<and> of_char c < (58 :: nat) then Some (of_char c - 48) else None)"

fun show_nat :: "nat \<Rightarrow> string" where
  "show_nat n = (if n < 10 then [digit_char n] else show_nat (n div 10) @ [digit_char (n mod 10)])"

declare show_nat.simps [simp del]

text \<open>The digit loop of \<open>from_str_radix\<close>, with its overflow checks.\<close>

fun digits_u64 :: "string \<Rightarrow> nat \<Rightarrow> nat option" where
  "digits_u64 [] acc = Some acc"
| "digits_u64 (c # cs) acc =
     (case char_digit c of
        None \<Rightarrow> None
      | Some d \<Rightarrow> if 2 ^ 64 \<le> 10 * acc + d then None else digits_u64 cs (10 * acc + d))"

definition parse_u64 :: "string \<Rightarrow> u64 option" where
  "parse_u64 s =
     (let ds = (if s \<noteq> [] \<and> hd s = CHR ''+'' then tl s else s)
      in if ds = [] then None else map_option word_of_nat (digits_u64 ds 0))"

lemma char_digit_digit_char [simp]: "d < 10 \<Longrightarrow> char_digit (digit_char d) = Some d"
  by (simp add: char_digit_def digit_char_def)

lemma digit_char_not_plus: "d < 10 \<Longrightarrow> digit_char d \<noteq> CHR ''+''"
  by (auto simp: digit_char_def dest!: arg_cong [where f = "of_char :: char \<Rightarrow> nat"])

lemma digits_u64_append: "digits_u64 (s @ t) acc = Option.bind (digits_u64 s acc) (digits_u64 t)"
  by (induction s arbitrary: acc) (auto split: option.splits)

lemma digits_show_nat: "n < 2 ^ 64 \<Longrightarrow> digits_u64 (show_nat n) 0 = Some n"
proof (induction n rule: show_nat.induct)
  case (1 n)
  show ?case
  proof (cases "n < 10")
    case True
    then show ?thesis using 1 by (simp add: show_nat.simps [of n])
  next
    case False
    then have "digits_u64 (show_nat (n div 10)) 0 = Some (n div 10)"
      using 1 by (simp add: div_le_dividend le_less_trans)
    then show ?thesis
      using False 1 by (simp add: show_nat.simps [of n] digits_u64_append)
  qed
qed

lemma show_nat_head: "\<exists>d cs. show_nat n = digit_char d # cs \<and> d < 10"
proof (induction n rule: show_nat.induct)
  case (1 n)
  then show ?case by (cases "n < 10") (auto simp: show_nat.simps [of n])
qed

text \<open>Parsing is the inverse of printing on 64-bit values.\<close>

lemma parse_show: "parse_u64 (show_nat (unat w)) = Some w"
proof -
  obtain d cs where s: "show_nat (unat w) = digit_char d # cs" and d: "d < 10"
    using show_nat_head by blast
  have "unat w < 2 ^ 64" using unsigned_less [of w] by simp
  from digits_show_nat [OF this] show ?thesis
    using s digit_char_not_plus [OF d] by (simp add: parse_u64_def Let_def)
qed

section \<open>Searching\<close>

definition strip_prefix :: "string \<Rightarrow> string \<Rightarrow> string option" where
  "strip_prefix pre s = (if take (length pre) s = pre then Some (drop (length pre) s) else None)"

fun str_find :: "'a list \<Rightarrow> 'a list \<Rightarrow> nat option" where
  "str_find pat s =
     (if take (length pat) s = pat then Some 0
      else case s of [] \<Rightarrow> None | _ # s' \<Rightarrow> map_option Suc (str_find pat s'))"

declare str_find.simps [simp del]

definition str_contains :: "'a list \<Rightarrow> 'a list \<Rightarrow> bool" where
  "str_contains pat s \<longleftrightarrow> str_find pat s \<noteq> None"

lemma strip_prefix_Some: "strip_prefix pre s = Some t \<longleftrightarrow> s = pre @ t"
  by (auto simp: strip_prefix_def) (metis append_take_drop_id)

lemma str_find_append: "str_find pat s = Some i \<Longrightarrow> \<exists>a b. s = a @ pat @ b \<and> length a = i"
proof (induction s arbitrary: i)
  case Nil
  then show ?case by (auto simp: str_find.simps [of pat "[]"] split: if_splits)
next
  case (Cons c s)
  show ?case
  proof (cases "take (length pat) (c # s) = pat")
    case True
    with Cons.prems have "i = 0" by (simp add: str_find.simps [of pat "c # s"])
    with True show ?thesis
      using append_take_drop_id [of "length pat" "c # s"]
      by (intro exI [of _ "[]"] exI [of _ "drop (length pat) (c # s)"]) (simp del: take_Cons drop_Cons append_take_drop_id)
  next
    case False
    with Cons.prems obtain j where "str_find pat s = Some j" and i: "i = Suc j"
      by (auto simp: str_find.simps [of pat "c # s"])
    with Cons.IH obtain a b where "s = a @ pat @ b" "length a = j" by blast
    then show ?thesis using i by (intro exI [of _ "c # a"] exI [of _ b]) simp
  qed
qed

lemma str_find_None: "str_find pat s = None \<Longrightarrow> s \<noteq> a @ pat @ b"
proof (induction s arbitrary: a)
  case Nil
  then show ?case by (auto simp: str_find.simps [of pat "[]"])
next
  case (Cons c s)
  then have "take (length pat) (c # s) \<noteq> pat" and "str_find pat s = None"
    by (auto simp: str_find.simps [of pat "c # s"] split: if_splits)
  with Cons.IH show ?case by (cases a) (auto simp del: take_Suc_Cons)
qed

lemma str_contains_iff: "str_contains pat s \<longleftrightarrow> (\<exists>a b. s = a @ pat @ b)"
proof
  assume "str_contains pat s"
  then show "\<exists>a b. s = a @ pat @ b" using str_find_append by (fastforce simp: str_contains_def)
next
  assume "\<exists>a b. s = a @ pat @ b"
  then show "str_contains pat s" using str_find_None by (fastforce simp: str_contains_def)
qed

text \<open>The first match is found in the same place when the text goes on.\<close>

lemma str_find_extend: "str_find pat s = Some i \<Longrightarrow> str_find pat (s @ t) = Some i"
proof (induction s arbitrary: i)
  case Nil
  then show ?case by (auto simp: str_find.simps [of pat "[]"] str_find.simps [of pat t] split: if_splits)
next
  case (Cons c s)
  show ?case
  proof (cases "take (length pat) (c # s) = pat")
    case True
    then have "length pat \<le> length (c # s)" by (metis length_take min.cobounded1)
    then have "take (length pat) ((c # s) @ t) = pat" using True by (simp only: take_append) simp
    then show ?thesis using Cons.prems True by (simp add: str_find.simps [of pat "c # s"] str_find.simps [of pat "c # s @ t"])
  next
    case False
    with Cons.prems obtain j where j: "str_find pat s = Some j" "i = Suc j"
      by (auto simp: str_find.simps [of pat "c # s"])
    then obtain a b where "s = a @ pat @ b" using str_find_append by blast
    then have "length pat \<le> length (c # s)" by simp
    then have "take (length pat) ((c # s) @ t) \<noteq> pat" using False by (simp only: take_append) simp
    then show ?thesis using Cons.IH [OF j(1)] j(2) by (simp add: str_find.simps [of pat "c # s @ t"])
  qed
qed

lemma str_find_after: "\<exists>i \<le> length a. \<forall>t. str_find pat (a @ pat @ t) = Some i"
proof -
  obtain i where i: "str_find pat (a @ pat) = Some i"
    using str_find_None [of pat "a @ pat" a "[]"] by (cases "str_find pat (a @ pat)") auto
  then obtain x y where "a @ pat = x @ pat @ y" "length x = i" using str_find_append by blast
  then have "i \<le> length a" by (metis add_le_cancel_right length_append le_add1 add.assoc add.commute)
  moreover have "str_find pat (a @ pat @ t) = Some i" for t using str_find_extend [OF i, of t] by simp
  ultimately show ?thesis by blast
qed

section \<open>Lines and white space\<close>

text \<open>\<open>str::trim\<close> and \<open>str::lines\<close> on ASCII text; a line ends at a line feed, or a carriage return before it.\<close>

definition is_space :: "char \<Rightarrow> bool" where
  "is_space c \<longleftrightarrow> c \<in> {CHR 0x09, CHR 0x0A, CHR 0x0B, CHR 0x0C, CHR 0x0D, CHR 0x20}"

definition trim :: "string \<Rightarrow> string" where
  "trim s = rev (dropWhile is_space (rev (dropWhile is_space s)))"

definition strip_cr :: "string \<Rightarrow> string" where
  "strip_cr l = (if l \<noteq> [] \<and> last l = CHR 0x0D then butlast l else l)"

function split_lines :: "string \<Rightarrow> string list" where
  "split_lines s =
     (if s = [] then []
      else let l = takeWhile (\<lambda>c. c \<noteq> CHR 0x0A) s; r = dropWhile (\<lambda>c. c \<noteq> CHR 0x0A) s
           in if r = [] then [l] else strip_cr l # split_lines (tl r))"
  by pat_completeness auto
termination
proof (relation "measure length", goal_cases)
  case (2 s l r)
  have "length r \<le> length s" using 2 by (simp add: length_dropWhile_le)
  moreover have "0 < length r" using 2 by simp
  ultimately show ?case by (simp only: in_measure length_tl)
qed simp

declare split_lines.simps [simp del]

text \<open>The value of the first line \<open>KEY=value\<close>, as the \<open>.env\<close> readers of the program look for it.\<close>

fun first_value :: "string \<Rightarrow> string list \<Rightarrow> string option" where
  "first_value key [] = None"
| "first_value key (l # ls) =
     (case strip_prefix key (trim l) of Some rest \<Rightarrow> Some (trim rest) | None \<Rightarrow> first_value key ls)"

end
