(* ===== verification/Rust_F64.thy ===== *)
theory Rust_F64
  imports Complex_Main "HOL-Library.Log_Nat" Rust_Text
begin

text \<open>
  \<open>f64\<close> as the programs use it: a finite double is the rational it stands for, and an operation is the
  exact one followed by rounding to 53 significant bits, to the nearest, a tie to the even one. Infinities,
  NaN, signed zeros and subnormals are left out: the program divides by positive numbers only, and its values are 0
  or lie between \<open>2 ^ -64\<close> and \<open>2 ^ 64\<close>. Then the formats \<open>{:.n}\<close> and \<open>{:.ne}\<close> of a double that is not negative.
\<close>

type_synonym f64 = rat

section \<open>Rounding\<close>

text \<open>To the nearest natural number, a tie to the even one.\<close>

definition round_even :: "rat \<Rightarrow> nat" where
  "round_even x =
     (let k = nat \<lfloor>x\<rfloor>; rest = x - of_nat k
      in if rest < 1 / 2 \<or> (rest = 1 / 2 \<and> even k) then k else k + 1)"

abbreviation pow2 :: "int \<Rightarrow> rat" where "pow2 e \<equiv> 2 powi e"

text \<open>The weight of the last of the 53 bits of a positive number.\<close>

definition f64_exp :: "rat \<Rightarrow> int" where
  "f64_exp q =
     (let (n, d) = quotient_of q; e = int (floorlog 2 (nat n)) - int (floorlog 2 (nat d)) - 53
      in if 2 ^ 53 * pow2 e \<le> q then e + 1 else e)"

definition f64_round :: "rat \<Rightarrow> f64" where
  "f64_round q =
     (if q = 0 then 0
      else let e = f64_exp \<bar>q\<bar> in sgn q * of_nat (round_even (\<bar>q\<bar> / pow2 e)) * pow2 e)"

definition f64_of_nat :: "nat \<Rightarrow> f64" where "f64_of_nat n = f64_round (of_nat n)"
definition f64_of_int :: "int \<Rightarrow> f64" where "f64_of_int n = f64_round (of_int n)"
definition f64_sub :: "f64 \<Rightarrow> f64 \<Rightarrow> f64" where "f64_sub a b = f64_round (a - b)"
definition f64_mul :: "f64 \<Rightarrow> f64 \<Rightarrow> f64" where "f64_mul a b = f64_round (a * b)"
definition f64_div :: "f64 \<Rightarrow> f64 \<Rightarrow> f64" where "f64_div a b = f64_round (a / b)"

section \<open>What rounding does\<close>

lemma round_even_floor:
  assumes "0 \<le> x"
  obtains k where "of_nat k \<le> x" "x < of_nat k + 1"
    "round_even x = (if x - of_nat k < 1 / 2 \<or> (x - of_nat k = 1 / 2 \<and> even k) then k else k + 1)"
proof
  have k: "of_nat (nat \<lfloor>x\<rfloor>) = (of_int \<lfloor>x\<rfloor> :: rat)" using assms by simp
  show "of_nat (nat \<lfloor>x\<rfloor>) \<le> x" "x < of_nat (nat \<lfloor>x\<rfloor>) + 1" unfolding k by linarith+
  show "round_even x = (if x - of_nat (nat \<lfloor>x\<rfloor>) < 1 / 2 \<or> (x - of_nat (nat \<lfloor>x\<rfloor>) = 1 / 2 \<and> even (nat \<lfloor>x\<rfloor>))
      then nat \<lfloor>x\<rfloor> else nat \<lfloor>x\<rfloor> + 1)"
    by (simp add: round_even_def Let_def)
qed

lemma round_even_near:
  assumes "0 \<le> x"
  shows "\<bar>of_nat (round_even x) - x\<bar> \<le> 1 / 2"
proof -
  obtain k where "of_nat k \<le> x" "x < of_nat k + 1"
    "round_even x = (if x - of_nat k < 1 / 2 \<or> (x - of_nat k = 1 / 2 \<and> even k) then k else k + 1)"
    by (rule round_even_floor [OF assms])
  then show ?thesis by (auto simp: abs_le_iff split: if_splits)
qed

lemma round_even_of_nat [simp]: "round_even (of_nat n) = n"
  by (simp add: round_even_def)

lemma pow2_pos [simp]: "0 < pow2 e"
  by (simp add: zero_less_power_int)

lemma pow2_add: "pow2 (e + f) = pow2 e * pow2 f"
  by (simp add: power_int_add)

lemma pow2_less: "pow2 e < pow2 f \<Longrightarrow> e < f"
  using power_int_increasing [of f e "2 :: rat"] by (meson not_le one_le_numeral)

lemma f64_exp_bounds:
  assumes "0 < q"
  shows "2 ^ 52 * pow2 (f64_exp q) \<le> q" and "q < 2 ^ 53 * pow2 (f64_exp q)"
proof -
  obtain n d where nd: "quotient_of q = (n, d)" by fastforce
  then have q: "q = of_int n / of_int d" and d: "0 < d" by (simp_all add: quotient_of_div quotient_of_denom_pos)
  with assms have n: "0 < n" by (simp add: zero_less_divide_iff)
  let ?a = "floorlog 2 (nat n)" and ?b = "floorlog 2 (nat d)"
  let ?e = "int ?a - int ?b - 53"
  have bounds: "(2 :: rat) ^ floorlog 2 (nat m) \<le> 2 * of_int m" "of_int m < (2 :: rat) ^ floorlog 2 (nat m)"
    if "0 < m" for m
  proof -
    have m: "m = int (nat m)" "0 < nat m" using that by simp_all
    then obtain k where m: "m = int k" "0 < k" by blast
    have "2 ^ (floorlog 2 k - 1) \<le> k" and lt: "k < 2 ^ floorlog 2 k" using floorlog_bounds [of k 2] m by simp_all
    moreover have "2 ^ floorlog 2 k = (2 :: nat) * 2 ^ (floorlog 2 k - 1)"
      using m floorlog_eq_zero_iff [of 2 k] by (cases "floorlog 2 k") auto
    ultimately have "2 ^ floorlog 2 k \<le> 2 * k" by simp
    then have "(of_nat (2 ^ floorlog 2 k) :: rat) \<le> of_nat (2 * k)" by (rule of_nat_mono)
    then show "(2 :: rat) ^ floorlog 2 (nat m) \<le> 2 * of_int m" using m by simp
    have "(of_nat k :: rat) < of_nat (2 ^ floorlog 2 k)" using lt by (rule of_nat_less_iff [THEN iffD2])
    then show "of_int m < (2 :: rat) ^ floorlog 2 (nat m)" using m by simp
  qed
  define A B where "A = (2 :: rat) ^ ?a" and "B = (2 :: rat) ^ ?b"
  have AB: "A \<le> 2 * of_int n" "of_int n < A" "B \<le> 2 * of_int d" "of_int d < B" "0 < A" "0 < B"
    using bounds [OF n] bounds [OF d] by (simp_all add: A_def B_def)
  have e: "pow2 ?e = A / (B * 2 ^ 53)" by (simp add: power_int_diff A_def B_def)
  have d': "0 < (of_int d :: rat)" using d by simp
  have "A * of_int d \<le> 2 * of_int n * B" using AB d' by (intro mult_mono) auto
  then have lo: "2 ^ 52 * pow2 ?e \<le> q" using AB d' unfolding e q by (simp add: field_simps)
  have "of_int n * B < A * (2 * of_int d)" using AB d' n by (intro mult_less_le_imp_less) auto
  then have hi: "q < 2 ^ 54 * pow2 ?e" using AB d' unfolding e q by (simp add: field_simps)
  have "f64_exp q = (if 2 ^ 53 * pow2 ?e \<le> q then ?e + 1 else ?e)" by (simp add: f64_exp_def nd)
  moreover have "pow2 (?e + 1) = 2 * pow2 ?e" by (simp only: pow2_add) simp
  ultimately show "2 ^ 52 * pow2 (f64_exp q) \<le> q" and "q < 2 ^ 53 * pow2 (f64_exp q)"
    using lo hi by (cases "2 ^ 53 * pow2 ?e \<le> q"; simp)+
qed

lemma f64_exp_unique:
  assumes "2 ^ 52 * pow2 e \<le> q" and "q < 2 ^ 53 * pow2 e"
  shows "f64_exp q = e"
proof -
  have "0 < q" using assms(1) pow2_pos [of e] by (meson less_le_trans mult_pos_pos zero_less_numeral zero_less_power)
  note b = f64_exp_bounds [OF this]
  have less: "x < y + 1" if "2 ^ 52 * pow2 x < 2 ^ 53 * pow2 y" for x y
  proof -
    have "pow2 x < pow2 (y + 1)" using that by (simp add: pow2_add)
    then show ?thesis by (rule pow2_less)
  qed
  from less [of "f64_exp q" e] less [of e "f64_exp q"] assms b show ?thesis by linarith
qed

text \<open>The error of one rounding is at most one part in \<open>2 ^ 53\<close>.\<close>

lemma f64_round_nonneg: "0 \<le> q \<Longrightarrow> 0 \<le> f64_round q"
  by (auto simp: f64_round_def Let_def sgn_if)

lemma f64_round_error:
  assumes "0 \<le> q"
  shows "\<bar>f64_round q - q\<bar> \<le> q / 2 ^ 53"
proof (cases "q = 0")
  case False
  let ?e = "pow2 (f64_exp q)" and ?k = "of_nat (round_even (q / pow2 (f64_exp q))) :: rat"
  have q: "0 < q" using assms False by simp
  have "\<bar>?k - q / ?e\<bar> \<le> 1 / 2" using q by (intro round_even_near) (simp add: less_imp_le)
  then have "\<bar>?k - q / ?e\<bar> * ?e \<le> 1 / 2 * ?e" by (intro mult_right_mono) (simp_all add: less_imp_le)
  also have "\<dots> \<le> q / 2 ^ 53" using f64_exp_bounds(1) [OF q] by simp
  also have "\<bar>?k - q / ?e\<bar> * ?e = \<bar>(?k - q / ?e) * ?e\<bar>" by (simp add: abs_mult)
  also have "(?k - q / ?e) * ?e = f64_round q - q"
    using q by (simp add: f64_round_def Let_def left_diff_distrib)
  finally show ?thesis .
qed (simp add: f64_round_def)

lemma f64_round_between:
  assumes "0 \<le> q"
  shows "q * (1 - 1 / 2 ^ 53) \<le> f64_round q" and "f64_round q \<le> q * (1 + 1 / 2 ^ 53)"
  using f64_round_error [OF assms] unfolding abs_le_iff by (simp_all add: field_simps)

lemma f64_round_0 [simp]: "f64_round 0 = 0"
  by (simp add: f64_round_def)

lemma f64_round_of_nat:
  assumes "n < 2 ^ 53"
  shows "f64_round (of_nat n) = of_nat n"
proof (cases "n = 0")
  case False
  let ?e = "f64_exp (of_nat n)"
  have "2 ^ 52 * pow2 ?e \<le> of_nat n" using False by (intro f64_exp_bounds) simp
  also have "(of_nat n :: rat) < of_nat (2 ^ 53)" using assms by (rule of_nat_less_iff [THEN iffD2])
  finally have "pow2 ?e < pow2 1" by simp
  then have "?e < 1" by (rule pow2_less)
  then have "?e \<le> 0" by simp
  then obtain k where k: "?e = - int k" by (metis nonpos_int_cases)
  have "of_nat n / pow2 ?e = (of_nat (n * 2 ^ k) :: rat)" by (simp add: k power_int_minus field_simps)
  then have "round_even (of_nat n / pow2 ?e) = n * 2 ^ k" by (simp only: round_even_of_nat)
  then show ?thesis using False by (simp add: f64_round_def Let_def k power_int_minus)
qed simp

lemma f64_round_1 [simp]: "f64_round 1 = 1"
  using f64_round_of_nat [of 1] by simp

lemma f64_round_numeral: "numeral n < (2 ^ 53 :: nat) \<Longrightarrow> f64_round (numeral n) = numeral n"
  using f64_round_of_nat [of "numeral n"] by simp

text \<open>Next to 1 the doubles are \<open>2 ^ -53\<close> apart.\<close>

lemma f64_round_below_one:
  assumes "1 / 2 \<le> q" and "q < 1"
  shows "f64_round q = of_nat (round_even (q * 2 ^ 53)) / 2 ^ 53"
proof -
  have p: "pow2 (- 53) = 1 / 2 ^ 53" by (simp add: power_int_def power_one_over)
  have e: "f64_exp q = - 53" by (rule f64_exp_unique; unfold p; use assms in simp)
  have q: "\<bar>q\<bar> = q" "sgn q = 1" "(q = 0) = False" "q / (1 / 2 ^ 53) = q * 2 ^ 53" using assms by simp_all
  show ?thesis by (simp only: f64_round_def Let_def q e p if_False mult_1 times_divide_eq_right mult_1_right)
qed

lemma f64_round_to_one:
  assumes "1 - 1 / 2 ^ 54 \<le> q" and "q \<le> 1"
  shows "f64_round q = 1"
proof (cases "q = 1")
  case False
  then have q: "1 / 2 \<le> q" "q < 1" using assms by auto
  then obtain k where k: "of_nat k \<le> q * 2 ^ 53" "q * 2 ^ 53 < of_nat k + 1" "round_even (q * 2 ^ 53)
      = (if q * 2 ^ 53 - of_nat k < 1 / 2 \<or> (q * 2 ^ 53 - of_nat k = 1 / 2 \<and> even k) then k else k + 1)"
    using round_even_floor [of "q * 2 ^ 53"] by auto
  have "(of_nat k :: rat) < of_nat (2 ^ 53)" "(of_nat (2 ^ 53) :: rat) < of_nat (k + 2)"
    using k(1,2) q assms by simp_all
  then have "k < 2 ^ 53" "2 ^ 53 < k + 2" by (simp_all only: of_nat_less_iff)
  then have eq: "k = 2 ^ 53 - 1" by linarith
  have "round_even (q * 2 ^ 53) = 2 ^ 53" using k(3) assms unfolding eq by (auto simp: field_simps)
  with f64_round_below_one [OF q] show ?thesis by simp
qed simp

lemma f64_round_not_one:
  assumes "1 / 2 \<le> q" and "q \<le> 1 - 1 / 2 ^ 53"
  shows "f64_round q < 1"
proof -
  have "\<bar>of_nat (round_even (q * 2 ^ 53)) - q * 2 ^ 53\<bar> \<le> 1 / 2" using assms by (intro round_even_near) simp
  then have "of_nat (round_even (q * 2 ^ 53)) \<le> q * 2 ^ 53 + 1 / 2" by (simp only: abs_le_iff) linarith
  also have "\<dots> < 2 ^ 53" using assms(2) by simp
  finally have "of_nat (round_even (q * 2 ^ 53)) < (2 ^ 53 :: rat)" .
  then show ?thesis using f64_round_below_one [of q] assms by simp
qed

lemma f64_sub_0 [simp]: "f64_sub 1 0 = 1"
  by (simp add: f64_sub_def)

section \<open>Printing\<close>

text \<open>\<open>{:.n}\<close>: the exact value of the double, rounded to \<open>n\<close> decimals.\<close>

definition pad_zeros :: "nat \<Rightarrow> string \<Rightarrow> string" where
  "pad_zeros n s = replicate (n - length s) (CHR ''0'') @ s"

definition show_fixed :: "nat \<Rightarrow> f64 \<Rightarrow> string" where
  "show_fixed n x =
     (let k = round_even (x * 10 ^ n)
      in show_nat (k div 10 ^ n) @ ''.'' @ pad_zeros n (show_nat (k mod 10 ^ n)))"

text \<open>How many places the point of a number between 0 and 1 moves until a digit stands before it.\<close>

function places :: "f64 \<Rightarrow> nat" where
  "places x = (if x \<le> 0 \<or> 1 \<le> x then 0 else Suc (places (10 * x)))"
  by auto

termination places
proof (relation "measure (\<lambda>x. nat \<lfloor>10 / x\<rfloor>)")
  fix x :: rat
  assume "\<not> (x \<le> 0 \<or> 1 \<le> x)"
  then have "10 / (10 * x) + 1 \<le> 10 / x" by (simp add: field_simps)
  then have "\<lfloor>10 / (10 * x)\<rfloor> + 1 \<le> \<lfloor>10 / x\<rfloor>" by linarith
  moreover have "0 \<le> \<lfloor>10 / (10 * x)\<rfloor>" using \<open>\<not> (x \<le> 0 \<or> 1 \<le> x)\<close> by simp
  ultimately have "nat \<lfloor>10 / (10 * x)\<rfloor> < nat \<lfloor>10 / x\<rfloor>" by linarith
  then show "(10 * x, x) \<in> measure (\<lambda>x. nat \<lfloor>10 / x\<rfloor>)" by (simp only: in_measure)
qed simp

declare places.simps [simp del]

text \<open>\<open>{:.ne}\<close> of a number below 1: one digit, \<open>n\<close> decimals, and the negated exponent.\<close>

definition show_exp :: "nat \<Rightarrow> f64 \<Rightarrow> string" where
  "show_exp n x =
     (let e = places x; m = round_even (x * 10 ^ (e + n));
          (m, e) = (if m = 10 ^ (n + 1) then (10 ^ n, e - 1) else (m, e))
      in show_nat (m div 10 ^ n) @ ''.'' @ pad_zeros n (show_nat (m mod 10 ^ n)) @ ''e''
           @ (if e = 0 then ''0'' else ''-'' @ show_nat e))"

end
