(* ===== verification/Rust_BTree.thy ===== *)
theory Rust_BTree
  imports Rust_Prelude
begin

text \<open>
  \<open>std::collections::BTreeSet<T>\<close> as the list of its elements in iteration order. The order is the
  element type's \<open>Ord::cmp\<close>, so the operations take \<open>cmp\<close> as an argument, and the laws the
  documentation of \<open>Ord\<close> asks of an implementation are the locale \<open>rust_ord\<close>. \<open>cmp\<close> may
  answer \<open>Equal\<close> on values that differ (\<open>RemainingAccount\<close> of the liquidator does), so an insert of
  an element that is already there keeps the element that was there first.
\<close>

datatype ordering = Less | Equal | Greater

text \<open>\<open>Ord::cmp\<close> of the primitive types and of types with a derived order.\<close>

definition prim_cmp :: "'a::linorder \<Rightarrow> 'a \<Rightarrow> ordering" where
  "prim_cmp a b = (if a < b then Less else if a = b then Equal else Greater)"

text \<open>\<open>BTreeSet::insert\<close> and \<open>BTreeSet::contains\<close>.\<close>

fun bt_insert :: "('a \<Rightarrow> 'a \<Rightarrow> ordering) \<Rightarrow> 'a \<Rightarrow> 'a list \<Rightarrow> 'a list" where
  "bt_insert cmp x [] = [x]"
| "bt_insert cmp x (y # ys) =
     (case cmp x y of
        Less \<Rightarrow> x # y # ys
      | Equal \<Rightarrow> y # ys
      | Greater \<Rightarrow> y # bt_insert cmp x ys)"

definition bt_contains :: "('a \<Rightarrow> 'a \<Rightarrow> ordering) \<Rightarrow> 'a \<Rightarrow> 'a list \<Rightarrow> bool" where
  "bt_contains cmp x ys \<longleftrightarrow> list_ex (\<lambda>y. cmp x y = Equal) ys"

definition bt_ordered :: "('a \<Rightarrow> 'a \<Rightarrow> ordering) \<Rightarrow> 'a list \<Rightarrow> bool" where
  "bt_ordered cmp ys \<longleftrightarrow> sorted_wrt (\<lambda>a b. cmp a b = Less) ys"

text \<open>Inserting the elements of a list one after the other.\<close>

definition bt_insert_all :: "('a \<Rightarrow> 'a \<Rightarrow> ordering) \<Rightarrow> 'a list \<Rightarrow> 'a list \<Rightarrow> 'a list" where
  "bt_insert_all cmp xs ys = fold (bt_insert cmp) xs ys"

locale rust_ord =
  fixes cmp :: "'a \<Rightarrow> 'a \<Rightarrow> ordering"
  assumes cmp_refl: "cmp a a = Equal"
    and cmp_swap: "cmp a b = Less \<longleftrightarrow> cmp b a = Greater"
    and cmp_less_trans: "cmp a b = Less \<Longrightarrow> cmp b c = Less \<Longrightarrow> cmp a c = Less"
    and cmp_equal_left: "cmp a b = Equal \<Longrightarrow> cmp a c = cmp b c"
begin

lemma cmp_equal_sym: "cmp a b = Equal \<Longrightarrow> cmp b a = Equal"
  using cmp_equal_left [of a b a] cmp_refl by simp

lemma cmp_equal_right: "cmp b c = Equal \<Longrightarrow> cmp a b = cmp a c"
  by (metis cmp_equal_left cmp_equal_sym cmp_swap ordering.exhaust)

lemma insert_members: "set (bt_insert cmp x ys) \<subseteq> insert x (set ys)"
  by (induction ys) (auto split: ordering.splits)

lemma insert_keeps: "set ys \<subseteq> set (bt_insert cmp x ys)"
  by (induction ys) (auto split: ordering.splits)

lemma ordered_Cons: "bt_ordered cmp (y # ys) \<longleftrightarrow> (\<forall>z \<in> set ys. cmp y z = Less) \<and> bt_ordered cmp ys"
  by (simp add: bt_ordered_def)

lemma insert_ordered: "bt_ordered cmp ys \<Longrightarrow> bt_ordered cmp (bt_insert cmp x ys)"
proof (induction ys)
  case Nil
  then show ?case by (simp add: bt_ordered_def)
next
  case (Cons y ys)
  then have y: "\<forall>z \<in> set ys. cmp y z = Less" and ys: "bt_ordered cmp ys"
    by (simp_all add: ordered_Cons)
  show ?case
  proof (cases "cmp x y")
    case Less
    with y cmp_less_trans have "\<forall>z \<in> set (y # ys). cmp x z = Less" by auto
    with Less Cons.prems show ?thesis by (simp add: ordered_Cons)
  next
    case Equal
    with Cons.prems show ?thesis by simp
  next
    case Greater
    then have "cmp y x = Less" by (simp add: cmp_swap)
    with y insert_members [of x ys] have "\<forall>z \<in> set (bt_insert cmp x ys). cmp y z = Less"
      by auto
    with Greater Cons.IH [OF ys] show ?thesis by (simp add: ordered_Cons)
  qed
qed

lemma contains_iff: "bt_contains cmp x ys \<longleftrightarrow> (\<exists>y \<in> set ys. cmp x y = Equal)"
  by (simp add: bt_contains_def list_ex_iff)

lemma insert_contains: "bt_contains cmp x (bt_insert cmp x ys)"
  by (induction ys) (auto simp: contains_iff cmp_refl split: ordering.splits)

lemma insert_present:
  assumes "bt_ordered cmp ys" and "bt_contains cmp x ys"
  shows "bt_insert cmp x ys = ys"
  using assms
proof (induction ys)
  case Nil
  then show ?case by (simp add: contains_iff)
next
  case (Cons y ys)
  show ?case
  proof (cases "cmp x y")
    case Less
    with Cons.prems(1) cmp_less_trans have "\<forall>z \<in> set (y # ys). cmp x z = Less"
      by (auto simp: ordered_Cons)
    with Cons.prems(2) show ?thesis by (auto simp: contains_iff)
  next
    case Greater
    with Cons.prems have "bt_contains cmp x ys" by (auto simp: contains_iff)
    with Cons Greater show ?thesis by (simp add: ordered_Cons)
  qed simp
qed

lemma insert_absent:
  assumes "\<not> bt_contains cmp x ys"
  shows "set (bt_insert cmp x ys) = insert x (set ys)"
  using assms by (induction ys) (auto simp: contains_iff split: ordering.splits)

lemma contains_insert:
  "bt_contains cmp z (bt_insert cmp x ys) \<longleftrightarrow> cmp z x = Equal \<or> bt_contains cmp z ys"
proof
  assume "bt_contains cmp z (bt_insert cmp x ys)"
  with insert_members [of x ys] show "cmp z x = Equal \<or> bt_contains cmp z ys"
    by (auto simp: contains_iff)
next
  assume "cmp z x = Equal \<or> bt_contains cmp z ys"
  then show "bt_contains cmp z (bt_insert cmp x ys)"
  proof
    assume zx: "cmp z x = Equal"
    obtain y where "y \<in> set (bt_insert cmp x ys)" "cmp x y = Equal"
      using insert_contains [of x ys] by (auto simp: contains_iff)
    moreover have "cmp z y = cmp x y" using zx by (rule cmp_equal_left)
    ultimately show ?thesis by (auto simp: contains_iff)
  next
    assume "bt_contains cmp z ys"
    with insert_keeps [of ys x] show ?thesis by (auto simp: contains_iff)
  qed
qed

lemma insert_all_Nil [simp]: "bt_insert_all cmp [] ys = ys"
  by (simp add: bt_insert_all_def)

lemma insert_all_Cons [simp]:
  "bt_insert_all cmp (x # xs) ys = bt_insert_all cmp xs (bt_insert cmp x ys)"
  by (simp add: bt_insert_all_def)

lemma insert_all_append:
  "bt_insert_all cmp (xs @ zs) ys = bt_insert_all cmp zs (bt_insert_all cmp xs ys)"
  by (simp add: bt_insert_all_def)

lemma insert_all_ordered: "bt_ordered cmp ys \<Longrightarrow> bt_ordered cmp (bt_insert_all cmp xs ys)"
  by (induction xs arbitrary: ys) (auto intro: insert_ordered)

lemma insert_all_members: "set (bt_insert_all cmp xs ys) \<subseteq> set xs \<union> set ys"
proof (induction xs arbitrary: ys)
  case (Cons x xs)
  from Cons [of "bt_insert cmp x ys"] insert_members [of x ys] show ?case by auto
qed simp

lemma insert_all_keeps: "set ys \<subseteq> set (bt_insert_all cmp xs ys)"
proof (induction xs arbitrary: ys)
  case (Cons x xs)
  from Cons [of "bt_insert cmp x ys"] insert_keeps [of ys x] show ?case by auto
qed simp

lemma contains_insert_all:
  "bt_contains cmp z (bt_insert_all cmp xs ys) \<longleftrightarrow>
     (\<exists>x \<in> set xs. cmp z x = Equal) \<or> bt_contains cmp z ys"
  by (induction xs arbitrary: ys) (auto simp: contains_insert)

text \<open>An element inserted into a set without an equal one stays, whatever is inserted later.\<close>

lemma first_insert_wins:
  assumes "\<not> bt_contains cmp x ys"
  shows "x \<in> set (bt_insert_all cmp (x # xs) ys)"
  using insert_absent [OF assms] insert_all_keeps [of "bt_insert cmp x ys" xs] by auto

text \<open>No two elements of an ordered set compare equal.\<close>

lemma ordered_unique:
  assumes "bt_ordered cmp ys" and "x \<in> set ys" and "y \<in> set ys" and "cmp x y = Equal"
  shows "x = y"
  using assms
proof (induction ys)
  case (Cons z zs)
  have "cmp y x = Equal" using Cons.prems(4) by (rule cmp_equal_sym)
  with Cons show ?case by (auto simp: ordered_Cons)
qed simp

lemma ordered_distinct: "bt_ordered cmp ys \<Longrightarrow> distinct ys"
  by (induction ys) (auto simp: ordered_Cons cmp_refl dest: bspec)

lemma ordered_filter: "bt_ordered cmp ys \<Longrightarrow> bt_ordered cmp (filter P ys)"
  by (simp add: bt_ordered_def sorted_wrt_filter)

end

lemma prim_cmp_iff [simp]:
  "prim_cmp a b = Less \<longleftrightarrow> a < b" "prim_cmp a b = Equal \<longleftrightarrow> a = b" "prim_cmp a b = Greater \<longleftrightarrow> b < a"
  by (auto simp: prim_cmp_def)

interpretation prim: rust_ord "prim_cmp :: 'a::linorder \<Rightarrow> 'a \<Rightarrow> ordering"
  by unfold_locales auto

lemma prim_contains [simp]: "bt_contains prim_cmp x ys \<longleftrightarrow> x \<in> set ys"
  by (auto simp: prim.contains_iff)

lemma prim_insert_set [simp]: "set (bt_insert prim_cmp x ys) = insert x (set ys)"
  using prim.insert_members [of x ys] prim.insert_keeps [of ys x] prim.insert_contains [of x ys]
  by auto

lemma prim_ordered: "bt_ordered prim_cmp ys \<longleftrightarrow> sorted ys \<and> distinct ys"
  by (simp add: bt_ordered_def strict_sorted_iff [symmetric])

lemma prim_insert_twice [simp]:
  "bt_ordered prim_cmp ys \<Longrightarrow> x \<in> set ys \<Longrightarrow> bt_insert prim_cmp x ys = ys"
  by (simp add: prim.insert_present)

end
