(* ===== verification/Lt_Hash.thy ===== *)
theory Lt_Hash
  imports Rust_Prelude
begin

text \<open>
  \<open>crates/lthash/src/lib.rs\<close>: the group \<open>(Z/2^16)^1024\<close> of lattice hashes, the hash of an account
  and the per-slot delta. \<open>LtHash\<close>, a \<open>[u16; 1024]\<close>, is a type of its own whose group operations are
  the source's index loops; it is made an instance of \<open>ab_group_add\<close>, so sums of hashes are the
  library's. Blake3 is a parameter: \<open>xof m n\<close> are the first \<open>n\<close> bytes of the extendable output on
  \<open>m\<close>, \<open>b3 m\<close> is the 32-byte hash of \<open>m\<close>.
\<close>

section \<open>The group\<close>

definition N_LIMBS :: nat where
  "N_LIMBS = 1024"

lemma N_LIMBS_pos [simp]: "0 < N_LIMBS"
  by (simp add: N_LIMBS_def)

definition BYTES_PER_HASH :: nat where
  "BYTES_PER_HASH = N_LIMBS * 2"

typedef lthash = "{xs :: u16 list. length xs = N_LIMBS}"
  morphisms limbs Abs_lthash
  by (rule exI [of _ "replicate N_LIMBS 0"]) simp

setup_lifting type_definition_lthash

lift_definition lt_identity :: lthash is "replicate N_LIMBS 0"
  by simp

text \<open>The loop \<open>for i in 0..N_LIMBS { self.0[i] = op(self.0[i], other.0[i]) }\<close>.\<close>

definition mix_limbs :: "(u16 \<Rightarrow> u16 \<Rightarrow> u16) \<Rightarrow> u16 list \<Rightarrow> u16 list \<Rightarrow> u16 list" where
  "mix_limbs op self other = fold (\<lambda>i acc. acc[i := op (acc ! i) (other ! i)]) [0..<N_LIMBS] self"

lemma length_index_loop: "length (fold (\<lambda>i acc. acc[i := f i acc]) is xs) = length xs"
  by (induction "is" arbitrary: xs) auto

lemma index_loop_upto:
  assumes "n \<le> length xs"
  shows "fold (\<lambda>i acc. acc[i := op (acc ! i) (ys ! i)]) [0..<n] xs
           = map (\<lambda>i. op (xs ! i) (ys ! i)) [0..<n] @ drop n xs"
  using assms
proof (induction n)
  case (Suc n)
  then have "drop n xs = xs ! n # drop (Suc n) xs" by (simp add: Cons_nth_drop_Suc)
  with Suc show ?case by (simp add: nth_append list_update_append)
qed simp

lemma mix_limbs_map2:
  assumes "length xs = N_LIMBS" and "length ys = N_LIMBS"
  shows "mix_limbs op xs ys = map2 op xs ys"
  using assms index_loop_upto [of N_LIMBS xs op ys]
  by (simp add: mix_limbs_def list_eq_iff_nth_eq)

lift_definition mix_in :: "lthash \<Rightarrow> lthash \<Rightarrow> lthash" is "mix_limbs (+)"
  by (simp add: mix_limbs_def length_index_loop)

lift_definition mix_out :: "lthash \<Rightarrow> lthash \<Rightarrow> lthash" is "mix_limbs (-)"
  by (simp add: mix_limbs_def length_index_loop)

lift_definition is_identity :: "lthash \<Rightarrow> bool" is "list_all (\<lambda>x. x = 0)" .

instantiation lthash :: equal
begin
definition equal_lthash :: "lthash \<Rightarrow> lthash \<Rightarrow> bool" where
  "equal_lthash a b \<longleftrightarrow> limbs a = limbs b"
instance by standard (simp add: equal_lthash_def limbs_inject)
end

lemma length_limbs [simp]: "length (limbs h) = N_LIMBS"
  using limbs [of h] by simp

lemma lthash_eqI: "(\<And>i. i < N_LIMBS \<Longrightarrow> limbs a ! i = limbs b ! i) \<Longrightarrow> a = b"
  by (simp add: limbs_inject [symmetric] list_eq_iff_nth_eq)

lemma limbs_identity [simp]: "i < N_LIMBS \<Longrightarrow> limbs lt_identity ! i = 0"
  by (simp add: lt_identity.rep_eq)

lemma limbs_mix_in [simp]: "i < N_LIMBS \<Longrightarrow> limbs (mix_in a b) ! i = limbs a ! i + limbs b ! i"
  by (simp add: mix_in.rep_eq mix_limbs_map2)

lemma limbs_mix_out [simp]: "i < N_LIMBS \<Longrightarrow> limbs (mix_out a b) ! i = limbs a ! i - limbs b ! i"
  by (simp add: mix_out.rep_eq mix_limbs_map2)

instantiation lthash :: ab_group_add
begin
definition zero_lthash :: lthash where "zero_lthash = lt_identity"
definition plus_lthash :: "lthash \<Rightarrow> lthash \<Rightarrow> lthash" where "plus_lthash = mix_in"
definition minus_lthash :: "lthash \<Rightarrow> lthash \<Rightarrow> lthash" where "minus_lthash = mix_out"
definition uminus_lthash :: "lthash \<Rightarrow> lthash" where "uminus_lthash h = mix_out lt_identity h"
instance
  by standard
    (auto intro!: lthash_eqI
      simp: zero_lthash_def plus_lthash_def minus_lthash_def uminus_lthash_def algebra_simps)
end

lemmas lt_group = plus_lthash_def [symmetric, THEN fun_cong, THEN fun_cong]
  minus_lthash_def [symmetric, THEN fun_cong, THEN fun_cong] zero_lthash_def [symmetric]

lemma is_identity_iff: "is_identity h \<longleftrightarrow> h = 0"
proof
  assume "is_identity h"
  then show "h = 0"
    by (intro lthash_eqI) (simp add: is_identity.rep_eq zero_lthash_def list_all_length)
qed (simp add: is_identity.rep_eq zero_lthash_def list_all_length)

section \<open>Serialisation\<close>

text \<open>\<open>checksum\<close>: the limbs are copied into a 2048-byte buffer, which is hashed.\<close>

definition limb_bytes :: "u16 list \<Rightarrow> bytes" where
  "limb_bytes xs =
     fold (\<lambda>(i, limb) buf. put (2 * i) (to_le_bytes limb) buf)
       (enumerate 0 xs) (replicate BYTES_PER_HASH 0)"

definition checksum :: "(bytes \<Rightarrow> bytes) \<Rightarrow> lthash \<Rightarrow> bytes" where
  "checksum b3 h = b3 (limb_bytes (limbs h))"

lemma put_chunks:
  assumes "\<And>x. length (f x) = 2" and "2 * (n + length xs) \<le> length buf"
  shows "fold (\<lambda>(i, x) buf. put (2 * i) (f x) buf) (enumerate n xs) buf
           = take (2 * n) buf @ concat (map f xs) @ drop (2 * (n + length xs)) buf"
  using assms(2)
proof (induction xs arbitrary: n buf)
  case (Cons x xs)
  let ?buf = "put (2 * n) (f x) buf"
  have len: "length ?buf = length buf" using Cons.prems assms(1) by simp
  have "take (2 * Suc n) ?buf = take (2 * n) buf @ f x"
    using Cons.prems assms(1) by (simp add: put_def)
  moreover have "drop (2 * (Suc n + length xs)) ?buf = drop (2 * (n + length (x # xs))) buf"
    using Cons.prems assms(1) by (simp add: put_def add.commute)
  moreover have "2 * (Suc n + length xs) \<le> length ?buf"
    using Cons.prems len by simp
  ultimately show ?case
    using Cons.IH [of "Suc n" ?buf] by simp
qed simp

lemma limb_bytes_concat: "length xs = N_LIMBS \<Longrightarrow> limb_bytes xs = concat (map to_le_bytes xs)"
  using put_chunks [of to_le_bytes 0 xs "replicate BYTES_PER_HASH 0"]
  by (simp add: limb_bytes_def BYTES_PER_HASH_def mult.commute)

lemma limb_bytes_nth:
  assumes "length xs = N_LIMBS" and "i < N_LIMBS"
  shows "limb_bytes xs ! (2 * i) = to_le_bytes (xs ! i) ! 0"
    and "limb_bytes xs ! (2 * i + 1) = to_le_bytes (xs ! i) ! 1"
proof -
  have nth: "concat (map f ys) ! (2 * i + k) = f (ys ! i) ! k"
    if "\<And>x. length (f x) = 2" "i < length ys" "k < 2" for f :: "u16 \<Rightarrow> bytes" and ys i k
    using that(2)
  proof (induction ys arbitrary: i)
    case (Cons y ys)
    then show ?case
      using that by (cases i) (auto simp: nth_append)
  qed simp
  show "limb_bytes xs ! (2 * i) = to_le_bytes (xs ! i) ! 0"
    using nth [of to_le_bytes i xs 0] assms by (simp add: limb_bytes_concat)
  show "limb_bytes xs ! (2 * i + 1) = to_le_bytes (xs ! i) ! 1"
    using nth [of to_le_bytes i xs 1] assms by (simp add: limb_bytes_concat)
qed

text \<open>The inverse: 2048 bytes read as 1024 little-endian limbs.\<close>

lift_definition lt_of_bytes :: "bytes \<Rightarrow> lthash" is
  "\<lambda>bs. map (\<lambda>i. from_le_bytes [bs ! (2 * i), bs ! (2 * i + 1)]) [0..<N_LIMBS]"
  by simp

lemma limbs_lt_of_bytes [simp]:
  "i < N_LIMBS \<Longrightarrow> limbs (lt_of_bytes bs) ! i = from_le_bytes [bs ! (2 * i), bs ! (2 * i + 1)]"
  by (simp add: lt_of_bytes.rep_eq)

lemma two_bytes: "[to_le_bytes (w :: u16) ! 0, to_le_bytes w ! 1] = to_le_bytes w"
  by (simp add: to_le_bytes_def numeral_2_eq_2)

lemma lt_of_limb_bytes: "lt_of_bytes (limb_bytes (limbs h)) = h"
proof (rule lthash_eqI)
  fix i assume i: "i < N_LIMBS"
  then show "limbs (lt_of_bytes (limb_bytes (limbs h))) ! i = limbs h ! i"
    by (simp add: limb_bytes_nth two_bytes del: One_nat_def Suc_eq_plus1 add_Suc_right)
qed

lemma lt_of_bytes_inj:
  assumes "length bs = BYTES_PER_HASH" and "length cs = BYTES_PER_HASH"
    and "lt_of_bytes bs = lt_of_bytes cs"
  shows "bs = cs"
proof (rule nth_equalityI)
  show "length bs = length cs" using assms by simp
  fix k assume k: "k < length bs"
  define i where "i = k div 2"
  have i: "i < N_LIMBS" using k assms(1) by (simp add: i_def BYTES_PER_HASH_def)
  have "limbs (lt_of_bytes bs) ! i = limbs (lt_of_bytes cs) ! i" using assms(3) by simp
  then have "(from_le_bytes [bs ! (2 * i), bs ! (2 * i + 1)] :: u16)
      = from_le_bytes [cs ! (2 * i), cs ! (2 * i + 1)]"
    using i by (simp add: lt_of_bytes.rep_eq)
  then have "to_le_bytes (from_le_bytes [bs ! (2 * i), bs ! (2 * i + 1)] :: u16)
      = to_le_bytes (from_le_bytes [cs ! (2 * i), cs ! (2 * i + 1)] :: u16)"
    by simp
  then have "bs ! (2 * i) = cs ! (2 * i)" and "bs ! (2 * i + 1) = cs ! (2 * i + 1)"
    by (simp_all add: to_from_le_bytes)
  moreover have "k = 2 * i \<or> k = 2 * i + 1" by (auto simp: i_def)
  ultimately show "bs ! k = cs ! k" by auto
qed

section \<open>Accounts\<close>

record account_for_hash =
  lamports :: u64
  data :: bytes
  executable :: bool
  owner :: bytes
  pubkey :: bytes

definition account_wf :: "account_for_hash \<Rightarrow> bool" where
  "account_wf a \<longleftrightarrow> length (owner a) = 32 \<and> length (pubkey a) = 32"

text \<open>The byte string fed to the hasher, in the order of the \<open>update\<close> calls.\<close>

definition account_bytes :: "account_for_hash \<Rightarrow> bytes" where
  "account_bytes a =
     to_le_bytes (lamports a) @ data a @ [of_bool (executable a)] @ owner a @ pubkey a"

definition hash_account :: "(bytes \<Rightarrow> nat \<Rightarrow> bytes) \<Rightarrow> account_for_hash \<Rightarrow> lthash" where
  "hash_account xof a =
     (if lamports a = 0 then lt_identity
      else lt_of_bytes (xof (account_bytes a) BYTES_PER_HASH))"

definition xof_ok :: "(bytes \<Rightarrow> nat \<Rightarrow> bytes) \<Rightarrow> bool" where
  "xof_ok xof \<longleftrightarrow> (\<forall>m n. length (xof m n) = n)"

lemma account_bytes_inj:
  assumes "account_wf a" and "account_wf b" and "account_bytes a = account_bytes b"
  shows "a = b"
proof -
  note len = assms(1,2) [unfolded account_wf_def]
  from assms(3) have "to_le_bytes (lamports a) = to_le_bytes (lamports b)"
    and rest: "data a @ [of_bool (executable a)] @ owner a @ pubkey a
      = data b @ [of_bool (executable b)] @ owner b @ pubkey b"
    by (auto simp: account_bytes_def)
  then have lam: "lamports a = lamports b"
    using to_le_bytes_inj [where 'w = 64] by auto
  have dat: "data a = data b"
    and tail: "[of_bool (executable a)] @ owner a @ pubkey a
      = [of_bool (executable b) :: byte] @ owner b @ pubkey b"
    using rest len by (auto simp: append_eq_append_conv)
  from tail len have "owner a = owner b" and "pubkey a = pubkey b"
    and "(of_bool (executable a) :: byte) = of_bool (executable b)"
    by (auto simp: append_eq_append_conv)
  with lam dat show ?thesis by (cases "executable a"; cases "executable b") auto
qed

section \<open>The per-slot delta\<close>

record slot_delta =
  delta :: lthash

definition sd_new :: slot_delta where
  "sd_new = \<lparr>delta = lt_identity\<rparr>"

definition sd_mix ::
  "(bytes \<Rightarrow> nat \<Rightarrow> bytes) \<Rightarrow> slot_delta \<Rightarrow> account_for_hash option \<Rightarrow> account_for_hash option
     \<Rightarrow> slot_delta" where
  "sd_mix xof sd old new =
     (let sd1 = (case old of None \<Rightarrow> sd
                 | Some a \<Rightarrow> sd\<lparr>delta := mix_out (delta sd) (hash_account xof a)\<rparr>)
      in case new of None \<Rightarrow> sd1
         | Some a \<Rightarrow> sd1\<lparr>delta := mix_in (delta sd1) (hash_account xof a)\<rparr>)"

text \<open>The caller's loop over the modified accounts of a slot.\<close>

definition sd_mix_all ::
  "(bytes \<Rightarrow> nat \<Rightarrow> bytes) \<Rightarrow> (account_for_hash option \<times> account_for_hash option) list
     \<Rightarrow> slot_delta \<Rightarrow> slot_delta" where
  "sd_mix_all xof ts sd = fold (\<lambda>(old, new) sd. sd_mix xof sd old new) ts sd"

text \<open>Abstract side: the hash of an optional state, and of a list of accounts.\<close>

definition hash_opt :: "(bytes \<Rightarrow> nat \<Rightarrow> bytes) \<Rightarrow> account_for_hash option \<Rightarrow> lthash" where
  "hash_opt xof m = (case m of None \<Rightarrow> 0 | Some a \<Rightarrow> hash_account xof a)"

definition lt_of_accounts :: "(bytes \<Rightarrow> nat \<Rightarrow> bytes) \<Rightarrow> account_for_hash list \<Rightarrow> lthash" where
  "lt_of_accounts xof as = fold (\<lambda>a h. mix_in h (hash_account xof a)) as lt_identity"

lemma hash_opt_simps [simp]:
  "hash_opt xof None = 0" "hash_opt xof (Some a) = hash_account xof a"
  by (simp_all add: hash_opt_def)

lemma delta_sd_mix:
  "delta (sd_mix xof sd old new) = delta sd + (hash_opt xof new - hash_opt xof old)"
  by (cases old; cases new) (simp_all add: sd_mix_def lt_group algebra_simps)

lemma delta_sd_mix_all:
  "delta (sd_mix_all xof ts sd)
     = delta sd + (\<Sum>(old, new) \<leftarrow> ts. hash_opt xof new - hash_opt xof old)"
proof (induction ts arbitrary: sd)
  case (Cons t ts)
  then show ?case
    by (cases t) (simp add: sd_mix_all_def delta_sd_mix algebra_simps)
qed (simp add: sd_mix_all_def)

lemma delta_sd_new [simp]: "delta sd_new = 0"
  by (simp add: sd_new_def lt_group)

lemma lt_of_accounts_sum: "lt_of_accounts xof as = (\<Sum>a \<leftarrow> as. hash_account xof a)"
proof -
  have "fold (\<lambda>a h. mix_in h (hash_account xof a)) as h = h + (\<Sum>a \<leftarrow> as. hash_account xof a)" for h
    by (induction as arbitrary: h) (simp_all add: lt_group algebra_simps)
  then show ?thesis by (simp add: lt_of_accounts_def lt_group)
qed

lemma hash_account_tombstone: "lamports a = 0 \<Longrightarrow> hash_account xof a = 0"
  by (simp add: hash_account_def lt_group)

lemma hash_account_eqD:
  assumes "xof_ok xof" and "account_wf a" and "account_wf b"
    and "lamports a \<noteq> 0" and "lamports b \<noteq> 0"
    and "hash_account xof a = hash_account xof b" and "a \<noteq> b"
  shows "account_bytes a \<noteq> account_bytes b \<and>
         xof (account_bytes a) BYTES_PER_HASH = xof (account_bytes b) BYTES_PER_HASH"
proof
  show "account_bytes a \<noteq> account_bytes b"
    using account_bytes_inj assms(2,3,7) by blast
  show "xof (account_bytes a) BYTES_PER_HASH = xof (account_bytes b) BYTES_PER_HASH"
    using assms by (intro lt_of_bytes_inj) (auto simp: hash_account_def xof_ok_def)
qed

section \<open>Properties\<close>

text \<open>
  C14: The per-slot delta turns the state hash before the slot into the one after it. For any
  sequence of account changes fed to \<open>SlotDelta::mix\<close>, created and closed accounts included,
  mixing the delta into the hash of the states before gives the hash of the states after.
\<close>

theorem slot_delta_reconstructs_after_state:
  "mix_in (lt_of_accounts xof (List.map_filter fst ts)) (delta (sd_mix_all xof ts sd_new))
     = lt_of_accounts xof (List.map_filter snd ts)"
proof -
  have part: "(\<Sum>a \<leftarrow> List.map_filter f ts. hash_account xof a) = (\<Sum>t \<leftarrow> ts. hash_opt xof (f t))"
    for f :: "account_for_hash option \<times> account_for_hash option \<Rightarrow> account_for_hash option"
    by (induction ts) (auto simp: map_filter_simps split: option.splits)
  have "(\<Sum>(old, new) \<leftarrow> ts. hash_opt xof new - hash_opt xof old)
      = (\<Sum>t \<leftarrow> ts. hash_opt xof (snd t)) - (\<Sum>t \<leftarrow> ts. hash_opt xof (fst t))"
    by (induction ts) (auto simp: algebra_simps)
  then show ?thesis
    by (simp add: lt_group lt_of_accounts_sum part delta_sd_mix_all)
qed

text \<open>
  Binding. Two different well-formed live accounts with the same lattice hash exhibit a
  collision of the Blake3 output itself: the account encoding and the limb reading lose nothing.
\<close>

theorem hash_account_collision:
  assumes "xof_ok xof" and "account_wf a" and "account_wf b"
    and "lamports a \<noteq> 0" and "lamports b \<noteq> 0"
    and "hash_account xof a = hash_account xof b" and "a \<noteq> b"
  shows "account_bytes a \<noteq> account_bytes b \<and>
         xof (account_bytes a) BYTES_PER_HASH = xof (account_bytes b) BYTES_PER_HASH"
  using hash_account_eqD [OF assms] by blast

theorem hash_account_collision_witness:
  "account_bytes \<lparr>lamports = 1, data = [], executable = False, owner = replicate 32 0,
       pubkey = replicate 32 0\<rparr> \<noteq>
   account_bytes \<lparr>lamports = 2, data = [], executable = False, owner = replicate 32 0,
       pubkey = replicate 32 0\<rparr>"
  using hash_account_collision [of "\<lambda>m n. replicate n 0"
      "\<lparr>lamports = 1, data = [], executable = False, owner = replicate 32 0, pubkey = replicate 32 0\<rparr>"
      "\<lparr>lamports = 2, data = [], executable = False, owner = replicate 32 0, pubkey = replicate 32 0\<rparr>"]
  by (simp add: xof_ok_def account_wf_def hash_account_def)

text \<open>
  The checksum commits to the whole hash. The 2048 bytes that are hashed determine every limb, so
  two hashes with equal checksums are equal or collide under Blake3.
\<close>

theorem checksum_commits:
  "checksum b3 g = checksum b3 h \<longleftrightarrow>
     g = h \<or> (limb_bytes (limbs g) \<noteq> limb_bytes (limbs h)
              \<and> b3 (limb_bytes (limbs g)) = b3 (limb_bytes (limbs h)))"
  using lt_of_limb_bytes [of g] lt_of_limb_bytes [of h] by (auto simp: checksum_def)

end
