(* ===== verification/Attest.thy ===== *)
theory Attest
  imports Lt_Hash "HOL-Library.Multiset"
begin

text \<open>
  \<open>crates/attest/src/lib.rs\<close>: the attestation packet and the all-or-nothing slot verifier. The
  abstract specification of the verifier is \<open>transitions_delta\<close>, the sum of the hash differences of
  the claimed transitions; \<open>verify_slot_delta_iff\<close> is the refinement.
\<close>

section \<open>The packet\<close>

record attestation =
  att_slot :: u64
  att_fec_set_index :: u32
  att_leader_pubkey :: bytes
  att_fec_merkle_root :: bytes
  att_leader_sig :: bytes
  att_delta_lthash :: "u16 list"

definition from_delta ::
  "u64 \<Rightarrow> u32 \<Rightarrow> bytes \<Rightarrow> bytes \<Rightarrow> bytes \<Rightarrow> lthash \<Rightarrow> ('e, attestation) outcome" where
  "from_delta slot fec_set_index leader_pubkey fec_merkle_root leader_sig d =
     (if length (limbs d) = N_LIMBS then
        Ret \<lparr>att_slot = slot, att_fec_set_index = fec_set_index,
             att_leader_pubkey = leader_pubkey, att_fec_merkle_root = fec_merkle_root,
             att_leader_sig = leader_sig, att_delta_lthash = limbs d\<rparr>
      else Panic)"

text \<open>\<open>limbs.copy_from_slice(&xs)\<close> for a list of the right length.\<close>

lift_definition lt_of_limbs :: "u16 list \<Rightarrow> lthash" is
  "\<lambda>xs :: u16 list. map (\<lambda>i. xs ! i) [0..<N_LIMBS]"
  by simp

definition delta_as_lthash :: "attestation \<Rightarrow> lthash option" where
  "delta_as_lthash att =
     (if length (att_delta_lthash att) \<noteq> N_LIMBS then None
      else Some (lt_of_limbs (att_delta_lthash att)))"

lemma lt_of_limbs_limbs [simp]: "lt_of_limbs (limbs h) = h"
  by (rule lthash_eqI) (simp add: lt_of_limbs.rep_eq)

lemma limbs_lt_of_limbs [simp]: "length xs = N_LIMBS \<Longrightarrow> limbs (lt_of_limbs xs) = xs"
  by (simp add: lt_of_limbs.rep_eq list_eq_iff_nth_eq)

lemma lt_of_limbs_eq_iff:
  "length xs = N_LIMBS \<Longrightarrow> lt_of_limbs xs = h \<longleftrightarrow> xs = limbs h"
  by (metis limbs_lt_of_limbs lt_of_limbs_limbs)

lemma delta_as_lthash_Some: "delta_as_lthash att = Some d \<longleftrightarrow> att_delta_lthash att = limbs d"
  by (auto simp: delta_as_lthash_def lt_of_limbs_eq_iff)

lemma from_delta_Ret:
  "from_delta s i pk r sg d = Ret \<lparr>att_slot = s, att_fec_set_index = i, att_leader_pubkey = pk,
     att_fec_merkle_root = r, att_leader_sig = sg, att_delta_lthash = limbs d\<rparr>"
  by (simp add: from_delta_def)

lemma delta_as_lthash_from_delta:
  "from_delta s i pk r sg d = Ret att \<Longrightarrow> delta_as_lthash att = Some d"
  by (auto simp: from_delta_Ret delta_as_lthash_def)

section \<open>The slot verifier\<close>

record account_transition =
  t_old :: "account_for_hash option"
  t_new :: "account_for_hash option"

datatype verify_error =
    EmptyTransition
  | MalformedDelta
  | DeltaMismatch (attested: bytes) (recomputed: bytes)

text \<open>One turn of the verifier's loop: the running sum, or the early return.\<close>

definition apply_transition ::
  "(bytes \<Rightarrow> nat \<Rightarrow> bytes) \<Rightarrow> account_transition \<Rightarrow> lthash \<Rightarrow> (verify_error, lthash) outcome" where
  "apply_transition xof t acc =
     (case (t_old t, t_new t) of
        (None, None) \<Rightarrow> Fail EmptyTransition
      | (Some a, Some b) \<Rightarrow> Ret (mix_in (mix_out acc (hash_account xof a)) (hash_account xof b))
      | (Some a, None) \<Rightarrow> Ret (mix_out acc (hash_account xof a))
      | (None, Some b) \<Rightarrow> Ret (mix_in acc (hash_account xof b)))"

definition verify_slot_delta ::
  "(bytes \<Rightarrow> nat \<Rightarrow> bytes) \<Rightarrow> (bytes \<Rightarrow> bytes) \<Rightarrow> attestation \<Rightarrow> account_transition list
     \<Rightarrow> (verify_error, unit) outcome" where
  "verify_slot_delta xof b3 att ts =
     obind (ok_or MalformedDelta (delta_as_lthash att)) (\<lambda>attested.
     obind (ofold (apply_transition xof) ts lt_identity) (\<lambda>recomputed.
       if limbs recomputed = limbs attested then Ret ()
       else Fail (DeltaMismatch (checksum b3 attested) (checksum b3 recomputed))))"

section \<open>Specification and refinement\<close>

definition empty_transition :: "account_transition \<Rightarrow> bool" where
  "empty_transition t \<longleftrightarrow> t_old t = None \<and> t_new t = None"

definition transition_delta :: "(bytes \<Rightarrow> nat \<Rightarrow> bytes) \<Rightarrow> account_transition \<Rightarrow> lthash" where
  "transition_delta xof t = hash_opt xof (t_new t) - hash_opt xof (t_old t)"

definition transitions_delta :: "(bytes \<Rightarrow> nat \<Rightarrow> bytes) \<Rightarrow> account_transition list \<Rightarrow> lthash" where
  "transitions_delta xof ts = (\<Sum>t \<leftarrow> ts. transition_delta xof t)"

lemma transitions_delta_simps [simp]:
  "transitions_delta xof [] = 0"
  "transitions_delta xof (t # ts) = transition_delta xof t + transitions_delta xof ts"
  "transitions_delta xof (ts @ us) = transitions_delta xof ts + transitions_delta xof us"
  by (simp_all add: transitions_delta_def)

lemma apply_transition_eq:
  "apply_transition xof t acc =
     (if empty_transition t then Fail EmptyTransition else Ret (acc + transition_delta xof t))"
  by (cases "t_old t"; cases "t_new t")
    (simp_all add: apply_transition_def empty_transition_def transition_delta_def lt_group
      algebra_simps)

lemma verify_loop:
  "ofold (apply_transition xof) ts acc =
     (if list_ex empty_transition ts then Fail EmptyTransition
      else Ret (acc + transitions_delta xof ts))"
  by (induction ts arbitrary: acc) (auto simp: apply_transition_eq algebra_simps)

lemma verify_slot_delta_eq:
  "verify_slot_delta xof b3 att ts =
     (if length (att_delta_lthash att) \<noteq> N_LIMBS then Fail MalformedDelta
      else if list_ex empty_transition ts then Fail EmptyTransition
      else if limbs (transitions_delta xof ts) = att_delta_lthash att then Ret ()
      else Fail (DeltaMismatch (checksum b3 (lt_of_limbs (att_delta_lthash att)))
                               (checksum b3 (transitions_delta xof ts))))"
  by (simp add: verify_slot_delta_def delta_as_lthash_def verify_loop lt_group)

lemma verify_Ret_iff:
  "verify_slot_delta xof b3 att ts = Ret () \<longleftrightarrow>
     \<not> list_ex empty_transition ts \<and> delta_as_lthash att = Some (transitions_delta xof ts)"
  by (auto simp: verify_slot_delta_eq delta_as_lthash_Some dest: arg_cong [of _ _ length])

lemma verify_replaced:
  assumes "verify_slot_delta xof b3 att (ts @ \<lparr>t_old = m, t_new = Some a\<rparr> # us) = Ret ()"
  shows "verify_slot_delta xof b3 att (ts @ \<lparr>t_old = m, t_new = Some b\<rparr> # us) =
     (if hash_account xof b = hash_account xof a then Ret ()
      else Fail (DeltaMismatch
        (checksum b3 (transitions_delta xof (ts @ \<lparr>t_old = m, t_new = Some a\<rparr> # us)))
        (checksum b3 (transitions_delta xof (ts @ \<lparr>t_old = m, t_new = Some b\<rparr> # us)))))"
proof -
  have "att_delta_lthash att
      = limbs (transitions_delta xof (ts @ \<lparr>t_old = m, t_new = Some a\<rparr> # us))"
    and "\<not> list_ex empty_transition ts" and "\<not> list_ex empty_transition us"
    using assms by (simp_all add: verify_Ret_iff delta_as_lthash_Some)
  then show ?thesis
    by (simp add: verify_slot_delta_eq limbs_inject transition_delta_def empty_transition_def)
qed

section \<open>Properties\<close>

text \<open>
  C13: The verifier decides exactly the specification. It accepts when the packet has 1024 limbs, no
  transition is empty, and the limbs of the sum of the hash differences are those of the packet. A wrong
  limb count is reported before an empty transition, an empty transition before a mismatch, and a mismatch
  with the Blake3 checksums of the 2048 bytes of both; it never panics.
\<close>

theorem verify_slot_delta_decides:
  "verify_slot_delta xof b3 att ts =
     (if length (att_delta_lthash att) \<noteq> 1024 then Fail MalformedDelta
      else if \<exists>t \<in> set ts. t_old t = None \<and> t_new t = None then Fail EmptyTransition
      else if limbs (transitions_delta xof ts) = att_delta_lthash att then Ret ()
      else Fail (DeltaMismatch (b3 (concat (map to_le_bytes (att_delta_lthash att))))
                               (b3 (concat (map to_le_bytes (limbs (transitions_delta xof ts)))))))"
  by (auto simp: verify_slot_delta_eq list_ex_iff empty_transition_def N_LIMBS_def checksum_def limb_bytes_concat)

text \<open>
  An attestation built by \<open>SlotDelta::mix\<close> and \<open>Attestation::from_delta\<close> from the changes of a slot
  verifies against the same changes, in whatever order they are presented.
\<close>

theorem attestation_verifies:
  assumes "from_delta s i pk r sg (delta (sd_mix_all xof (map (\<lambda>t. (t_old t, t_new t)) ts) sd_new))
             = Ret att"
    and "mset us = mset ts"
    and "\<forall>t \<in> set ts. t_old t \<noteq> None \<or> t_new t \<noteq> None"
  shows "verify_slot_delta xof b3 att us = Ret ()"
proof -
  have "transitions_delta xof us = transitions_delta xof ts"
    using assms(2) by (simp add: transitions_delta_def sum_mset_sum_list [symmetric])
  moreover have "delta (sd_mix_all xof (map (\<lambda>t. (t_old t, t_new t)) ts) sd_new)
      = transitions_delta xof ts"
    by (simp add: delta_sd_mix_all transitions_delta_def transition_delta_def o_def)
  moreover have "set us = set ts" using assms(2) by (rule mset_eq_setD)
  ultimately show ?thesis
    using assms(3) delta_as_lthash_from_delta [OF assms(1)]
    by (auto simp: verify_Ret_iff list_ex_iff empty_transition_def)
qed

theorem attestation_verifies_witness:
  "verify_slot_delta (\<lambda>m n. replicate n 0) (\<lambda>m. [])
     \<lparr>att_slot = 42, att_fec_set_index = 0, att_leader_pubkey = [], att_fec_merkle_root = [],
      att_leader_sig = [], att_delta_lthash =
        limbs (delta (sd_mix_all (\<lambda>m n. replicate n 0)
          [(None, Some \<lparr>lamports = 5, data = [1], executable = False, owner = [], pubkey = []\<rparr>)]
          sd_new))\<rparr>
     [\<lparr>t_old = None,
       t_new = Some \<lparr>lamports = 5, data = [1], executable = False, owner = [], pubkey = []\<rparr>\<rparr>]
   = Ret ()"
  by (rule attestation_verifies [where s = 42 and i = 0 and pk = "[]" and r = "[]" and sg = "[]"
        and ts = "[\<lparr>t_old = None, t_new = Some \<lparr>lamports = 5, data = [1], executable = False,
                     owner = [], pubkey = []\<rparr>\<rparr>]"]) (simp_all add: from_delta_Ret)

text \<open>
  Tampering. If the true transitions verify, replacing the claimed new state of one of them
  verifies exactly when the replacement has the same lattice hash, so any tampering that changes
  the hash is rejected as a mismatch.
\<close>

theorem tampered_state_rejected:
  assumes "verify_slot_delta xof b3 att (ts @ \<lparr>t_old = m, t_new = Some a\<rparr> # us) = Ret ()"
  shows "verify_slot_delta xof b3 att (ts @ \<lparr>t_old = m, t_new = Some b\<rparr> # us) =
     (if hash_account xof b = hash_account xof a then Ret ()
      else Fail (DeltaMismatch
        (checksum b3 (transitions_delta xof (ts @ \<lparr>t_old = m, t_new = Some a\<rparr> # us)))
        (checksum b3 (transitions_delta xof (ts @ \<lparr>t_old = m, t_new = Some b\<rparr> # us)))))"
  by (rule verify_replaced [OF assms])

theorem tampered_state_rejected_witness:
  "verify_slot_delta (\<lambda>m n. replicate n (hd m)) (\<lambda>m. [])
     \<lparr>att_slot = 42, att_fec_set_index = 0, att_leader_pubkey = [], att_fec_merkle_root = [],
      att_leader_sig = [], att_delta_lthash =
        limbs (transitions_delta (\<lambda>m n. replicate n (hd m))
          [\<lparr>t_old = None, t_new = Some \<lparr>lamports = 5, data = [1], executable = False, owner = [],
            pubkey = []\<rparr>\<rparr>])\<rparr>
     [\<lparr>t_old = None, t_new = Some \<lparr>lamports = 6, data = [1], executable = False, owner = [],
       pubkey = []\<rparr>\<rparr>]
   \<noteq> Ret ()"
proof -
  let ?x = "\<lambda>m n. replicate n (hd m :: byte)"
  let ?a = "\<lparr>lamports = 5, data = [1], executable = False, owner = [], pubkey = []\<rparr>"
  let ?b = "\<lparr>lamports = 6, data = [1], executable = False, owner = [], pubkey = []\<rparr>"
  let ?att = "\<lparr>att_slot = 42, att_fec_set_index = 0, att_leader_pubkey = [],
    att_fec_merkle_root = [], att_leader_sig = [],
    att_delta_lthash = limbs (transitions_delta ?x [\<lparr>t_old = None, t_new = Some ?a\<rparr>])\<rparr>"
  have ok: "verify_slot_delta ?x (\<lambda>m. []) ?att ([] @ \<lparr>t_old = None, t_new = Some ?a\<rparr> # []) = Ret ()"
    by (simp add: verify_slot_delta_eq empty_transition_def)
  have hd: "hd (account_bytes ?a) = 5" "hd (account_bytes ?b) = 6"
    by (simp_all add: account_bytes_def to_le_bytes_def le_bytes_numeral)
  have "Suc 0 < N_LIMBS * 2" by (simp add: N_LIMBS_def)
  then have "limbs (hash_account ?x ?a) ! 0 \<noteq> limbs (hash_account ?x ?b) ! 0"
    by (simp add: hash_account_def BYTES_PER_HASH_def hd from_le_bytes_def)
  then have "hash_account ?x ?b \<noteq> hash_account ?x ?a" by metis
  with tampered_state_rejected [OF ok, of ?b] show ?thesis by simp
qed

text \<open>
  C35: What the verifier does not bind. Whenever a transition set verifies, so does the set with a
  no-op transition added, and so does the set with the new states of two accounts exchanged: only the
  multisets of old and new states are committed, not the pairing and not the count.
\<close>

theorem verifier_accepts_noop_and_swap:
  assumes "verify_slot_delta xof b3 att (\<lparr>t_old = Some a, t_new = Some a'\<rparr>
             # \<lparr>t_old = Some b, t_new = Some b'\<rparr> # ts) = Ret ()"
  shows "verify_slot_delta xof b3 att (\<lparr>t_old = Some c, t_new = Some c\<rparr>
           # \<lparr>t_old = Some a, t_new = Some a'\<rparr> # \<lparr>t_old = Some b, t_new = Some b'\<rparr> # ts) = Ret ()
         \<and> verify_slot_delta xof b3 att (\<lparr>t_old = Some a, t_new = Some b'\<rparr>
             # \<lparr>t_old = Some b, t_new = Some a'\<rparr> # ts) = Ret ()"
  using assms by (auto simp: verify_Ret_iff empty_transition_def transition_delta_def algebra_simps)

theorem verifier_accepts_noop_and_swap_witness:
  "verify_slot_delta (\<lambda>m n. replicate n 7) (\<lambda>m. [])
     \<lparr>att_slot = 1, att_fec_set_index = 0, att_leader_pubkey = [], att_fec_merkle_root = [],
      att_leader_sig = [], att_delta_lthash = limbs 0\<rparr>
     [\<lparr>t_old = Some \<lparr>lamports = 1, data = [], executable = False, owner = [1], pubkey = [1]\<rparr>,
       t_new = Some \<lparr>lamports = 4, data = [], executable = False, owner = [2], pubkey = [2]\<rparr>\<rparr>,
      \<lparr>t_old = Some \<lparr>lamports = 2, data = [], executable = False, owner = [2], pubkey = [2]\<rparr>,
       t_new = Some \<lparr>lamports = 3, data = [], executable = False, owner = [1], pubkey = [1]\<rparr>\<rparr>]
   = Ret ()"
  by (rule verifier_accepts_noop_and_swap [THEN conjunct2])
    (simp add: verify_slot_delta_eq empty_transition_def transition_delta_def hash_account_def
      lt_group)

end
