(* ===== verification/Shred_Wire.thy ===== *)
theory Shred_Wire
  imports Rust_Prelude
begin

text \<open>
  \<open>crates/shred/src/lib.rs\<close>: the wire format of a shred, its parser, and the Merkle and Ed25519
  verification. SHA-256 (\<open>sha2\<close>) and Ed25519 (\<open>ed25519_dalek\<close>) are parameters: \<open>sha m\<close> is the digest of
  \<open>m\<close>, \<open>ed_api\<close> holds the three calls the code makes. \<open>oc\<close> says whether overflow checks are compiled
  in.
\<close>

section \<open>Constants and errors\<close>

definition SIZE_OF_SIGNATURE :: nat where [simp]: "SIZE_OF_SIGNATURE = 64"
definition SIZE_OF_COMMON_HEADER :: nat where [simp]: "SIZE_OF_COMMON_HEADER = 83"
definition SIZE_OF_MERKLE_ROOT :: nat where [simp]: "SIZE_OF_MERKLE_ROOT = 32"
definition SIZE_OF_PROOF_ENTRY :: nat where [simp]: "SIZE_OF_PROOF_ENTRY = 20"
definition SIZE_OF_RETRANSMITTER_SIG :: nat where [simp]: "SIZE_OF_RETRANSMITTER_SIG = 64"
definition DATA_SHREDS_PER_FEC :: nat where [simp]: "DATA_SHREDS_PER_FEC = 32"
definition CODING_SHREDS_PER_FEC :: nat where [simp]: "CODING_SHREDS_PER_FEC = 32"
definition SHREDS_PER_FEC :: nat where
  [simp]: "SHREDS_PER_FEC = DATA_SHREDS_PER_FEC + CODING_SHREDS_PER_FEC"
definition PROOF_ENTRIES_FOR_32_32 :: byte where [simp]: "PROOF_ENTRIES_FOR_32_32 = 6"
definition DATA_SHRED_PAYLOAD_SIZE :: nat where [simp]: "DATA_SHRED_PAYLOAD_SIZE = 1203"
definition CODING_SHRED_PAYLOAD_SIZE :: nat where [simp]: "CODING_SHRED_PAYLOAD_SIZE = 1228"
definition DATA_SHRED_FLAGS_OFFSET :: nat where [simp]: "DATA_SHRED_FLAGS_OFFSET = 85"
definition SHRED_FLAG_DATA_COMPLETE :: byte where "SHRED_FLAG_DATA_COMPLETE = 0x40"
definition SHRED_FLAG_LAST_IN_SLOT :: byte where "SHRED_FLAG_LAST_IN_SLOT = 0x80"

definition MERKLE_HASH_PREFIX_LEAF :: bytes where
  "MERKLE_HASH_PREFIX_LEAF = 0x00 # map of_char ''SOLANA_MERKLE_SHREDS_LEAF''"
definition MERKLE_HASH_PREFIX_NODE :: bytes where
  "MERKLE_HASH_PREFIX_NODE = 0x01 # map of_char ''SOLANA_MERKLE_SHREDS_NODE''"

datatype shred_error =
    PayloadTooSmall nat
  | UnknownVariant byte
  | InvalidSignatureBytes
  | InvalidPubkeyBytes
  | MerkleRootMismatch
  | SignatureVerifyFailed
  | ProofSizeOverflow byte

section \<open>The variant byte\<close>

datatype shred_kind = Data | Code

record shred_variant =
  kind :: shred_kind
  proof_size :: byte
  chained :: bool
  resigned :: bool

definition variant_decode :: "byte \<Rightarrow> (shred_error, shred_variant) outcome" where
  "variant_decode b =
     (let ps = b AND 0x0f; hi = b AND 0xf0;
          mk = (\<lambda>k r. Ret \<lparr>kind = k, proof_size = ps, chained = True, resigned = r\<rparr>)
      in if hi = 0x60 then mk Code False
         else if hi = 0x70 then mk Code True
         else if hi = 0x90 then mk Data False
         else if hi = 0xb0 then mk Data True
         else Fail (UnknownVariant b))"

definition variant_encode :: "shred_variant \<Rightarrow> byte" where
  "variant_encode v =
     (let hi = (case (kind v, resigned v) of
                  (Code, False) \<Rightarrow> 0x60
                | (Code, True) \<Rightarrow> 0x70
                | (Data, False) \<Rightarrow> 0x90
                | (Data, True) \<Rightarrow> 0xb0)
      in hi OR (proof_size v AND 0x0f))"

section \<open>Headers and parsed shreds\<close>

record common_header =
  signature :: bytes
  variant :: shred_variant
  hdr_slot :: u64
  hdr_index :: u32
  version :: u16
  hdr_fec_set_index :: u32

record parsed_shred =
  p_raw :: bytes
  header :: common_header
  leaf_range :: "nat \<times> nat"
  proof_range :: "nat \<times> nat"
  p_chained_root :: "bytes option"
  p_erasure_shard_index :: nat
  p_data_flags :: "byte option"

record verified_shred =
  v_slot :: u64
  v_fec_set_index :: u32
  v_index :: u32
  v_erasure_shard_index :: nat
  v_merkle_root :: bytes
  v_chained_root :: "bytes option"
  v_kind :: shred_kind
  v_data_flags :: "byte option"

definition flag_set :: "byte \<Rightarrow> byte option \<Rightarrow> bool" where
  "flag_set m fl = (case fl of None \<Rightarrow> False | Some f \<Rightarrow> f AND m \<noteq> 0)"

definition parsed_is_last_in_slot :: "parsed_shred \<Rightarrow> bool" where
  "parsed_is_last_in_slot p = flag_set SHRED_FLAG_LAST_IN_SLOT (p_data_flags p)"

definition parsed_is_data_complete :: "parsed_shred \<Rightarrow> bool" where
  "parsed_is_data_complete p = flag_set SHRED_FLAG_DATA_COMPLETE (p_data_flags p)"

definition is_last_in_slot :: "verified_shred \<Rightarrow> bool" where
  "is_last_in_slot v = flag_set SHRED_FLAG_LAST_IN_SLOT (v_data_flags v)"

definition is_data_complete :: "verified_shred \<Rightarrow> bool" where
  "is_data_complete v = flag_set SHRED_FLAG_DATA_COMPLETE (v_data_flags v)"

section \<open>The parser\<close>

definition payload_size :: "shred_kind \<Rightarrow> nat" where
  "payload_size k =
     (case k of Data \<Rightarrow> DATA_SHRED_PAYLOAD_SIZE | Code \<Rightarrow> CODING_SHRED_PAYLOAD_SIZE)"

definition parse_header :: "bytes \<Rightarrow> (shred_error, common_header) outcome" where
  "parse_header raw =
     obind (rslice 0 SIZE_OF_SIGNATURE raw) (\<lambda>sig.
     obind (rindex raw 64) (\<lambda>vb.
     obind (variant_decode vb) (\<lambda>variant.
     obind (rslice 65 73 raw) (\<lambda>slot.
     obind (rslice 73 77 raw) (\<lambda>index.
     obind (rslice 77 79 raw) (\<lambda>version.
     obind (rslice 79 83 raw) (\<lambda>fec_set_index.
       Ret \<lparr>signature = sig, variant = variant, hdr_slot = from_le_bytes slot,
            hdr_index = from_le_bytes index, version = from_le_bytes version,
            hdr_fec_set_index = from_le_bytes fec_set_index\<rparr>)))))))"

definition parse_shred :: "bool \<Rightarrow> bytes \<Rightarrow> (shred_error, parsed_shred) outcome" where
  "parse_shred oc raw =
     (if length raw < SIZE_OF_COMMON_HEADER then Fail (PayloadTooSmall (length raw)) else
      obind (parse_header raw) (\<lambda>h.
      let v = variant h; expected_len = payload_size (kind v)
      in if length raw < expected_len then Fail (PayloadTooSmall (length raw)) else
      let proof_bytes = unat (proof_size v) * SIZE_OF_PROOF_ENTRY;
          resign_bytes = (if resigned v then SIZE_OF_RETRANSMITTER_SIG else 0)
      in if expected_len < proof_bytes + resign_bytes + SIZE_OF_SIGNATURE
         then Fail (ProofSizeOverflow (proof_size v)) else
      let proof_end = expected_len - resign_bytes;
          proof_start = proof_end - proof_bytes
      in
      obind (if chained v
             then obind (rslice (proof_start - SIZE_OF_MERKLE_ROOT) proof_start raw) (\<lambda>c. Ret (Some c))
             else Ret None) (\<lambda>chained_root.
      obind (case kind v of
               Data \<Rightarrow> obind (rust_sub oc (hdr_index h) (hdr_fec_set_index h)) (\<lambda>d. Ret (unat d))
             | Code \<Rightarrow> obind (rslice 87 89 raw)
                 (\<lambda>pos. Ret (DATA_SHREDS_PER_FEC + unat (from_le_bytes pos :: u16)))) (\<lambda>erasure_index.
      obind (case kind v of
               Data \<Rightarrow> obind (rindex raw DATA_SHRED_FLAGS_OFFSET) (\<lambda>f. Ret (Some f))
             | Code \<Rightarrow> Ret None) (\<lambda>flags.
        Ret \<lparr>p_raw = raw, header = h, leaf_range = (SIZE_OF_SIGNATURE, proof_start),
             proof_range = (proof_start, proof_end), p_chained_root = chained_root,
             p_erasure_shard_index = erasure_index, p_data_flags = flags\<rparr>)))))"

section \<open>Merkle path and verification\<close>

function chunks_exact :: "nat \<Rightarrow> 'a list \<Rightarrow> 'a list list" where
  "chunks_exact n xs =
     (if n = 0 \<or> length xs < n then [] else take n xs # chunks_exact n (drop n xs))"
  by pat_completeness auto
termination
  by (relation "measure (\<lambda>(n, xs). length xs)") auto

declare chunks_exact.simps [simp del]

definition merkle_leaf :: "(bytes \<Rightarrow> bytes) \<Rightarrow> parsed_shred \<Rightarrow> bytes" where
  "merkle_leaf sha p =
     sha (MERKLE_HASH_PREFIX_LEAF @ slice (fst (leaf_range p)) (snd (leaf_range p)) (p_raw p))"

text \<open>One turn of the loop over the proof entries: the message hashed, and the new state.\<close>

definition merkle_step_input :: "bytes \<Rightarrow> nat \<times> bytes \<Rightarrow> bytes" where
  "merkle_step_input entry s =
     (let (index, node) = s
      in MERKLE_HASH_PREFIX_NODE @
         (if index mod 2 = 0 then take SIZE_OF_PROOF_ENTRY node @ entry
          else entry @ take SIZE_OF_PROOF_ENTRY node))"

definition merkle_step :: "(bytes \<Rightarrow> bytes) \<Rightarrow> bytes \<Rightarrow> nat \<times> bytes \<Rightarrow> nat \<times> bytes" where
  "merkle_step sha entry s = (fst s div 2, sha (merkle_step_input entry s))"

definition compute_merkle_root ::
  "(bytes \<Rightarrow> bytes) \<Rightarrow> nat \<Rightarrow> bytes \<Rightarrow> bytes \<Rightarrow> (shred_error, bytes) outcome" where
  "compute_merkle_root sha leaf_index leaf prf =
     (if length prf mod SIZE_OF_PROOF_ENTRY \<noteq> 0 then Fail MerkleRootMismatch
      else let (index, node) =
             fold (merkle_step sha) (chunks_exact SIZE_OF_PROOF_ENTRY prf) (leaf_index, leaf)
           in if index \<noteq> 0 then Fail MerkleRootMismatch else Ret node)"

record ed_api =
  pk_ok :: "bytes \<Rightarrow> bool" \<comment> \<open>\<open>VerifyingKey::from_bytes\<close> is \<open>Ok\<close>\<close>
  sig_ok :: "bytes \<Rightarrow> bool" \<comment> \<open>\<open>Signature::from_slice\<close> is \<open>Ok\<close>\<close>
  ed_verify :: "bytes \<Rightarrow> bytes \<Rightarrow> bytes \<Rightarrow> bool" \<comment> \<open>key, message, signature\<close>

definition verify_shred ::
  "(bytes \<Rightarrow> bytes) \<Rightarrow> ed_api \<Rightarrow> bool \<Rightarrow> bytes \<Rightarrow> bytes \<Rightarrow> (shred_error, verified_shred) outcome" where
  "verify_shred sha ed oc raw leader_pubkey =
     obind (parse_shred oc raw) (\<lambda>p.
     let leaf = merkle_leaf sha p;
         prf = slice (fst (proof_range p)) (snd (proof_range p)) (p_raw p)
     in
     obind (compute_merkle_root sha (p_erasure_shard_index p) leaf prf) (\<lambda>root.
     if \<not> pk_ok ed leader_pubkey then Fail InvalidPubkeyBytes
     else if \<not> sig_ok ed (signature (header p)) then Fail InvalidSignatureBytes
     else if \<not> ed_verify ed leader_pubkey root (signature (header p)) then Fail SignatureVerifyFailed
     else Ret \<lparr>v_slot = hdr_slot (header p), v_fec_set_index = hdr_fec_set_index (header p),
               v_index = hdr_index (header p), v_erasure_shard_index = p_erasure_shard_index p,
               v_merkle_root = root, v_chained_root = p_chained_root p,
               v_kind = kind (variant (header p)), v_data_flags = p_data_flags p\<rparr>))"

section \<open>The variant byte: lemmas\<close>

definition variant_wf :: "shred_variant \<Rightarrow> bool" where
  "variant_wf v \<longleftrightarrow> chained v \<and> unat (proof_size v) < 16"

lemma nibbles: "((b :: byte) AND 0xf0) OR (b AND 0x0f) = b"
proof -
  have "((b :: byte) AND 0xf0) OR (b AND 0x0f) = b AND (0xf0 OR 0x0f)"
    by (simp only: bit.conj_disj_distrib)
  also have "(0xf0 OR 0x0f :: byte) = - 1" by simp
  finally show ?thesis by simp
qed

lemma low_nibble_id: "unat (p :: byte) < 16 \<Longrightarrow> p AND 0x0f = p"
proof -
  assume "unat p < 16"
  then have "take_bit 4 p = p"
    by (simp add: word_unat_eq_iff unsigned_take_bit_eq take_bit_nat_eq_self)
  then show ?thesis by (simp add: take_bit_eq_mask mask_eq_exp_minus_1)
qed

lemma low_nibble_less: "unat ((b :: byte) AND 0x0f) < 16"
proof -
  have "b AND 0x0f = take_bit 4 b" by (simp add: take_bit_eq_mask mask_eq_exp_minus_1)
  then show ?thesis
    using take_bit_nat_less_exp [of 4 "unat b"] by (simp add: unsigned_take_bit_eq)
qed

lemma nibble_parts:
  assumes "(p :: byte) AND 0x0f = p" and "h AND 0xf0 = h"
  shows "(h OR p) AND 0x0f = p" and "(h OR p) AND 0xf0 = h"
proof -
  have "h AND 0x0f = (h AND 0xf0) AND 0x0f" using assms by simp
  also have "\<dots> = h AND (0xf0 AND 0x0f)" by (simp only: and.assoc)
  finally have h: "h AND 0x0f = 0" by simp
  have "p AND 0xf0 = (p AND 0x0f) AND 0xf0" using assms by simp
  also have "\<dots> = p AND (0x0f AND 0xf0)" by (simp only: and.assoc)
  finally have p: "p AND 0xf0 = 0" by simp
  show "(h OR p) AND 0x0f = p" using assms h by (simp add: bit.conj_disj_distrib2)
  show "(h OR p) AND 0xf0 = h" using assms p by (simp add: bit.conj_disj_distrib2)
qed

lemma variant_decode_wf: "variant_decode b = Ret v \<Longrightarrow> variant_wf v"
  using low_nibble_less [of b]
  by (auto simp: variant_decode_def variant_wf_def Let_def split: if_splits)

lemma variant_decode_not_Panic [simp]: "variant_decode b \<noteq> Panic"
  by (auto simp: variant_decode_def Let_def)

lemma variant_encode_decode: "variant_decode b = Ret v \<Longrightarrow> variant_encode v = b"
proof -
  assume d: "variant_decode b = Ret v"
  then have "variant_encode v = (b AND 0xf0) OR (b AND 0x0f)"
    by (auto simp: variant_decode_def variant_encode_def Let_def and.assoc split: if_splits)
  then show ?thesis by (simp add: nibbles)
qed

lemma variant_decode_encode: "variant_wf v \<Longrightarrow> variant_decode (variant_encode v) = Ret v"
  by (cases v; cases "kind v"; cases "resigned v")
    (simp_all add: variant_wf_def variant_encode_def variant_decode_def Let_def low_nibble_id
      nibble_parts)

lemma variant_decode_Fail_iff:
  "(\<exists>e. variant_decode b = Fail e) \<longleftrightarrow> (b AND 0xf0) \<notin> {0x60, 0x70, 0x90, 0xb0}"
  by (auto simp: variant_decode_def Let_def)

section \<open>The parser: closed form\<close>

definition header_of :: "bytes \<Rightarrow> shred_variant \<Rightarrow> common_header" where
  "header_of raw v =
     \<lparr>signature = slice 0 64 raw, variant = v, hdr_slot = from_le_bytes (slice 65 73 raw),
      hdr_index = from_le_bytes (slice 73 77 raw), version = from_le_bytes (slice 77 79 raw),
      hdr_fec_set_index = from_le_bytes (slice 79 83 raw)\<rparr>"

definition proof_end_of :: "shred_variant \<Rightarrow> nat" where
  "proof_end_of v = payload_size (kind v) - (if resigned v then 64 else 0)"

definition proof_start_of :: "shred_variant \<Rightarrow> nat" where
  "proof_start_of v = proof_end_of v - unat (proof_size v) * 20"

definition erasure_index_of :: "bytes \<Rightarrow> shred_variant \<Rightarrow> nat" where
  "erasure_index_of raw v =
     (case kind v of
        Data \<Rightarrow> unat (from_le_bytes (slice 73 77 raw) - from_le_bytes (slice 79 83 raw) :: u32)
      | Code \<Rightarrow> 32 + unat (from_le_bytes (slice 87 89 raw) :: u16))"

definition parse_result :: "bytes \<Rightarrow> shred_variant \<Rightarrow> parsed_shred" where
  "parse_result raw v =
     \<lparr>p_raw = raw, header = header_of raw v, leaf_range = (64, proof_start_of v),
      proof_range = (proof_start_of v, proof_end_of v),
      p_chained_root = Some (slice (proof_start_of v - 32) (proof_start_of v) raw),
      p_erasure_shard_index = erasure_index_of raw v,
      p_data_flags = (case kind v of Data \<Rightarrow> Some (raw ! 85) | Code \<Rightarrow> None)\<rparr>"

definition index_underflow :: "bytes \<Rightarrow> bool" where
  "index_underflow raw \<longleftrightarrow>
     (from_le_bytes (slice 73 77 raw) :: u32) < from_le_bytes (slice 79 83 raw)"

lemma payload_size_simps [simp]: "payload_size Data = 1203" "payload_size Code = 1228"
  by (simp_all add: payload_size_def)

lemma payload_size_bounds: "1203 \<le> payload_size k" "payload_size k \<le> 1228"
  by (cases k; simp)+

lemma proof_start_bounds:
  assumes "variant_wf v"
  shows "839 \<le> proof_start_of v" and "proof_start_of v \<le> proof_end_of v"
    and "proof_end_of v \<le> payload_size (kind v)"
    and "proof_end_of v - proof_start_of v = unat (proof_size v) * 20"
proof -
  have "unat (proof_size v) * 20 \<le> 300" using assms by (simp add: variant_wf_def)
  moreover note payload_size_bounds(1) [of "kind v"]
  ultimately show "839 \<le> proof_start_of v" "proof_start_of v \<le> proof_end_of v"
    "proof_end_of v \<le> payload_size (kind v)"
    "proof_end_of v - proof_start_of v = unat (proof_size v) * 20"
    by (auto simp: proof_start_of_def proof_end_of_def)
qed

lemma parse_header_eq:
  assumes "83 \<le> length raw"
  shows "parse_header raw = obind (variant_decode (raw ! 64)) (\<lambda>v. Ret (header_of raw v))"
  using assms by (simp add: parse_header_def header_of_def outcome_simps)

lemma parse_shred_eq:
  "parse_shred oc raw =
     (if length raw < 83 then Fail (PayloadTooSmall (length raw))
      else obind (variant_decode (raw ! 64)) (\<lambda>v.
        if length raw < payload_size (kind v) then Fail (PayloadTooSmall (length raw))
        else if oc \<and> kind v = Data \<and> index_underflow raw then Panic
        else Ret (parse_result raw v)))"
proof (cases "length raw < 83")
  case True
  then show ?thesis by (simp add: parse_shred_def)
next
  case False
  show ?thesis
  proof (cases "variant_decode (raw ! 64)")
    case (Ret v)
    then have wf: "variant_wf v" by (rule variant_decode_wf)
    then have ch: "chained v" and ps: "unat (proof_size v) * 20 \<le> 300"
      by (simp_all add: variant_wf_def)
    note b = payload_size_bounds [of "kind v"] proof_start_bounds [OF wf]
    show ?thesis
    proof (cases "kind v")
      case Data
      with False Ret ch ps b show ?thesis
        by (simp add: parse_shred_def parse_header_eq Let_def header_of_def parse_result_def
            rust_sub_def erasure_index_of_def index_underflow_def proof_start_of_def
            proof_end_of_def outcome_simps)
    next
      case Code
      with False Ret ch ps b show ?thesis
        by (simp add: parse_shred_def parse_header_eq Let_def header_of_def parse_result_def
            erasure_index_of_def proof_start_of_def proof_end_of_def outcome_simps)
    qed
  qed (use False in \<open>simp_all add: parse_shred_def parse_header_eq\<close>)
qed

lemma parse_shred_Ret_iff:
  "parse_shred oc raw = Ret p \<longleftrightarrow>
     83 \<le> length raw \<and>
     (\<exists>v. variant_decode (raw ! 64) = Ret v \<and> payload_size (kind v) \<le> length raw
        \<and> \<not> (oc \<and> kind v = Data \<and> index_underflow raw) \<and> p = parse_result raw v)"
  by (auto simp: parse_shred_eq obind_eq_Ret not_less)

lemma parse_shred_RetE:
  assumes "parse_shred oc raw = Ret p"
  obtains v where "variant_decode (raw ! 64) = Ret v" "variant_wf v"
    "payload_size (kind v) \<le> length raw" "p = parse_result raw v"
  using assms variant_decode_wf by (auto simp: parse_shred_Ret_iff)

lemma parse_result_simps [simp]:
  "p_raw (parse_result raw v) = raw"
  "header (parse_result raw v) = header_of raw v"
  "leaf_range (parse_result raw v) = (64, proof_start_of v)"
  "proof_range (parse_result raw v) = (proof_start_of v, proof_end_of v)"
  "p_erasure_shard_index (parse_result raw v) = erasure_index_of raw v"
  by (simp_all add: parse_result_def)

lemma header_of_simps [simp]:
  "variant (header_of raw v) = v" "signature (header_of raw v) = slice 0 64 raw"
  by (simp_all add: header_of_def)

section \<open>Trailing bytes\<close>

text \<open>What follows the expected size of a shred has no influence.\<close>

lemma slice_append: "j \<le> length xs \<Longrightarrow> slice i j (xs @ ys) = slice i j xs"
  by (simp add: slice_def)

lemma parse_result_trailing:
  assumes "variant_wf v" and "1228 \<le> length raw"
  shows "parse_result (raw @ extra) v = (parse_result raw v)\<lparr>p_raw := raw @ extra\<rparr>"
proof -
  have "proof_start_of v \<le> length raw"
    using assms(2) proof_start_bounds [OF assms(1)] payload_size_bounds(2) [of "kind v"] by linarith
  moreover have "(raw @ extra) ! 85 = raw ! 85" using assms(2) by (simp add: nth_append)
  ultimately show ?thesis
    using assms(2)
    by (simp add: parse_result_def header_of_def erasure_index_of_def slice_append split: shred_kind.split)
qed

lemma parse_trailing:
  assumes "1228 \<le> length raw"
  shows "parse_shred oc (raw @ extra) = obind (parse_shred oc raw) (\<lambda>p. Ret (p\<lparr>p_raw := raw @ extra\<rparr>))"
proof -
  have v: "(raw @ extra) ! 64 = raw ! 64" using assms by (simp add: nth_append)
  have u: "index_underflow (raw @ extra) = index_underflow raw"
    using assms by (simp add: index_underflow_def slice_append)
  show ?thesis
  proof (cases "variant_decode (raw ! 64)")
    case (Ret w)
    have "payload_size (kind w) \<le> length raw" using assms payload_size_bounds(2) [of "kind w"] by linarith
    with Ret assms v u parse_result_trailing [OF variant_decode_wf [OF Ret] assms, of extra]
    show ?thesis by (simp add: parse_shred_eq)
  qed (use assms v in \<open>simp_all add: parse_shred_eq\<close>)
qed

lemma verify_trailing:
  assumes "1228 \<le> length raw"
  shows "verify_shred sha ed oc (raw @ extra) pk = verify_shred sha ed oc raw pk"
proof (cases "parse_shred oc raw")
  case (Ret p)
  then obtain w where p: "p = parse_result raw w" and wf: "variant_wf w" by (elim parse_shred_RetE) blast
  have "proof_start_of w \<le> length raw" "proof_end_of w \<le> length raw"
    using assms proof_start_bounds [OF wf] payload_size_bounds(2) [of "kind w"] by linarith+
  then have "merkle_leaf sha (p\<lparr>p_raw := raw @ extra\<rparr>) = merkle_leaf sha p"
    "slice (fst (proof_range p)) (snd (proof_range p)) (raw @ extra)
       = slice (fst (proof_range p)) (snd (proof_range p)) (p_raw p)"
    by (simp_all add: merkle_leaf_def p slice_append)
  with Ret parse_trailing [OF assms, of oc extra] show ?thesis
    by (cases "compute_merkle_root sha (p_erasure_shard_index p) (merkle_leaf sha p)
         (slice (fst (proof_range p)) (snd (proof_range p)) (p_raw p))")
      (simp_all add: verify_shred_def)
qed (use parse_trailing [OF assms, of oc extra] in \<open>simp_all add: verify_shred_def\<close>)

section \<open>Verification: lemmas\<close>

lemma chunks_exact_append [simp]:
  "0 < n \<Longrightarrow> length xs = n \<Longrightarrow> chunks_exact n (xs @ ys) = xs # chunks_exact n ys"
  by (subst chunks_exact.simps) auto

lemma chunks_exact_Nil [simp]: "chunks_exact n [] = []"
  by (subst chunks_exact.simps) auto

lemma chunks_exact_lengths: "c \<in> set (chunks_exact n xs) \<Longrightarrow> length c = n"
proof (induction n xs rule: chunks_exact.induct)
  case (1 n xs)
  then show ?case
    by (cases "n = 0 \<or> length xs < n") (auto simp: chunks_exact.simps [of n xs])
qed

lemma concat_chunks_exact: "0 < n \<Longrightarrow> n dvd length xs \<Longrightarrow> concat (chunks_exact n xs) = xs"
proof (induction n xs rule: chunks_exact.induct)
  case (1 n xs)
  show ?case
  proof (cases "length xs < n")
    case True
    with "1.prems" have "xs = []" by (auto dest: dvd_imp_le)
    then show ?thesis by simp
  next
    case False
    with "1.prems" have "n dvd length (drop n xs)" by (simp add: dvd_diff_nat)
    with False "1.IH" "1.prems" show ?thesis by (simp add: chunks_exact.simps [of n xs])
  qed
qed

lemma length_chunks_exact: "0 < n \<Longrightarrow> length (chunks_exact n xs) = length xs div n"
proof (induction n xs rule: chunks_exact.induct)
  case (1 n xs)
  then show ?case
    by (cases "length xs < n") (auto simp: chunks_exact.simps [of n xs] le_div_geq)
qed

definition leaf_input :: "parsed_shred \<Rightarrow> bytes" where
  "leaf_input p = MERKLE_HASH_PREFIX_LEAF @ slice (fst (leaf_range p)) (snd (leaf_range p)) (p_raw p)"

definition proof_bytes_of :: "parsed_shred \<Rightarrow> bytes" where
  "proof_bytes_of p = slice (fst (proof_range p)) (snd (proof_range p)) (p_raw p)"

text \<open>The messages hashed on the way from a node to the root.\<close>

fun path_inputs :: "(bytes \<Rightarrow> bytes) \<Rightarrow> bytes list \<Rightarrow> nat \<times> bytes \<Rightarrow> bytes list" where
  "path_inputs sha [] s = []"
| "path_inputs sha (c # cs) s = merkle_step_input c s # path_inputs sha cs (merkle_step sha c s)"

definition hashed_messages :: "(bytes \<Rightarrow> bytes) \<Rightarrow> parsed_shred \<Rightarrow> bytes list" where
  "hashed_messages sha p =
     leaf_input p # path_inputs sha (chunks_exact 20 (proof_bytes_of p))
       (p_erasure_shard_index p, merkle_leaf sha p)"

definition verified_of :: "parsed_shred \<Rightarrow> bytes \<Rightarrow> verified_shred" where
  "verified_of p root =
     \<lparr>v_slot = hdr_slot (header p), v_fec_set_index = hdr_fec_set_index (header p),
      v_index = hdr_index (header p), v_erasure_shard_index = p_erasure_shard_index p,
      v_merkle_root = root, v_chained_root = p_chained_root p,
      v_kind = kind (variant (header p)), v_data_flags = p_data_flags p\<rparr>"

definition sha_ok :: "(bytes \<Rightarrow> bytes) \<Rightarrow> bool" where
  "sha_ok sha \<longleftrightarrow> (\<forall>m. length (sha m) = 32)"

lemma compute_merkle_root_Ret_iff:
  "compute_merkle_root sha i leaf prf = Ret r \<longleftrightarrow>
     20 dvd length prf \<and> fold (merkle_step sha) (chunks_exact 20 prf) (i, leaf) = (0, r)"
  by (auto simp: compute_merkle_root_def dvd_eq_mod_eq_0 split: prod.splits)

lemma compute_merkle_root_not_Panic [simp]: "compute_merkle_root sha i leaf prf \<noteq> Panic"
  by (simp add: compute_merkle_root_def split: prod.splits)

lemma verify_shred_Ret_iff:
  "verify_shred sha ed oc raw pk = Ret w \<longleftrightarrow>
     (\<exists>p root. parse_shred oc raw = Ret p
        \<and> compute_merkle_root sha (p_erasure_shard_index p) (sha (leaf_input p)) (proof_bytes_of p)
            = Ret root
        \<and> pk_ok ed pk \<and> sig_ok ed (signature (header p))
        \<and> ed_verify ed pk root (signature (header p)) \<and> w = verified_of p root)"
  by (auto simp: verify_shred_def obind_eq_Ret Let_def leaf_input_def proof_bytes_of_def
      merkle_leaf_def verified_of_def)

lemma verify_shred_parsed:
  "verify_shred sha ed oc raw pk = Ret w \<Longrightarrow> parse_shred oc raw = Ret p \<Longrightarrow>
     w = verified_of p (v_merkle_root w)"
  by (auto simp: verify_shred_Ret_iff verified_of_def)

lemma verified_signature:
  assumes "verify_shred sha ed oc raw pk = Ret w" and "parse_shred oc raw = Ret p"
  shows "compute_merkle_root sha (p_erasure_shard_index p) (sha (leaf_input p)) (proof_bytes_of p) = Ret (v_merkle_root w)"
    and "ed_verify ed pk (v_merkle_root w) (signature (header p))"
  using assms by (auto simp: verify_shred_Ret_iff verified_of_def)

lemma step_index: "fst (fold (merkle_step sha) cs (i, n)) = i div 2 ^ length cs"
proof (induction cs arbitrary: i n)
  case (Cons c cs)
  then show ?case by (simp add: merkle_step_def div_mult2_eq)
qed simp

lemma merkle_step_simps [simp]:
  "fst (merkle_step sha c s) = fst s div 2"
  "snd (merkle_step sha c s) = sha (merkle_step_input c s)"
  by (simp_all add: merkle_step_def)

lemma merkle_step_input_inj:
  assumes "merkle_step_input c (i, n) = merkle_step_input c' (i, n')"
    and "length c = 20" "length c' = 20" "20 \<le> length n" "20 \<le> length n'"
  shows "c = c' \<and> take 20 n = take 20 n'"
  using assms by (auto simp: merkle_step_input_def append_eq_append_conv split: if_splits)

lemma paths_bind:
  assumes "length cs = length cs'" and "\<forall>c \<in> set cs \<union> set cs'. length c = 20"
    and "20 \<le> length n" "20 \<le> length n'" and "sha_ok sha"
    and "take 20 (snd (fold (merkle_step sha) cs (i, n)))
       = take 20 (snd (fold (merkle_step sha) cs' (i, n')))"
  shows "take 20 n = take 20 n' \<or>
     (\<exists>x \<in> set (path_inputs sha cs (i, n)). \<exists>y \<in> set (path_inputs sha cs' (i, n')).
        x \<noteq> y \<and> take 20 (sha x) = take 20 (sha y))"
  using assms
proof (induction cs cs' arbitrary: i n n' rule: list_induct2)
  case (Cons c cs c' cs')
  let ?x = "merkle_step_input c (i, n)" and ?y = "merkle_step_input c' (i, n')"
  have st: "merkle_step sha c (i, n) = (i div 2, sha ?x)"
    "merkle_step sha c' (i, n') = (i div 2, sha ?y)"
    by (simp_all add: merkle_step_def)
  have "take 20 (sha ?x) = take 20 (sha ?y) \<or>
     (\<exists>x \<in> set (path_inputs sha cs (i div 2, sha ?x)).
      \<exists>y \<in> set (path_inputs sha cs' (i div 2, sha ?y)).
        x \<noteq> y \<and> take 20 (sha x) = take 20 (sha y))"
    using Cons.prems by (intro Cons.IH) (auto simp: st sha_ok_def)
  then show ?case
  proof
    assume eq: "take 20 (sha ?x) = take 20 (sha ?y)"
    show ?thesis
    proof (cases "?x = ?y")
      case True
      with Cons.prems merkle_step_input_inj [of c i n c' n'] show ?thesis by auto
    next
      case False
      with eq show ?thesis by auto
    qed
  qed (auto simp: st)
qed simp

lemma parse_result_lengths:
  assumes "parse_shred oc raw = Ret p"
  shows "length (proof_bytes_of p) = 20 * unat (proof_size (variant (header p)))"
  using assms
proof (cases rule: parse_shred_RetE)
  case (1 v)
  then have "proof_end_of v \<le> length raw" and "proof_start_of v \<le> proof_end_of v"
    and "proof_end_of v - proof_start_of v = 20 * unat (proof_size v)"
    using proof_start_bounds [of v] by auto
  with 1 show ?thesis by (simp add: proof_bytes_of_def)
qed

section \<open>A sample datagram\<close>

text \<open>
  A data shred with an empty Merkle proof (variant \<open>0x90\<close>) and all other bytes zero: the smallest
  buffer that parses. It instantiates the hypotheses of the properties below.
\<close>

definition sample_raw :: bytes where
  "sample_raw = replicate 64 0 @ 0x90 # replicate 1138 0"

definition sample_variant :: shred_variant where
  "sample_variant = \<lparr>kind = Data, proof_size = 0, chained = True, resigned = False\<rparr>"

definition accept_all :: ed_api where
  "accept_all = \<lparr>pk_ok = (\<lambda>_. True), sig_ok = (\<lambda>_. True), ed_verify = (\<lambda>_ _ _. True)\<rparr>"

definition zero_sha :: "bytes \<Rightarrow> bytes" where
  "zero_sha m = replicate 32 0"

lemma zero_sha_ok [simp]: "sha_ok zero_sha"
  by (simp add: sha_ok_def zero_sha_def)

lemma sample_decode: "variant_decode (sample_raw ! 64) = Ret sample_variant"
  by (simp add: sample_raw_def sample_variant_def nth_append variant_decode_def)

lemma sample_slices:
  "slice 73 77 sample_raw = replicate 4 0" "slice 79 83 sample_raw = replicate 4 0"
  by (simp_all add: sample_raw_def slice_def)

lemma sample_parse: "parse_shred oc (sample_raw @ ys) = Ret (parse_result (sample_raw @ ys) sample_variant)"
  using sample_decode
  by (auto simp: parse_shred_Ret_iff index_underflow_def sample_raw_def sample_variant_def
      slice_def nth_append)

lemma sample_verify:
  "verify_shred zero_sha accept_all oc sample_raw pk
     = Ret (verified_of (parse_result sample_raw sample_variant) (replicate 32 0))"
proof -
  let ?p = "parse_result sample_raw sample_variant"
  have "parse_shred oc sample_raw = Ret ?p" using sample_parse [of oc "[]"] by simp
  moreover have "erasure_index_of sample_raw sample_variant = 0"
    by (simp add: erasure_index_of_def sample_variant_def sample_slices)
  moreover have "proof_bytes_of ?p = []"
    by (simp add: proof_bytes_of_def proof_start_of_def sample_variant_def slice_def)
  ultimately show ?thesis
    by (simp add: verify_shred_Ret_iff compute_merkle_root_Ret_iff accept_all_def zero_sha_def)
qed

section \<open>Properties\<close>

text \<open>
  The variant byte round-trips. A byte decodes to a variant exactly when it is the encoding of
  that variant and the variant is chained with a 4-bit proof size, so decoding is the inverse of
  encoding in both directions.
\<close>

theorem variant_roundtrip:
  "variant_decode b = Ret v \<longleftrightarrow>
     chained v \<and> unat (proof_size v) < 16 \<and> variant_encode v = b"
  using variant_decode_wf variant_encode_decode variant_decode_encode
  by (auto simp: variant_wf_def)

lemma forged_index_panics:
  assumes "1203 \<le> length raw" and "(raw ! 64) AND 0xf0 \<in> {0x90, 0xb0}"
    and "(from_le_bytes (slice 73 77 raw) :: u32) < from_le_bytes (slice 79 83 raw)"
  shows "parse_shred True raw = Panic"
proof -
  have "\<exists>v. variant_decode (raw ! 64) = Ret v \<and> kind v = Data"
    using assms(2) by (auto simp: variant_decode_def Let_def)
  then show ?thesis using assms(1,3) by (auto simp: parse_shred_eq index_underflow_def)
qed

text \<open>
  C33: The parser panics on attacker-controlled bytes. With overflow checks compiled in, a datagram
  of at least 1203 bytes whose variant byte announces a data shred and whose \<open>index\<close> field is below its
  \<open>fec_set_index\<close> field panics, before any signature is looked at, and nothing else does; without
  overflow checks the parser never panics.
\<close>

theorem parse_shred_panics_iff:
  "parse_shred oc raw = Panic \<longleftrightarrow>
     oc \<and> 1203 \<le> length raw \<and> (raw ! 64) AND 0xf0 \<in> {0x90, 0xb0}
     \<and> (from_le_bytes (slice 73 77 raw) :: u32) < from_le_bytes (slice 79 83 raw)"
proof -
  have "(\<exists>v. variant_decode b = Ret v \<and> kind v = Data) \<longleftrightarrow> b AND 0xf0 \<in> {0x90, 0xb0}" for b
    by (auto simp: variant_decode_def Let_def)
  note data_byte = this
  have "parse_shred oc raw = Panic \<longleftrightarrow> oc \<and> 1203 \<le> length raw \<and> index_underflow raw
      \<and> (\<exists>v. variant_decode (raw ! 64) = Ret v \<and> kind v = Data)"
    by (auto simp: parse_shred_eq obind_eq_Panic not_less split: if_splits)
  then show ?thesis by (simp only: data_byte index_underflow_def) auto
qed

text \<open>
  C38: A parsed shred is in bounds. Whatever the bytes, a successful parse gives a leaf range that
  starts after the signature and holds at least 775 bytes (so the two headers and the chained root
  are covered), followed by a proof of exactly \<open>20 * proof_size\<close> bytes inside the buffer; the chained
  root is the last 32 bytes of the leaf range; and \<open>ProofSizeOverflow\<close> is never returned.
\<close>

theorem parse_shred_bounds:
  "(case parse_shred oc raw of
      Ret p \<Rightarrow> fst (leaf_range p) = 64 \<and> 839 \<le> snd (leaf_range p)
        \<and> fst (proof_range p) = snd (leaf_range p)
        \<and> snd (proof_range p) = fst (proof_range p) + 20 * unat (proof_size (variant (header p)))
        \<and> snd (proof_range p) \<le> length raw
        \<and> p_chained_root p = Some (slice (snd (leaf_range p) - 32) (snd (leaf_range p)) raw)
        \<and> p_erasure_shard_index p < 2 ^ 32
    | Fail e \<Rightarrow> e = PayloadTooSmall (length raw) \<or> e = UnknownVariant (raw ! 64)
    | Panic \<Rightarrow> oc)"
proof (cases "parse_shred oc raw")
  case (Ret p)
  then show ?thesis
  proof (cases rule: parse_shred_RetE)
    case (1 v)
    have "erasure_index_of raw v < 2 ^ 32"
    proof (cases "kind v")
      case Code
      have "unat (from_le_bytes (slice 87 89 raw) :: u16) < 2 ^ 16"
        using unsigned_less [of "from_le_bytes (slice 87 89 raw) :: u16"] by simp
      with Code show ?thesis by (simp add: erasure_index_of_def)
    next
      case Data
      with unsigned_less show ?thesis
        by (simp add: erasure_index_of_def del: unsigned_less)
          (use unsigned_less [where 'b = 32 and 'a = nat] in fastforce)
    qed
    with Ret 1 proof_start_bounds [of v] show ?thesis by (simp add: parse_result_def)
  qed
next
  case (Fail e)
  then show ?thesis
    by (auto simp: parse_shred_eq variant_decode_def Let_def split: if_splits)
next
  case Panic
  then show ?thesis by (auto simp: parse_shred_eq obind_eq_Panic split: if_splits)
qed

text \<open>
  C7: What an accepted shred guarantees. The leader's key accepts the shred's signature over the
  reported root, the root is the one recomputed from the shred's own bytes at its own position by
  its \<open>proof_size\<close> Merkle steps, and the position fits in a tree of that depth.
\<close>

theorem verify_shred_sound:
  assumes "verify_shred sha ed oc raw pk = Ret w"
  shows "\<exists>p. parse_shred oc raw = Ret p
     \<and> pk_ok ed pk \<and> ed_verify ed pk (v_merkle_root w) (slice 0 64 raw)
     \<and> compute_merkle_root sha (v_erasure_shard_index w) (merkle_leaf sha p) (proof_bytes_of p)
         = Ret (v_merkle_root w)
     \<and> v_erasure_shard_index w < 2 ^ unat (proof_size (variant (header p)))
     \<and> v_slot w = from_le_bytes (slice 65 73 raw)
     \<and> v_fec_set_index w = from_le_bytes (slice 79 83 raw)"
proof -
  from assms obtain p root where p: "parse_shred oc raw = Ret p"
    and c: "compute_merkle_root sha (p_erasure_shard_index p) (sha (leaf_input p)) (proof_bytes_of p)
      = Ret root"
    and s: "pk_ok ed pk" "ed_verify ed pk root (signature (header p))" "w = verified_of p root"
    by (auto simp: verify_shred_Ret_iff)
  let ?ps = "unat (proof_size (variant (header p)))"
  have "length (chunks_exact 20 (proof_bytes_of p)) = ?ps"
    using parse_result_lengths [OF p] by (simp add: length_chunks_exact)
  with c step_index [of sha "chunks_exact 20 (proof_bytes_of p)"] have
    "p_erasure_shard_index p div 2 ^ ?ps = 0"
    by (metis compute_merkle_root_Ret_iff fst_conv)
  then have "p_erasure_shard_index p < 2 ^ ?ps" by (simp add: div_eq_0_iff)
  moreover have "signature (header p) = slice 0 64 raw"
    and "hdr_slot (header p) = from_le_bytes (slice 65 73 raw)"
    and "hdr_fec_set_index (header p) = from_le_bytes (slice 79 83 raw)"
    using p by (auto elim!: parse_shred_RetE simp: header_of_def)
  ultimately show ?thesis
    using p c s by (intro exI [of _ p]) (simp add: verified_of_def merkle_leaf_def leaf_input_def)
qed

theorem verify_shred_sound_witness:
  "v_slot (verified_of (parse_result sample_raw sample_variant) (replicate 32 0))
     = from_le_bytes (slice 65 73 sample_raw)"
  using verify_shred_sound [OF sample_verify, of True "[]"] by blast

text \<open>
  C12: Binding. Two accepted shreds that report the same Merkle root and the same position, and whose
  variant bytes announce Merkle proofs of the same length, carry the same signed bytes, or the messages hashed while verifying
  them contain two that collide under SHA-256 truncated to 20 bytes.
\<close>

theorem verified_position_binds:
  assumes "verify_shred sha ed oc raw1 pk1 = Ret w1" and "verify_shred sha ed' oc raw2 pk2 = Ret w2"
    and "parse_shred oc raw1 = Ret p1" and "parse_shred oc raw2 = Ret p2"
    and "v_merkle_root w1 = v_merkle_root w2"
    and "v_erasure_shard_index w1 = v_erasure_shard_index w2"
    and "proof_size (variant (header p1)) = proof_size (variant (header p2))"
    and "sha_ok sha"
  shows "leaf_input p1 = leaf_input p2 \<or>
     (\<exists>x \<in> set (hashed_messages sha p1). \<exists>y \<in> set (hashed_messages sha p2).
        x \<noteq> y \<and> take 20 (sha x) = take 20 (sha y))"
proof -
  let ?cs = "\<lambda>p. chunks_exact 20 (proof_bytes_of p)"
  from assms(1-4) obtain r1 r2 where
    c: "fold (merkle_step sha) (?cs p1) (p_erasure_shard_index p1, sha (leaf_input p1)) = (0, r1)"
      "fold (merkle_step sha) (?cs p2) (p_erasure_shard_index p2, sha (leaf_input p2)) = (0, r2)"
    and w: "w1 = verified_of p1 r1" "w2 = verified_of p2 r2"
    by (auto simp: verify_shred_Ret_iff compute_merkle_root_Ret_iff)
  have i: "p_erasure_shard_index p1 = p_erasure_shard_index p2" and r: "r1 = r2"
    using assms(5,6) w by (simp_all add: verified_of_def)
  have l: "length (sha m) = 32" for m using assms(8) by (simp add: sha_ok_def)
  have len: "length (?cs p1) = length (?cs p2)"
    using parse_result_lengths [OF assms(3)] parse_result_lengths [OF assms(4)] assms(7)
    by (simp add: length_chunks_exact)
  have "take 20 (sha (leaf_input p1)) = take 20 (sha (leaf_input p2)) \<or>
     (\<exists>x \<in> set (path_inputs sha (?cs p1) (p_erasure_shard_index p2, sha (leaf_input p1))).
      \<exists>y \<in> set (path_inputs sha (?cs p2) (p_erasure_shard_index p2, sha (leaf_input p2))).
        x \<noteq> y \<and> take 20 (sha x) = take 20 (sha y))"
    by (rule paths_bind [OF len])
      (use c i r assms(8) in \<open>auto simp: l dest: chunks_exact_lengths\<close>)
  then show ?thesis
    by (auto simp: hashed_messages_def merkle_leaf_def leaf_input_def [symmetric] i)
qed

text \<open>The sample packet with another slot number, under the hash function that sends everything to zeros.\<close>

definition other_raw :: bytes where
  "other_raw = replicate 64 0 @ [0x90, 1] @ replicate 1137 0"

lemma other_slices: "slice 73 77 other_raw = replicate 4 0" "slice 79 83 other_raw = replicate 4 0"
  by (simp_all add: other_raw_def slice_def)

lemma other_parse: "parse_shred oc other_raw = Ret (parse_result other_raw sample_variant)"
proof -
  have "variant_decode (other_raw ! 64) = Ret sample_variant"
    by (simp add: other_raw_def sample_variant_def nth_append variant_decode_def)
  then show ?thesis
    by (auto simp: parse_shred_Ret_iff index_underflow_def sample_variant_def other_slices other_raw_def slice_def)
qed

lemma other_verify:
  "verify_shred zero_sha accept_all oc other_raw pk
     = Ret (verified_of (parse_result other_raw sample_variant) (replicate 32 0))"
proof -
  let ?p = "parse_result other_raw sample_variant"
  have "erasure_index_of other_raw sample_variant = 0"
    by (simp add: erasure_index_of_def sample_variant_def other_slices)
  moreover have "proof_bytes_of ?p = []"
    by (simp add: proof_bytes_of_def proof_start_of_def sample_variant_def slice_def)
  ultimately show ?thesis
    by (simp add: verify_shred_Ret_iff compute_merkle_root_Ret_iff accept_all_def zero_sha_def other_parse)
qed

theorem verified_position_binds_witness:
  "\<exists>x \<in> set (hashed_messages zero_sha (parse_result sample_raw sample_variant)).
   \<exists>y \<in> set (hashed_messages zero_sha (parse_result other_raw sample_variant)).
     x \<noteq> y \<and> take 20 (zero_sha x) = take 20 (zero_sha y)"
proof -
  let ?p = "parse_result sample_raw sample_variant" and ?q = "parse_result other_raw sample_variant"
  have "leaf_input ?p = leaf_input ?q \<or>
     (\<exists>x \<in> set (hashed_messages zero_sha ?p). \<exists>y \<in> set (hashed_messages zero_sha ?q).
        x \<noteq> y \<and> take 20 (zero_sha x) = take 20 (zero_sha y))"
    by (rule verified_position_binds [OF sample_verify [of True "[]"] other_verify [of True "[]"]])
      (use sample_parse [of True "[]"] other_parse [of True] in
        \<open>simp_all add: verified_of_def erasure_index_of_def sample_slices other_slices sample_variant_def [THEN arg_cong, of kind]\<close>)
  moreover have "slice 64 (proof_start_of sample_variant) sample_raw ! 1 \<noteq> slice 64 (proof_start_of sample_variant) other_raw ! 1"
    by (simp add: proof_start_of_def proof_end_of_def sample_variant_def slice_def sample_raw_def other_raw_def nth_append)
  then have "leaf_input ?p \<noteq> leaf_input ?q" by (auto simp: leaf_input_def)
  ultimately show ?thesis by blast
qed

end
