(* ===== verification/Merkle_Tree.thy ===== *)
theory Merkle_Tree
  imports Shred_Wire
begin

text \<open>
  The Merkle tree of \<open>crates/shred/src/fec_set.rs\<close>: \<open>build_tree\<close> and \<open>merkle_proof\<close>. The step from one
  level to the next, which the listener's \<open>aggregate_root\<close> repeats, is stated as the interface
  \<open>merkle_ladder\<close>; its lemmas are proved once for any pairing function.
\<close>

section \<open>Ladders of levels\<close>

locale merkle_ladder =
  fixes up :: "'d list \<Rightarrow> 'd list"
    and node :: "'d \<Rightarrow> 'd \<Rightarrow> 'd"
  assumes length_up: "length (up xs) = (length xs + 1) div 2"
    and up_nth: "i < length (up xs) \<Longrightarrow>
      up xs ! i = node (xs ! (2 * i)) (if 2 * i + 1 < length xs then xs ! (2 * i + 1) else xs ! (2 * i))"
begin

lemma up_shorter: "1 < length xs \<Longrightarrow> length (up xs) < length xs"
  by (simp add: length_up)

lemma up_nonempty: "xs \<noteq> [] \<Longrightarrow> up xs \<noteq> []"
  using length_up [of xs] by (cases xs) auto

lemma parent_in_range: "i < length xs \<Longrightarrow> i div 2 < length (up xs)"
  by (simp add: length_up)

lemma up_parent_even:
  assumes "i < length xs" and "even i"
  shows "up xs ! (i div 2) = node (xs ! i) (if i + 1 < length xs then xs ! (i + 1) else xs ! i)"
  using up_nth [OF parent_in_range [OF assms(1)]] assms(2) by simp

lemma up_parent_odd:
  assumes "i < length xs" and "odd i"
  shows "up xs ! (i div 2) = node (xs ! (i - 1)) (xs ! i)"
proof -
  have "2 * (i div 2) = i - 1" and "2 * (i div 2) + 1 = i" using assms(2) by presburger+
  with up_nth [OF parent_in_range [OF assms(1)]] assms(1) show ?thesis by simp
qed

lemma up_index_zero: "length xs \<le> 2 ^ k \<Longrightarrow> length (up xs) \<le> 2 ^ (k - 1)"
  by (cases k) (auto simp: length_up)

end

section \<open>The tree of a FEC set\<close>

definition node_hash :: "(bytes \<Rightarrow> bytes) \<Rightarrow> bytes \<Rightarrow> bytes \<Rightarrow> bytes" where
  "node_hash sha a b =
     sha (MERKLE_HASH_PREFIX_NODE @ take SIZE_OF_PROOF_ENTRY a @ take SIZE_OF_PROOF_ENTRY b)"

text \<open>\<open>for chunk in last.chunks(2)\<close>: a chunk of one node is paired with itself.\<close>

fun next_level :: "(bytes \<Rightarrow> bytes) \<Rightarrow> bytes list \<Rightarrow> bytes list" where
  "next_level sha [] = []"
| "next_level sha [a] = [node_hash sha a a]"
| "next_level sha (a # b # rest) = node_hash sha a b # next_level sha rest"

lemma length_next_level: "length (next_level sha xs) = (length xs + 1) div 2"
  by (induction sha xs rule: next_level.induct) auto

lemma next_level_nth:
  "i < length (next_level sha xs) \<Longrightarrow>
     next_level sha xs ! i
       = node_hash sha (xs ! (2 * i)) (if 2 * i + 1 < length xs then xs ! (2 * i + 1) else xs ! (2 * i))"
proof (induction sha xs arbitrary: i rule: next_level.induct)
  case (3 sha a b rest)
  show ?case
  proof (cases i)
    case (Suc j)
    with 3 show ?thesis by auto
  qed simp
qed auto

interpretation tree: merkle_ladder "next_level sha" "node_hash sha" for sha
  by unfold_locales (simp_all add: length_next_level next_level_nth)

text \<open>\<open>while levels.last().len() > 1\<close>: the levels, leaves first.\<close>

function build_levels :: "(bytes \<Rightarrow> bytes) \<Rightarrow> bytes list \<Rightarrow> bytes list list" where
  "build_levels sha level =
     (if 1 < length level then level # build_levels sha (next_level sha level) else [level])"
  by pat_completeness auto
termination
  by (relation "measure (\<lambda>(sha, level). length level)") (auto intro: tree.up_shorter)

declare build_levels.simps [simp del]

record tree =
  levels :: "bytes list list"
  tree_root :: bytes

definition build_tree :: "(bytes \<Rightarrow> bytes) \<Rightarrow> bytes list \<Rightarrow> ('e, tree) outcome" where
  "build_tree sha leaves =
     (let ls = build_levels sha leaves
      in obind (rindex (last ls) 0) (\<lambda>r. Ret \<lparr>levels = ls, tree_root = r\<rparr>))"

definition sibling :: "bytes list \<Rightarrow> nat \<Rightarrow> bytes" where
  "sibling level index =
     (let s = index XOR 1 in if s < length level then level ! s else level ! (length level - 1))"

fun proof_loop :: "bytes list list \<Rightarrow> nat \<Rightarrow> bytes" where
  "proof_loop [] index = []"
| "proof_loop (level # rest) index =
     (if length level \<le> 1 then []
      else take SIZE_OF_PROOF_ENTRY (sibling level index) @ proof_loop rest (index div 2))"

definition merkle_proof :: "tree \<Rightarrow> nat \<Rightarrow> bytes" where
  "merkle_proof t index = proof_loop (levels t) index"

section \<open>Proofs lead to the root\<close>

lemma xor_one_nat [simp]: "(i::nat) XOR Suc 0 = (if even i then Suc i else i - Suc 0)"
  by (simp add: xor_Suc_0_eq)

lemma sibling_even:
  "i < length level \<Longrightarrow> even i \<Longrightarrow>
     sibling level i = (if i + 1 < length level then level ! (i + 1) else level ! i)"
proof (cases "Suc i < length level")
  case False
  assume "i < length level" "even i"
  with False have "length level = Suc i" by simp
  with \<open>even i\<close> show ?thesis by (simp add: sibling_def)
qed (simp add: sibling_def)

lemma sibling_odd: "i < length level \<Longrightarrow> odd i \<Longrightarrow> sibling level i = level ! (i - 1)"
  by (simp add: sibling_def Let_def)

lemma sibling_in_level: "i < length level \<Longrightarrow> sibling level i \<in> set level"
  by (cases "even i") (auto simp: sibling_even sibling_odd)

lemma level_step:
  assumes "i < length level" and "20 \<le> length (level ! i)"
  shows "merkle_step sha (take 20 (sibling level i)) (i, level ! i)
       = (i div 2, next_level sha level ! (i div 2))"
proof (cases "even i")
  case True
  with assms tree.up_parent_even [of i level sha] show ?thesis
    by (simp add: merkle_step_def merkle_step_input_def sibling_even node_hash_def even_iff_mod_2_eq_zero)
next
  case False
  with assms tree.up_parent_odd [of i level sha] show ?thesis
    by (simp add: merkle_step_def merkle_step_input_def sibling_odd node_hash_def odd_iff_mod_2_eq_one)
qed

lemma next_level_lengths:
  assumes "sha_ok sha" and "n \<in> set (next_level sha level)"
  shows "length n = 32"
  using assms(2,1) by (induction sha level rule: next_level.induct) (auto simp: node_hash_def sha_ok_def)

lemma build_levels_nonempty: "build_levels sha level \<noteq> []"
  by (subst build_levels.simps) simp

lemma climb_to_root:
  assumes "sha_ok sha" and "i < length level" and "\<forall>n \<in> set level. 20 \<le> length n"
  shows "fold (merkle_step sha) (chunks_exact 20 (proof_loop (build_levels sha level) i)) (i, level ! i)
           = (0, last (build_levels sha level) ! 0)
         \<and> 20 dvd length (proof_loop (build_levels sha level) i)"
  using assms(2,3,1)
proof (induction sha level arbitrary: i rule: build_levels.induct)
  case (1 sha level)
  show ?case
  proof (cases "1 < length level")
    case False
    with "1.prems" have "i = 0" by simp
    with False show ?thesis by (simp add: build_levels.simps [of sha level])
  next
    case True
    let ?up = "next_level sha level" and ?s = "take 20 (sibling level i)"
    have s: "length ?s = 20"
      using "1.prems" sibling_in_level [of i level] by auto
    have up: "i div 2 < length ?up" using "1.prems"(1) by (rule tree.parent_in_range)
    have "\<forall>n \<in> set ?up. 20 \<le> length n"
    proof
      fix n assume "n \<in> set ?up"
      with "1.prems"(3) have "length n = 32" by (rule next_level_lengths)
      then show "20 \<le> length n" by simp
    qed
    note IH = "1.IH" [OF True up this "1.prems"(3)]
    have "merkle_step sha ?s (i, level ! i) = (i div 2, ?up ! (i div 2))"
      using "1.prems" by (intro level_step) auto
    with True s IH build_levels_nonempty [of sha ?up] show ?thesis
      by (simp add: build_levels.simps [of sha level])
  qed
qed

lemma build_tree_Ret:
  assumes "leaves \<noteq> []"
  shows "build_tree sha leaves = Ret \<lparr>levels = build_levels sha leaves,
           tree_root = last (build_levels sha leaves) ! 0\<rparr>"
proof -
  have "last (build_levels sha leaves) \<noteq> []"
    using assms
  proof (induction sha leaves rule: build_levels.induct)
    case (1 sha leaves)
    with build_levels_nonempty [of sha "next_level sha leaves"] tree.up_nonempty [of leaves sha]
    show ?case by (cases "1 < length leaves") (simp_all add: build_levels.simps [of sha leaves])
  qed
  then show ?thesis by (simp add: build_tree_def outcome_simps Let_def)
qed

lemma length_proof_loop:
  assumes "sha_ok sha" and "i < length leaves" and "\<forall>n \<in> set leaves. 20 \<le> length n"
    and "length leaves = 2 ^ k"
  shows "length (proof_loop (build_levels sha leaves) i) = 20 * k"
  using assms(2,3,4)
proof (induction k arbitrary: leaves i)
  case 0
  then show ?case by (simp add: build_levels.simps [of sha leaves])
next
  case (Suc k)
  let ?up = "next_level sha leaves"
  have "\<forall>n \<in> set ?up. 20 \<le> length n"
    by (auto dest: next_level_lengths [OF assms(1)])
  moreover have "i div 2 < length ?up" using Suc.prems(1) by (rule tree.parent_in_range)
  moreover have "length ?up = 2 ^ k" using Suc.prems(3) by (simp add: length_next_level)
  ultimately have "length (proof_loop (build_levels sha ?up) (i div 2)) = 20 * k"
    using Suc.IH by blast
  moreover have "length (take 20 (sibling leaves i)) = 20"
    using Suc.prems sibling_in_level [of i leaves] by auto
  moreover have "1 < length leaves"
    using Suc.prems(3) one_less_power [of "2::nat" "Suc k"] by simp
  ultimately show ?case
    by (simp add: build_levels.simps [of sha leaves])
qed

section \<open>Properties\<close>

text \<open>
  Every Merkle proof checks. For any non-empty list of leaves, full or not, the root that
  \<open>compute_merkle_root\<close> rebuilds from a leaf, its index and the proof \<open>merkle_proof\<close> emits for it is the
  root of the tree that \<open>build_tree\<close> built.
\<close>

theorem merkle_proof_verifies:
  assumes "sha_ok sha" and "i < length leaves" and "\<forall>n \<in> set leaves. length n = 32"
  shows "\<exists>t. build_tree sha leaves = (Ret t :: (shred_error, tree) outcome)
     \<and> compute_merkle_root sha i (leaves ! i) (merkle_proof t i) = Ret (tree_root t)"
proof -
  let ?t = "\<lparr>levels = build_levels sha leaves, tree_root = last (build_levels sha leaves) ! 0\<rparr>"
  have "leaves \<noteq> []" using assms(2) by auto
  note tree = build_tree_Ret [OF this, of sha]
  from assms(3) have "\<forall>n \<in> set leaves. 20 \<le> length n" by simp
  note climb_to_root [OF assms(1,2) this]
  then have "compute_merkle_root sha i (leaves ! i) (merkle_proof ?t i) = Ret (tree_root ?t)"
    by (simp add: merkle_proof_def compute_merkle_root_Ret_iff)
  with tree show ?thesis by blast
qed

theorem merkle_proof_verifies_witness:
  "\<exists>t. build_tree zero_sha [replicate 32 1, replicate 32 2, replicate 32 3]
       = (Ret t :: (shred_error, tree) outcome)
     \<and> compute_merkle_root zero_sha 2 (replicate 32 3) (merkle_proof t 2) = Ret (tree_root t)"
  using merkle_proof_verifies [of zero_sha 2 "[replicate 32 1, replicate 32 2, replicate 32 3]"]
  by simp

end
