(* ===== verification/Reed_Sol.thy ===== *)
theory Reed_Sol
  imports Rust_Prelude
begin

text \<open>
  \<open>crates/reedsol/src/lib.rs\<close>: reconstruction of a 32+32 erasure batch. The crate
  \<open>reed_solomon_erasure\<close> is the parameter \<open>rs_api\<close>; \<open>rs_ok\<close> states the part of its documented contract
  that the callers need. Its errors are their texts.
\<close>

section \<open>The erasure-coding library\<close>

record 'r rs_api =
  rs_new :: "nat \<Rightarrow> nat \<Rightarrow> (string, 'r) outcome"
  rs_encode_sep :: "'r \<Rightarrow> bytes list \<Rightarrow> bytes list \<Rightarrow> (string, bytes list) outcome"
    \<comment> \<open>data shards, parity buffers; the filled parity buffers\<close>
  rs_reconstruct :: "'r \<Rightarrow> bytes option list \<Rightarrow> (string, bytes option list) outcome"

definition same_size :: "nat \<Rightarrow> bytes list \<Rightarrow> bool" where
  "same_size n xs \<longleftrightarrow> (\<forall>x \<in> set xs. length x = n)"

definition present :: "'a option list \<Rightarrow> 'a list" where
  "present xs = List.map_filter id xs"

text \<open>
  A codec for 32+32 shards exists; it fills 32 parity buffers of the shard size; and 64 slots of which
  at least 32 hold shards of one non-zero size are all filled, the given ones kept.
\<close>

definition rs_ok :: "'r rs_api \<Rightarrow> bool" where
  "rs_ok rs \<longleftrightarrow>
     (\<exists>r. rs_new rs 32 32 = Ret r
       \<and> (\<forall>n ds ps. 0 < n \<and> length ds = 32 \<and> length ps = 32 \<and> same_size n ds \<and> same_size n ps
            \<longrightarrow> (\<exists>qs. rs_encode_sep rs r ds ps = Ret qs \<and> length qs = 32 \<and> same_size n qs))
       \<and> (\<forall>n xs. 0 < n \<and> length xs = 64 \<and> 32 \<le> length (present xs) \<and> same_size n (present xs)
            \<longrightarrow> (\<exists>ys. rs_reconstruct rs r xs = Ret (map Some ys) \<and> length ys = 64 \<and> same_size n ys
                 \<and> (\<forall>i < 64. \<forall>x. xs ! i = Some x \<longrightarrow> ys ! i = x))))"

lemma rs_ok_encodes:
  assumes "rs_ok rs" and "0 < n" and "length ds = 32" and "length zs = 32"
    and "same_size n ds" and "same_size n zs"
  shows "\<exists>r qs. rs_new rs 32 32 = Ret r \<and> rs_encode_sep rs r ds zs = Ret qs
     \<and> length qs = 32 \<and> same_size n qs"
  using assms unfolding rs_ok_def by blast

section \<open>Reconstruction\<close>

datatype reed_sol_error =
    Inner string
  | InsufficientShards nat nat
  | ShardLenMismatch nat nat

definition reconstruct ::
  "'r rs_api \<Rightarrow> bytes option list \<Rightarrow> (reed_sol_error, bytes option list) outcome" where
  "reconstruct rs shards =
     obind (map_fail Inner (rs_new rs 32 32)) (\<lambda>r. map_fail Inner (rs_reconstruct rs r shards))"

lemma reconstruct_complete:
  assumes "rs_ok rs" and "0 < n" and "length xs = 64" and "32 \<le> length (present xs)"
    and "same_size n (present xs)"
  shows "\<exists>ys. reconstruct rs xs = Ret (map Some ys) \<and> length ys = 64 \<and> same_size n ys
     \<and> (\<forall>i < 64. \<forall>x. xs ! i = Some x \<longrightarrow> ys ! i = x)"
proof -
  from assms(1) obtain r where r: "rs_new rs 32 32 = Ret r"
    and "\<exists>ys. rs_reconstruct rs r xs = Ret (map Some ys) \<and> length ys = 64 \<and> same_size n ys
           \<and> (\<forall>i < 64. \<forall>x. xs ! i = Some x \<longrightarrow> ys ! i = x)"
    using assms(2-) unfolding rs_ok_def by blast
  then obtain ys where "rs_reconstruct rs r xs = Ret (map Some ys)" "length ys = 64" "same_size n ys"
    "\<forall>i < 64. \<forall>x. xs ! i = Some x \<longrightarrow> ys ! i = x"
    by blast
  with r show ?thesis by (simp add: reconstruct_def)
qed

section \<open>A library that satisfies the contract\<close>

text \<open>Parity is a copy of the data, missing slots are filled with a present shard.\<close>

definition copy_rs :: "unit rs_api" where
  "copy_rs =
     \<lparr>rs_new = (\<lambda>_ _. Ret ()), rs_encode_sep = (\<lambda>_ ds ps. Ret ds),
      rs_reconstruct = (\<lambda>_ xs. Ret (map (\<lambda>x. Some (case x of None \<Rightarrow> hd (present xs) | Some b \<Rightarrow> b)) xs))\<rparr>"

lemma set_present: "set (present xs) = {x. Some x \<in> set xs}"
  by (induction xs) (auto simp: present_def List.map_filter_simps split: option.splits)

lemma copy_rs_ok: "rs_ok copy_rs"
  unfolding rs_ok_def
proof (intro exI [of _ "()"] conjI allI impI; (elim conjE)?)
  fix n :: nat and xs :: "bytes option list"
  assume xs: "0 < n" "length xs = 64" "32 \<le> length (present xs)" "same_size n (present xs)"
  let ?ys = "map (\<lambda>x. case x of None \<Rightarrow> hd (present xs) | Some b \<Rightarrow> b) xs"
  have "hd (present xs) \<in> set (present xs)" using xs(3) by (intro hd_in_set) auto
  then have "same_size n ?ys"
    using xs(4) by (auto simp: same_size_def set_present split: option.splits)
  moreover have "rs_reconstruct copy_rs () xs = Ret (map Some ?ys)"
    by (simp add: copy_rs_def comp_def)
  moreover have "\<forall>i < 64. \<forall>x. xs ! i = Some x \<longrightarrow> ?ys ! i = x" using xs(2) by simp
  ultimately show "\<exists>ys. rs_reconstruct copy_rs () xs = Ret (map Some ys) \<and> length ys = 64
      \<and> same_size n ys \<and> (\<forall>i < 64. \<forall>x. xs ! i = Some x \<longrightarrow> ys ! i = x)"
    using xs(2) by (intro exI [of _ ?ys]) simp
qed (simp_all add: copy_rs_def)

end
