(* ===== verification/Fec_Set.thy ===== *)
theory Fec_Set
  imports Merkle_Tree Reed_Sol
begin

text \<open>
  \<open>build_fec_set\<close> of \<open>crates/shred/src/fec_set.rs\<close>: 32 data and 32 coding shreds from a payload. The
  buffers are filled by checked writes at the source's offsets; the Reed-Solomon codec, SHA-256 and
  the signing key's operations are parameters.
\<close>

section \<open>Layout\<close>

definition ERASURE_SHARD_SIZE :: nat where [simp]: "ERASURE_SHARD_SIZE = 987"

definition VARIANT :: nat where [simp]: "VARIANT = 64"
definition SLOT :: nat where [simp]: "SLOT = 65"
definition INDEX :: nat where [simp]: "INDEX = 73"
definition VERSION :: nat where [simp]: "VERSION = 77"
definition FEC_SET_INDEX :: nat where [simp]: "FEC_SET_INDEX = 79"
definition PARENT_OFFSET :: nat where [simp]: "PARENT_OFFSET = 83"
definition FLAGS :: nat where [simp]: "FLAGS = 85"
definition SIZE_FIELD :: nat where [simp]: "SIZE_FIELD = 86"
definition DATA_BUF :: nat where [simp]: "DATA_BUF = 88"
definition DATA_BUF_END :: nat where [simp]: "DATA_BUF_END = 1051"
definition DATA_CHAINED_ROOT :: nat where [simp]: "DATA_CHAINED_ROOT = 1051"
definition DATA_PROOF :: nat where [simp]: "DATA_PROOF = 1083"
definition NUM_DATA :: nat where [simp]: "NUM_DATA = 83"
definition NUM_CODING :: nat where [simp]: "NUM_CODING = 85"
definition POSITION :: nat where [simp]: "POSITION = 87"
definition ERASURE_BUF :: nat where [simp]: "ERASURE_BUF = 89"
definition ERASURE_BUF_END :: nat where [simp]: "ERASURE_BUF_END = 1076"
definition CODE_CHAINED_ROOT :: nat where [simp]: "CODE_CHAINED_ROOT = 1076"
definition CODE_PROOF :: nat where [simp]: "CODE_PROOF = 1108"

section \<open>The builder\<close>

record 'k signer_api =
  sk_sign :: "'k \<Rightarrow> bytes \<Rightarrow> bytes"
  sk_public :: "'k \<Rightarrow> bytes"

record 'k fec_set_params =
  fp_slot :: u64
  fp_fec_set_index :: u32
  fp_version :: u16
  fp_parent_offset :: u16
  fp_flags :: byte
  fp_chained_root :: bytes
  fp_signing_key :: 'k

record fec_set =
  shreds :: "bytes list"
  fs_merkle_root :: bytes
  leader_pubkey :: bytes
  fs_signature :: bytes

definition DATA_CAPACITY_PER_SHRED :: nat where
  [simp]: "DATA_CAPACITY_PER_SHRED = DATA_BUF_END - DATA_BUF"

definition data_variant :: shred_variant where
  "data_variant =
     \<lparr>kind = Data, proof_size = PROOF_ENTRIES_FOR_32_32, chained = True, resigned = False\<rparr>"

definition code_variant :: shred_variant where
  "code_variant =
     \<lparr>kind = Code, proof_size = PROOF_ENTRIES_FOR_32_32, chained = True, resigned = False\<rparr>"

text \<open>The part of the payload that the data shred \<open>i\<close> carries.\<close>

definition payload_slice :: "bytes \<Rightarrow> nat \<Rightarrow> ('e, bytes) outcome" where
  "payload_slice payload i =
     (let off = i * DATA_CAPACITY_PER_SHRED;
          end' = min (off + DATA_CAPACITY_PER_SHRED) (length payload)
      in if off < length payload then rslice off end' payload else Ret [])"

text \<open>The body of the first loop: headers and data of the data shred \<open>i\<close>.\<close>

definition fill_data ::
  "bool \<Rightarrow> bytes \<Rightarrow> 'k fec_set_params \<Rightarrow> nat \<Rightarrow> bytes \<Rightarrow> (shred_error, bytes) outcome" where
  "fill_data oc payload ps i buf =
     obind (rust_add oc (fp_fec_set_index ps) (word_of_nat i)) (\<lambda>index.
     obind (payload_slice payload i) (\<lambda>sl.
     let size = word_of_nat (DATA_BUF + length sl) :: u16
     in write_fields
          [(VARIANT, VARIANT + 1, [variant_encode data_variant]),
           (SLOT, SLOT + 8, to_le_bytes (fp_slot ps)),
           (INDEX, INDEX + 4, to_le_bytes index),
           (VERSION, VERSION + 2, to_le_bytes (fp_version ps)),
           (FEC_SET_INDEX, FEC_SET_INDEX + 4, to_le_bytes (fp_fec_set_index ps)),
           (PARENT_OFFSET, PARENT_OFFSET + 2, to_le_bytes (fp_parent_offset ps)),
           (FLAGS, FLAGS + 1, [fp_flags ps]),
           (DATA_BUF, DATA_BUF + length sl, sl),
           (SIZE_FIELD, SIZE_FIELD + 2, to_le_bytes size),
           (DATA_CHAINED_ROOT, DATA_CHAINED_ROOT + 32, fp_chained_root ps)] buf))"

text \<open>The body of the second loop: headers of the coding shred at position \<open>j\<close>.\<close>

definition fill_code ::
  "bool \<Rightarrow> 'k fec_set_params \<Rightarrow> nat \<Rightarrow> bytes \<Rightarrow> (shred_error, bytes) outcome" where
  "fill_code oc ps j buf =
     obind (rust_add oc (fp_fec_set_index ps) (word_of_nat j)) (\<lambda>index.
     write_fields
       [(VARIANT, VARIANT + 1, [variant_encode code_variant]),
        (SLOT, SLOT + 8, to_le_bytes (fp_slot ps)),
        (INDEX, INDEX + 4, to_le_bytes index),
        (VERSION, VERSION + 2, to_le_bytes (fp_version ps)),
        (FEC_SET_INDEX, FEC_SET_INDEX + 4, to_le_bytes (fp_fec_set_index ps)),
        (NUM_DATA, NUM_DATA + 2, to_le_bytes (word_of_nat DATA_SHREDS_PER_FEC :: u16)),
        (NUM_CODING, NUM_CODING + 2, to_le_bytes (word_of_nat CODING_SHREDS_PER_FEC :: u16)),
        (POSITION, POSITION + 2, to_le_bytes (word_of_nat j :: u16)),
        (CODE_CHAINED_ROOT, CODE_CHAINED_ROOT + 32, fp_chained_root ps)] buf)"

definition fill_headers ::
  "bool \<Rightarrow> bytes \<Rightarrow> 'k fec_set_params \<Rightarrow> bytes list \<Rightarrow> (shred_error, bytes list) outcome" where
  "fill_headers oc payload ps bufs =
     obind (ofold (\<lambda>i. update_at i (fill_data oc payload ps i)) [0..<DATA_SHREDS_PER_FEC] bufs)
       (ofold (\<lambda>i. update_at i (fill_code oc ps (i - DATA_SHREDS_PER_FEC)))
          [DATA_SHREDS_PER_FEC..<SHREDS_PER_FEC])"

definition rs_region :: "bytes list \<Rightarrow> nat \<Rightarrow> ('e, bytes) outcome" where
  "rs_region bufs i =
     obind (rindex bufs i) (rslice SIZE_OF_SIGNATURE (SIZE_OF_SIGNATURE + ERASURE_SHARD_SIZE))"

definition rs_fill ::
  "'r rs_api \<Rightarrow> bytes list \<Rightarrow> (shred_error, bytes list) outcome" where
  "rs_fill rs bufs =
     obind (omap (rs_region bufs) [0..<DATA_SHREDS_PER_FEC]) (\<lambda>data_shards.
     let parity_shards = replicate CODING_SHREDS_PER_FEC (replicate ERASURE_SHARD_SIZE 0)
     in
     obind (map_fail (\<lambda>_. ProofSizeOverflow 0)
              (rs_new rs DATA_SHREDS_PER_FEC CODING_SHREDS_PER_FEC)) (\<lambda>r.
     obind (map_fail (\<lambda>_. ProofSizeOverflow 0)
              (rs_encode_sep rs r data_shards parity_shards)) (\<lambda>parity.
     ofold (\<lambda>(j, p). update_at (DATA_SHREDS_PER_FEC + j)
              (copy_into ERASURE_BUF ERASURE_BUF_END p))
       (zip [0..<length parity] parity) bufs)))"

definition proof_start_at :: "nat \<Rightarrow> nat" where
  "proof_start_at i = (if i < DATA_SHREDS_PER_FEC then DATA_PROOF else CODE_PROOF)"

definition fec_leaf :: "(bytes \<Rightarrow> bytes) \<Rightarrow> bytes list \<Rightarrow> nat \<Rightarrow> ('e, bytes) outcome" where
  "fec_leaf sha bufs i =
     obind (rindex bufs i) (\<lambda>buf.
     obind (rslice SIZE_OF_SIGNATURE (proof_start_at i) buf) (\<lambda>b.
       Ret (sha (MERKLE_HASH_PREFIX_LEAF @ b))))"

definition write_proofs :: "tree \<Rightarrow> bytes list \<Rightarrow> (shred_error, bytes list) outcome" where
  "write_proofs t =
     ofold (\<lambda>i. update_at i (copy_into (proof_start_at i)
        (proof_start_at i + unat PROOF_ENTRIES_FOR_32_32 * SIZE_OF_PROOF_ENTRY) (merkle_proof t i)))
       [0..<SHREDS_PER_FEC]"

definition build_fec_set ::
  "(bytes \<Rightarrow> bytes) \<Rightarrow> 'r rs_api \<Rightarrow> 'k signer_api \<Rightarrow> bool \<Rightarrow> bytes \<Rightarrow> 'k fec_set_params
     \<Rightarrow> (shred_error, fec_set) outcome" where
  "build_fec_set sha rs sg oc payload ps =
     (if DATA_CAPACITY_PER_SHRED * DATA_SHREDS_PER_FEC < length payload
      then Fail (PayloadTooSmall (length payload))
      else
        let bufs = replicate DATA_SHREDS_PER_FEC (replicate DATA_SHRED_PAYLOAD_SIZE 0)
                   @ replicate CODING_SHREDS_PER_FEC (replicate CODING_SHRED_PAYLOAD_SIZE 0)
        in
        obind (fill_headers oc payload ps bufs) (\<lambda>bufs.
        obind (rs_fill rs bufs) (\<lambda>bufs.
        obind (omap (fec_leaf sha bufs) [0..<SHREDS_PER_FEC]) (\<lambda>leaves.
        obind (build_tree sha leaves) (\<lambda>t.
        obind (write_proofs t bufs) (\<lambda>bufs.
        let sig_bytes = sk_sign sg (fp_signing_key ps) (tree_root t)
        in
        obind (omap (copy_into 0 SIZE_OF_SIGNATURE sig_bytes) bufs) (\<lambda>bufs.
          Ret \<lparr>shreds = bufs, fs_merkle_root = tree_root t,
               leader_pubkey = sk_public sg (fp_signing_key ps), fs_signature = sig_bytes\<rparr>)))))))"

section \<open>The layout of the shreds\<close>

definition payload_part :: "bytes \<Rightarrow> nat \<Rightarrow> bytes" where
  "payload_part payload i = take 963 (drop (i * 963) payload)"

text \<open>The bytes between the signature and the Merkle proof.\<close>

definition data_body :: "bytes \<Rightarrow> 'k fec_set_params \<Rightarrow> nat \<Rightarrow> bytes" where
  "data_body payload ps i =
     [0x96] @ to_le_bytes (fp_slot ps) @ to_le_bytes (fp_fec_set_index ps + word_of_nat i)
     @ to_le_bytes (fp_version ps) @ to_le_bytes (fp_fec_set_index ps)
     @ to_le_bytes (fp_parent_offset ps) @ [fp_flags ps]
     @ to_le_bytes (word_of_nat (88 + length (payload_part payload i)) :: u16)
     @ payload_part payload i @ replicate (963 - length (payload_part payload i)) 0
     @ fp_chained_root ps"

definition code_body :: "'k fec_set_params \<Rightarrow> nat \<Rightarrow> bytes \<Rightarrow> bytes" where
  "code_body ps j parity =
     [0x66] @ to_le_bytes (fp_slot ps) @ to_le_bytes (fp_fec_set_index ps + word_of_nat j)
     @ to_le_bytes (fp_version ps) @ to_le_bytes (fp_fec_set_index ps)
     @ [32, 0] @ [32, 0] @ to_le_bytes (word_of_nat j :: u16) @ parity @ fp_chained_root ps"

definition no_overflow :: "bool \<Rightarrow> 'k fec_set_params \<Rightarrow> bool" where
  "no_overflow oc ps \<longleftrightarrow> (oc \<longrightarrow> unat (fp_fec_set_index ps) + 31 < 2 ^ 32)"

lemma length_payload_part: "length (payload_part payload i) \<le> 963"
  by (simp add: payload_part_def)

lemma length_data_body:
  "length (fp_chained_root ps) = 32 \<Longrightarrow> length (data_body payload ps i) = 1019"
  using length_payload_part [of payload i] by (simp add: data_body_def)

lemma length_code_body:
  "length (fp_chained_root ps) = 32 \<Longrightarrow> length parity = 987 \<Longrightarrow> length (code_body ps j parity) = 1044"
  by (simp add: code_body_def)

lemma variant_bytes:
  "variant_encode data_variant = 0x96" "variant_encode code_variant = 0x66"
  by (simp_all add: variant_encode_def data_variant_def code_variant_def)

lemma index_add:
  assumes "no_overflow oc ps" and "i < 32"
  shows "rust_add oc (fp_fec_set_index ps) (word_of_nat i) = Ret (fp_fec_set_index ps + word_of_nat i)"
  using assms by (auto simp: rust_add_def no_overflow_def unat_of_nat)

lemma payload_slice_eq: "payload_slice payload i = Ret (payload_part payload i)"
  by (auto simp: payload_slice_def Let_def rslice_def slice_def payload_part_def min_def)

lemma fill_data_layout:
  assumes "no_overflow oc ps" and "i < 32" and "length (fp_chained_root ps) = 32"
  shows "fill_data oc payload ps i (replicate 1203 0)
       = Ret (replicate 64 0 @ data_body payload ps i @ replicate 120 0)"
proof -
  have "fill_data oc payload ps i (replicate 1203 0)
      = write_fields
          [(64, 65, [0x96]), (65, 73, to_le_bytes (fp_slot ps)),
           (73, 77, to_le_bytes (fp_fec_set_index ps + word_of_nat i)),
           (77, 79, to_le_bytes (fp_version ps)), (79, 83, to_le_bytes (fp_fec_set_index ps)),
           (83, 85, to_le_bytes (fp_parent_offset ps)), (85, 86, [fp_flags ps]),
           (88, 88 + length (payload_part payload i), payload_part payload i),
           (86, 88, to_le_bytes (word_of_nat (88 + length (payload_part payload i)) :: u16)),
           (1051, 1083, fp_chained_root ps)] (replicate 1203 0)"
    by (simp add: fill_data_def index_add [OF assms(1,2)] payload_slice_eq variant_bytes)
  then show ?thesis
    using assms(3) length_payload_part [of payload i]
    by (simp add: write_fields_def outcome_simps put_simps data_body_def)
qed


lemma coding_count_bytes: "to_le_bytes (32 :: u16) = [32, 0]"
  by (simp add: to_le_bytes_def le_bytes_numeral)

definition code_zero :: "'k fec_set_params \<Rightarrow> nat \<Rightarrow> bytes" where
  "code_zero ps j = replicate 64 0 @ code_body ps j (replicate 987 0) @ replicate 120 0"

lemma fill_code_layout:
  assumes "no_overflow oc ps" and "j < 32" and "length (fp_chained_root ps) = 32"
  shows "fill_code oc ps j (replicate 1228 0) = Ret (code_zero ps j)"
  using assms(3)
  by (simp add: fill_code_def index_add [OF assms(1,2)] variant_bytes write_fields_def
      outcome_simps put_simps code_body_def code_zero_def coding_count_bytes)

definition header_bufs :: "bytes \<Rightarrow> 'k fec_set_params \<Rightarrow> bytes list" where
  "header_bufs payload ps =
     map (\<lambda>i. replicate 64 0 @ data_body payload ps i @ replicate 120 0) [0..<32]
     @ map (\<lambda>i. code_zero ps (i - 32)) [32..<64]"

lemma fill_headers_layout:
  assumes "no_overflow oc ps" and "length (fp_chained_root ps) = 32"
  shows "fill_headers oc payload ps (replicate 32 (replicate 1203 0) @ replicate 32 (replicate 1228 0))
       = Ret (header_bufs payload ps)"
proof -
  let ?b0 = "replicate 32 (replicate 1203 0) @ replicate 32 (replicate 1228 0) :: bytes list"
  let ?d = "map (\<lambda>i. replicate 64 0 @ data_body payload ps i @ replicate 120 0) [0..<32]"
  have "ofold (\<lambda>i. update_at i (fill_data oc payload ps i)) [0..<32] ?b0
      = Ret (take 0 ?b0 @ ?d @ drop 32 ?b0)"
    by (rule update_range) (simp_all add: nth_append fill_data_layout [OF assms(1) _ assms(2)])
  moreover have "ofold (\<lambda>i. update_at i (fill_code oc ps (i - 32))) [32..<64] (?d @ replicate 32 (replicate 1228 0))
      = Ret (take 32 (?d @ replicate 32 (replicate 1228 0)) @ map (\<lambda>i. code_zero ps (i - 32)) [32..<64]
          @ drop 64 (?d @ replicate 32 (replicate 1228 0)))"
    by (rule update_range) (simp_all add: nth_append fill_code_layout [OF assms(1) _ assms(2)])
  ultimately show ?thesis
    by (simp add: fill_headers_def header_bufs_def)
qed


definition data_region :: "bytes \<Rightarrow> 'k fec_set_params \<Rightarrow> nat \<Rightarrow> bytes" where
  "data_region payload ps i = take 987 (data_body payload ps i)"

definition data_regions :: "bytes \<Rightarrow> 'k fec_set_params \<Rightarrow> bytes list" where
  "data_regions payload ps = map (data_region payload ps) [0..<32]"

definition shred_body :: "bytes \<Rightarrow> 'k fec_set_params \<Rightarrow> bytes list \<Rightarrow> nat \<Rightarrow> bytes" where
  "shred_body payload ps parity i =
     (if i < 32 then data_body payload ps i else code_body ps (i - 32) (parity ! (i - 32)))"

definition encodes :: "'r rs_api \<Rightarrow> bytes list \<Rightarrow> bytes list \<Rightarrow> bool" where
  "encodes rs ds qs \<longleftrightarrow>
     (\<exists>r. rs_new rs 32 32 = Ret r
        \<and> rs_encode_sep rs r ds (replicate 32 (replicate 987 0)) = Ret qs)"

lemma header_bufs_code: "32 \<le> i \<Longrightarrow> i < 64 \<Longrightarrow> header_bufs payload ps ! i = code_zero ps (i - 32)"
  using nth_upt [of 32 "i - 32" 64] by (simp add: header_bufs_def nth_append)

lemma length_header_bufs [simp]: "length (header_bufs payload ps) = 64"
  by (simp add: header_bufs_def)

lemma take_header_bufs:
  "take 32 (header_bufs payload ps) =
     map (\<lambda>i. replicate 64 0 @ data_body payload ps i @ replicate 120 0) [0..<32]"
  by (simp add: header_bufs_def)

lemma range_split: "(a::nat) \<le> b \<Longrightarrow> [0..<b] = [0..<a] @ [a..<b]"
  using upt_add_eq_append [of 0 a "b - a"] by simp

lemma enumerate_shift:
  "length qs = n \<Longrightarrow> zip [0..<n] qs = map (\<lambda>i. (i - m, qs ! (i - m))) [m..<m + n]"
  by (auto simp: list_eq_iff_nth_eq)

lemma rs_region_header:
  assumes "i < 32" and "length (fp_chained_root ps) = 32"
  shows "rs_region (header_bufs payload ps) i = Ret (data_region payload ps i)"
  using assms length_data_body [OF assms(2), of payload i]
  by (simp add: rs_region_def header_bufs_def outcome_simps nth_append slice_simps data_region_def)
    (simp add: slice_def)

lemma code_zero_put:
  assumes "length (fp_chained_root ps) = 32" and "length p = 987"
  shows "copy_into 89 1076 p (code_zero ps j) = Ret (replicate 64 0 @ code_body ps j p @ replicate 120 0)"
  using assms by (simp add: code_zero_def code_body_def outcome_simps put_simps)

lemma rs_fill_layout:
  assumes "encodes rs (data_regions payload ps) qs" and "length (fp_chained_root ps) = 32"
    and "length qs = 32" and "same_size 987 qs"
  shows "rs_fill rs (header_bufs payload ps)
       = Ret (map (\<lambda>i. replicate 64 0 @ shred_body payload ps qs i @ replicate 120 0) [0..<64])"
proof -
  from assms(1) obtain r where r: "rs_new rs 32 32 = Ret r"
    "rs_encode_sep rs r (data_regions payload ps) (replicate 32 (replicate 987 0)) = Ret qs"
    by (auto simp: encodes_def)
  let ?hb = "header_bufs payload ps"
    and ?g = "\<lambda>i. replicate 64 0 @ code_body ps (i - 32) (qs ! (i - 32)) @ replicate 120 0"
  have q: "length (qs ! j) = 987" if "j < 32" for j
    using assms(3,4) that by (simp add: same_size_def)
  have regions: "omap (rs_region ?hb) [0..<32] = (Ret (data_regions payload ps) :: (shred_error, _) outcome)"
    unfolding data_regions_def by (rule omap_Ret) (simp add: rs_region_header assms(2))
  have "zip [0..<32] qs = map (\<lambda>i. (i - 32, qs ! (i - 32))) [32..<64]"
    using enumerate_shift [OF assms(3), of 32] by simp
  then have "ofold (\<lambda>(j, p). update_at (32 + j) (copy_into 89 1076 p)) (zip [0..<32] qs) ?hb
      = ofold (\<lambda>i. update_at i (copy_into 89 1076 (qs ! (i - 32)))) [32..<64] ?hb"
    by (simp only: ofold_map) (rule ofold_cong, auto)
  also have "\<dots> = Ret (take 32 ?hb @ map ?g [32..<64] @ drop 64 ?hb)"
    by (intro update_range) (simp_all add: header_bufs_code code_zero_put [OF assms(2) q])
  also have "take 32 ?hb @ map ?g [32..<64] @ drop 64 ?hb
      = map (\<lambda>i. replicate 64 0 @ shred_body payload ps qs i @ replicate 120 0) [0..<64]"
    by (simp add: take_header_bufs shred_body_def range_split [of 32 64])
  finally show ?thesis
    using r assms(3) by (simp add: rs_fill_def regions)
qed


section \<open>The finished set\<close>

definition body_leaf :: "(bytes \<Rightarrow> bytes) \<Rightarrow> bytes \<Rightarrow> bytes" where
  "body_leaf sha body = sha (MERKLE_HASH_PREFIX_LEAF @ body)"

definition set_tree :: "(bytes \<Rightarrow> bytes) \<Rightarrow> bytes list \<Rightarrow> tree" where
  "set_tree sha bodies =
     (let ls = build_levels sha (map (body_leaf sha) bodies)
      in \<lparr>levels = ls, tree_root = last ls ! 0\<rparr>)"

definition finished_set ::
  "(bytes \<Rightarrow> bytes) \<Rightarrow> 'k signer_api \<Rightarrow> 'k fec_set_params \<Rightarrow> bytes list \<Rightarrow> fec_set" where
  "finished_set sha sg ps bodies =
     (let t = set_tree sha bodies; sig = sk_sign sg (fp_signing_key ps) (tree_root t)
      in \<lparr>shreds = map (\<lambda>i. sig @ bodies ! i @ merkle_proof t i) [0..<length bodies],
          fs_merkle_root = tree_root t, leader_pubkey = sk_public sg (fp_signing_key ps),
          fs_signature = sig\<rparr>)"

definition shred_bodies :: "bytes \<Rightarrow> 'k fec_set_params \<Rightarrow> bytes list \<Rightarrow> bytes list" where
  "shred_bodies payload ps parity = map (shred_body payload ps parity) [0..<64]"

lemma length_shred_body:
  assumes "length (fp_chained_root ps) = 32" and "length qs = 32" and "same_size 987 qs" and "i < 64"
  shows "length (shred_body payload ps qs i) = proof_start_at i - 64"
  using assms length_data_body [OF assms(1), of payload i]
    length_code_body [OF assms(1), of "qs ! (i - 32)" "i - 32"]
  by (simp add: shred_body_def proof_start_at_def same_size_def)

lemma proof_start_at_bounds: "64 \<le> proof_start_at i"
  by (simp add: proof_start_at_def)

lemma fec_leaves:
  assumes "\<And>i. i < 64 \<Longrightarrow> length (b i) = proof_start_at i - 64"
  shows "omap (fec_leaf sha (map (\<lambda>i. replicate 64 0 @ b i @ replicate 120 0) [0..<64])) [0..<64]
       = Ret (map (\<lambda>i. body_leaf sha (b i)) [0..<64])"
proof (rule omap_Ret)
  fix i assume "i \<in> set [0..<64::nat]"
  then have "i < 64" by simp
  with assms [of i] proof_start_at_bounds [of i]
  show "fec_leaf sha (map (\<lambda>i. replicate 64 0 @ b i @ replicate 120 0) [0..<64]) i
      = Ret (body_leaf sha (b i))"
    by (simp add: fec_leaf_def outcome_simps slice_simps body_leaf_def)
qed

lemma length_merkle_proof:
  assumes "sha_ok sha" and "i < 64" and "length bodies = 64"
  shows "length (merkle_proof (set_tree sha bodies) i) = 120"
  using length_proof_loop [of sha i "map (body_leaf sha) bodies" 6] assms
  by (simp add: merkle_proof_def set_tree_def Let_def body_leaf_def sha_ok_def)

lemma write_proofs_layout:
  assumes "\<And>i. i < 64 \<Longrightarrow> length (b i) = proof_start_at i - 64"
    and "\<And>i. i < 64 \<Longrightarrow> length (merkle_proof t i) = 120"
  shows "write_proofs t (map (\<lambda>i. replicate 64 0 @ b i @ replicate 120 0) [0..<64])
       = Ret (map (\<lambda>i. replicate 64 0 @ b i @ merkle_proof t i) [0..<64])"
proof -
  let ?bs = "map (\<lambda>i. replicate 64 0 @ b i @ replicate 120 0) [0..<64]"
  have "write_proofs t ?bs = ofold (\<lambda>i. update_at i
      (copy_into (proof_start_at i) (proof_start_at i + 120) (merkle_proof t i))) [0..<64] ?bs"
    by (simp add: write_proofs_def)
  also have "\<dots> = Ret (take 0 ?bs @ map (\<lambda>i. replicate 64 0 @ b i @ merkle_proof t i) [0..<64]
      @ drop 64 ?bs)"
  proof (rule update_range)
    fix i :: nat assume "i < 64"
    with assms(1) [of i] assms(2) [of i] proof_start_at_bounds [of i]
    show "copy_into (proof_start_at i) (proof_start_at i + 120) (merkle_proof t i) (?bs ! i)
        = Ret (replicate 64 0 @ b i @ merkle_proof t i)"
      by (simp add: outcome_simps put_simps)
  qed simp_all
  finally show ?thesis by simp
qed

lemma write_signature:
  assumes "length sig = 64"
  shows "omap (copy_into 0 64 sig) (map (\<lambda>i. replicate 64 0 @ g i) xs) = Ret (map (\<lambda>i. sig @ g i) xs)"
  using assms by (induction xs) (simp_all add: outcome_simps put_simps)

lemma build_fec_set_layout:
  assumes "sha_ok sha" and "no_overflow oc ps" and "length (fp_chained_root ps) = 32"
    and "length payload \<le> 30816" and "encodes rs (data_regions payload ps) qs"
    and "length qs = 32" and "same_size 987 qs"
    and "\<And>m. length (sk_sign sg (fp_signing_key ps) m) = 64"
  shows "build_fec_set sha rs sg oc payload ps
       = Ret (finished_set sha sg ps (shred_bodies payload ps qs))"
proof -
  let ?b = "shred_body payload ps qs" and ?bodies = "shred_bodies payload ps qs"
  let ?t = "set_tree sha ?bodies"
  note len = length_shred_body [OF assms(3,6,7)]
  have leaves: "map (\<lambda>i. body_leaf sha (?b i)) [0..<64] = map (body_leaf sha) ?bodies"
    by (simp add: shred_bodies_def)
  have tree: "build_tree sha (map (body_leaf sha) ?bodies) = (Ret ?t :: (shred_error, _) outcome)"
    by (simp add: build_tree_Ret set_tree_def Let_def shred_bodies_def)
  have "length (merkle_proof ?t i) = 120" if "i < 64" for i
    using that assms(1) by (intro length_merkle_proof) (simp_all add: shred_bodies_def)
  note proofs = write_proofs_layout [of ?b ?t, OF len this]
  have bodies: "map (\<lambda>i. sig @ ?b i @ merkle_proof ?t i) [0..<64]
      = map (\<lambda>i. sig @ ?bodies ! i @ merkle_proof ?t i) [0..<length ?bodies]" for sig
    by (simp add: shred_bodies_def)
  show ?thesis
    using assms(4)
    by (simp add: build_fec_set_def fill_headers_layout [OF assms(2,3)]
        rs_fill_layout [OF assms(5,3,6,7)] fec_leaves [of ?b, OF len] leaves tree proofs
        write_signature [OF assms(8)] bodies finished_set_def Let_def)
qed


section \<open>The shreds of a finished set verify\<close>

text \<open>The contract of the signing key: its signatures are 64 bytes that its public key accepts.\<close>

definition signer_ok :: "'k signer_api \<Rightarrow> ed_api \<Rightarrow> 'k \<Rightarrow> bool" where
  "signer_ok sg ed k \<longleftrightarrow> pk_ok ed (sk_public sg k) \<and>
     (\<forall>m. length (sk_sign sg k m) = 64 \<and> sig_ok ed (sk_sign sg k m)
        \<and> ed_verify ed (sk_public sg k) m (sk_sign sg k m))"

definition shred_kind_at :: "nat \<Rightarrow> shred_kind" where
  "shred_kind_at i = (if i < 32 then Data else Code)"

definition built_shred :: "'k fec_set_params \<Rightarrow> bytes \<Rightarrow> nat \<Rightarrow> verified_shred" where
  "built_shred ps root i =
     \<lparr>v_slot = fp_slot ps, v_fec_set_index = fp_fec_set_index ps,
      v_index = fp_fec_set_index ps + word_of_nat (i mod 32), v_erasure_shard_index = i,
      v_merkle_root = root, v_chained_root = Some (fp_chained_root ps),
      v_kind = shred_kind_at i, v_data_flags = (if i < 32 then Some (fp_flags ps) else None)\<rparr>"

lemma decode_built:
  "variant_decode 0x96 = Ret data_variant" "variant_decode 0x66 = Ret code_variant"
  by (simp_all add: variant_decode_def data_variant_def code_variant_def Let_def)

lemma built_ranges:
  "proof_start_of data_variant = 1083" "proof_end_of data_variant = 1203"
  "proof_start_of code_variant = 1108" "proof_end_of code_variant = 1228"
  by (simp_all add: proof_start_of_def proof_end_of_def data_variant_def code_variant_def)

lemma index_no_underflow:
  assumes "no_overflow oc ps" and "i < 32" and "oc"
  shows "\<not> fp_fec_set_index ps + word_of_nat i < fp_fec_set_index ps"
proof -
  have "unat (fp_fec_set_index ps + word_of_nat i) = unat (fp_fec_set_index ps) + i"
    using assms by (simp add: no_overflow_def unat_word_ariths unat_of_nat)
  then show ?thesis by (simp add: word_less_nat_alt)
qed

lemma parse_data_shred:
  assumes "no_overflow oc ps" and "i < 32" and "length (fp_chained_root ps) = 32"
    and "length sig = 64" and "length prf = 120"
  shows "parse_shred oc (sig @ data_body payload ps i @ prf)
       = Ret \<lparr>p_raw = sig @ data_body payload ps i @ prf,
              header = \<lparr>signature = sig, variant = data_variant, hdr_slot = fp_slot ps,
                        hdr_index = fp_fec_set_index ps + word_of_nat i, version = fp_version ps,
                        hdr_fec_set_index = fp_fec_set_index ps\<rparr>,
              leaf_range = (64, 1083), proof_range = (1083, 1203),
              p_chained_root = Some (fp_chained_root ps), p_erasure_shard_index = i,
              p_data_flags = Some (fp_flags ps)\<rparr>"
proof -
  let ?raw = "sig @ data_body payload ps i @ prf"
  note part = length_payload_part [of payload i]
  have len: "length ?raw = 1203" using assms length_data_body [OF assms(3), of payload i] by simp
  have nth: "?raw ! 64 = 0x96" "?raw ! 85 = fp_flags ps"
    using assms by (simp_all add: data_body_def nth_append)
  have sl: "slice 0 64 ?raw = sig" "slice 65 73 ?raw = to_le_bytes (fp_slot ps)"
    "slice 73 77 ?raw = to_le_bytes (fp_fec_set_index ps + word_of_nat i)"
    "slice 77 79 ?raw = to_le_bytes (fp_version ps)"
    "slice 79 83 ?raw = to_le_bytes (fp_fec_set_index ps)"
    "slice 1051 1083 ?raw = fp_chained_root ps"
    using assms part by (simp_all add: data_body_def slice_simps)
  have k: "kind data_variant = Data" by (simp add: data_variant_def)
  have "parse_shred oc ?raw = Ret (parse_result ?raw data_variant)"
    using len index_no_underflow [OF assms(1,2)]
    by (auto simp: parse_shred_Ret_iff nth decode_built k index_underflow_def sl)
  then show ?thesis
    using assms(2)
    by (simp add: parse_result_def header_of_def built_ranges erasure_index_of_def k sl nth unat_of_nat)
qed

lemma parse_code_shred:
  assumes "j < 32" and "length (fp_chained_root ps) = 32"
    and "length sig = 64" and "length prf = 120" and "length parity = 987"
  shows "parse_shred oc (sig @ code_body ps j parity @ prf)
       = Ret \<lparr>p_raw = sig @ code_body ps j parity @ prf,
              header = \<lparr>signature = sig, variant = code_variant, hdr_slot = fp_slot ps,
                        hdr_index = fp_fec_set_index ps + word_of_nat j, version = fp_version ps,
                        hdr_fec_set_index = fp_fec_set_index ps\<rparr>,
              leaf_range = (64, 1108), proof_range = (1108, 1228),
              p_chained_root = Some (fp_chained_root ps), p_erasure_shard_index = 32 + j,
              p_data_flags = None\<rparr>"
proof -
  let ?raw = "sig @ code_body ps j parity @ prf"
  have len: "length ?raw = 1228" using assms length_code_body [OF assms(2,5), of j] by simp
  have nth: "?raw ! 64 = 0x66" using assms by (simp add: code_body_def nth_append)
  have sl: "slice 0 64 ?raw = sig" "slice 65 73 ?raw = to_le_bytes (fp_slot ps)"
    "slice 73 77 ?raw = to_le_bytes (fp_fec_set_index ps + word_of_nat j)"
    "slice 77 79 ?raw = to_le_bytes (fp_version ps)"
    "slice 79 83 ?raw = to_le_bytes (fp_fec_set_index ps)"
    "slice 87 89 ?raw = to_le_bytes (word_of_nat j :: u16)"
    "slice 1076 1108 ?raw = fp_chained_root ps"
    using assms by (simp_all add: code_body_def slice_simps)
  have k: "kind code_variant = Code" by (simp add: code_variant_def)
  have "parse_shred oc ?raw = Ret (parse_result ?raw code_variant)"
    using len by (auto simp: parse_shred_Ret_iff nth decode_built k)
  then show ?thesis
    using assms(1)
    by (simp add: parse_result_def header_of_def built_ranges erasure_index_of_def k sl unat_of_nat)
qed


lemma length_shred_bodies [simp]: "length (shred_bodies payload ps qs) = 64"
  by (simp add: shred_bodies_def)

lemma shred_bodies_nth [simp]: "i < 64 \<Longrightarrow> shred_bodies payload ps qs ! i = shred_body payload ps qs i"
  by (simp add: shred_bodies_def)

text \<open>What a shred of the finished set parses to, whatever its kind.\<close>

lemma parse_built:
  assumes "no_overflow oc ps" and "i < 64" and "length (fp_chained_root ps) = 32"
    and "length sig = 64" and "length prf = 120" and "length qs = 32" and "same_size 987 qs"
  shows "\<exists>p. parse_shred oc (sig @ shred_body payload ps qs i @ prf) = Ret p
     \<and> p_erasure_shard_index p = i \<and> signature (header p) = sig \<and> proof_bytes_of p = prf
     \<and> leaf_input p = MERKLE_HASH_PREFIX_LEAF @ shred_body payload ps qs i
     \<and> (\<forall>root. verified_of p root = built_shred ps root i)"
proof (cases "i < 32")
  case True
  then show ?thesis
    using assms(3-5) length_data_body [OF assms(3), of payload i]
    by (simp add: shred_body_def parse_data_shred [OF assms(1)] proof_bytes_of_def leaf_input_def
        verified_of_def built_shred_def data_variant_def shred_kind_at_def slice_simps)
next
  case False
  with assms have j: "i - 32 < 32" and q: "length (qs ! (i - 32)) = 987"
    by (simp_all add: same_size_def)
  have m: "i mod 32 = i - 32" using False assms(2) by (simp add: le_mod_geq)
  from False show ?thesis
    using assms(3-5) length_code_body [OF assms(3) q, of "i - 32"]
    by (simp add: shred_body_def parse_code_shred [OF j _ _ _ q] proof_bytes_of_def leaf_input_def
        verified_of_def built_shred_def code_variant_def shred_kind_at_def slice_simps m)
qed

lemma finished_root:
  assumes "sha_ok sha" and "i < 64" and "length bodies = 64"
  shows "compute_merkle_root sha i (body_leaf sha (bodies ! i)) (merkle_proof (set_tree sha bodies) i)
       = Ret (tree_root (set_tree sha bodies))"
  using climb_to_root [OF assms(1), of i "map (body_leaf sha) bodies"] assms
  by (simp add: compute_merkle_root_Ret_iff set_tree_def merkle_proof_def Let_def body_leaf_def
      sha_ok_def)

lemma finished_set_verifies:
  assumes "sha_ok sha" and "signer_ok sg ed (fp_signing_key ps)" and "no_overflow oc ps"
    and "length (fp_chained_root ps) = 32" and "length qs = 32" and "same_size 987 qs" and "i < 64"
  shows "verify_shred sha ed oc (shreds (finished_set sha sg ps (shred_bodies payload ps qs)) ! i)
           (sk_public sg (fp_signing_key ps))
       = Ret (built_shred ps (tree_root (set_tree sha (shred_bodies payload ps qs))) i)"
proof -
  let ?bodies = "shred_bodies payload ps qs"
  let ?t = "set_tree sha ?bodies"
  let ?sig = "sk_sign sg (fp_signing_key ps) (tree_root ?t)"
  have sig: "length ?sig = 64" using assms(2) by (simp add: signer_ok_def)
  have prf_len: "length (merkle_proof ?t i) = 120"
    using assms(1,7) by (intro length_merkle_proof) simp_all
  obtain p where "parse_shred oc (?sig @ shred_body payload ps qs i @ merkle_proof ?t i) = Ret p"
    and p: "p_erasure_shard_index p = i" "signature (header p) = ?sig"
      "proof_bytes_of p = merkle_proof ?t i"
      "leaf_input p = MERKLE_HASH_PREFIX_LEAF @ shred_body payload ps qs i"
      "verified_of p (tree_root ?t) = built_shred ps (tree_root ?t) i"
    using parse_built [OF assms(3,7,4) sig prf_len assms(5,6)] by blast
  moreover have "compute_merkle_root sha i (sha (leaf_input p)) (proof_bytes_of p) = Ret (tree_root ?t)"
    using finished_root [OF assms(1,7), of ?bodies] assms(7) by (simp add: p body_leaf_def)
  ultimately show ?thesis
    using assms(2,7)
    by (simp add: verify_shred_Ret_iff finished_set_def Let_def signer_ok_def)
qed

lemma data_regions_size: "length (fp_chained_root ps) = 32 \<Longrightarrow> same_size 987 (data_regions payload ps)"
  by (auto simp: same_size_def data_regions_def data_region_def length_data_body)

lemma rs_parity:
  assumes "rs_ok rs" and "length (fp_chained_root ps) = 32"
  obtains qs where "encodes rs (data_regions payload ps) qs" "length qs = 32" "same_size 987 qs"
proof -
  have "\<exists>r qs. rs_new rs 32 32 = Ret r
      \<and> rs_encode_sep rs r (data_regions payload ps) (replicate 32 (replicate 987 0)) = Ret qs
      \<and> length qs = 32 \<and> same_size 987 qs"
    using data_regions_size [OF assms(2)]
    by (intro rs_ok_encodes assms(1)) (auto simp: data_regions_def same_size_def)
  with that show ?thesis by (auto simp: encodes_def)
qed


lemma write_fields_not_Fail [simp]: "write_fields fs buf \<noteq> Fail e"
  using ofold_Fail_step [of "\<lambda>(i, j, src). copy_into i j src" fs buf e]
  by (auto simp: write_fields_def copy_into_def split: prod.splits if_splits)

lemma update_at_Fail: "update_at i f xs = Fail e \<Longrightarrow> \<exists>x. f x = Fail e"
  by (auto simp: update_at_def obind_eq_Fail rindex_def split: if_splits)

lemma update_at_Ret: "update_at i f xs = Ret ys \<Longrightarrow> \<exists>x y. f x = Ret y"
  by (auto simp: update_at_def obind_eq_Ret)

lemma fill_not_Fail [simp]:
  "fill_data oc payload ps i buf \<noteq> Fail e" "fill_code oc ps i buf \<noteq> Fail e"
  by (auto simp: fill_data_def fill_code_def obind_eq_Fail payload_slice_eq)

lemma fill_headers_overflow:
  assumes "\<not> no_overflow oc ps"
  shows "fill_headers oc payload ps bufs = Panic"
proof (cases "fill_headers oc payload ps bufs")
  case (Ret r)
  then obtain b where "ofold (\<lambda>i. update_at i (fill_data oc payload ps i)) [0..<32] bufs = Ret b"
    by (auto simp: fill_headers_def obind_eq_Ret)
  then have "\<exists>u v. update_at 31 (fill_data oc payload ps 31) u = Ret v"
    by (rule ofold_Ret_step) simp
  then have "\<exists>x y. fill_data oc payload ps 31 x = Ret y" using update_at_Ret by blast
  then show ?thesis
    using assms by (auto simp: fill_data_def obind_eq_Ret rust_add_def no_overflow_def not_less)
next
  case (Fail e)
  then show ?thesis
    by (auto simp: fill_headers_def obind_eq_Fail dest!: ofold_Fail_step update_at_Fail)
qed simp

section \<open>Sample inputs\<close>

definition zero_signer :: "unit signer_api" where
  "zero_signer = \<lparr>sk_sign = (\<lambda>_ _. replicate 64 0), sk_public = (\<lambda>_. replicate 32 0)\<rparr>"

definition sample_params :: "unit fec_set_params" where
  "sample_params = \<lparr>fp_slot = 7, fp_fec_set_index = 64, fp_version = 1, fp_parent_offset = 1,
     fp_flags = 0, fp_chained_root = replicate 32 0, fp_signing_key = ()\<rparr>"

lemma sample_signer_ok: "signer_ok zero_signer accept_all k"
  by (simp add: signer_ok_def zero_signer_def accept_all_def)

lemma sample_build_ok:
  "no_overflow oc sample_params" "length (fp_chained_root sample_params) = 32"
  by (simp_all add: no_overflow_def sample_params_def)

section \<open>Every outcome of the builder\<close>

lemma build_fec_set_eq:
  assumes "sha_ok sha" and "rs_ok rs" and "signer_ok sg ed (fp_signing_key ps)"
    and "length (fp_chained_root ps) = 32"
  obtains qs where "encodes rs (data_regions payload ps) qs" "length qs = 32" "same_size 987 qs"
    "build_fec_set sha rs sg oc payload ps =
       (if 30816 < length payload then Fail (PayloadTooSmall (length payload))
        else if \<not> no_overflow oc ps then Panic
        else Ret (finished_set sha sg ps (shred_bodies payload ps qs)))"
proof -
  obtain qs where qs: "encodes rs (data_regions payload ps) qs" "length qs = 32" "same_size 987 qs"
    by (rule rs_parity [OF assms(2,4)])
  have "length (sk_sign sg (fp_signing_key ps) m) = 64" for m
    using assms(3) by (simp add: signer_ok_def)
  then have "build_fec_set sha rs sg oc payload ps
      = Ret (finished_set sha sg ps (shred_bodies payload ps qs))"
    if "no_overflow oc ps" "length payload \<le> 30816"
    using that by (intro build_fec_set_layout assms qs) simp_all
  moreover have "build_fec_set sha rs sg oc payload ps = Panic"
    if "\<not> no_overflow oc ps" "length payload \<le> 30816"
    using that by (simp add: build_fec_set_def fill_headers_overflow)
  moreover have "build_fec_set sha rs sg oc payload ps = Fail (PayloadTooSmall (length payload))"
    if "30816 < length payload"
    using that by (simp add: build_fec_set_def)
  ultimately show ?thesis by (intro that [OF qs]) auto
qed

lemma build_fec_set_RetE:
  assumes "sha_ok sha" and "rs_ok rs" and "signer_ok sg ed (fp_signing_key ps)"
    and "length (fp_chained_root ps) = 32" and "build_fec_set sha rs sg oc payload ps = Ret fs"
  obtains qs where "encodes rs (data_regions payload ps) qs" "length qs = 32" "same_size 987 qs"
    "fs = finished_set sha sg ps (shred_bodies payload ps qs)" "length payload \<le> 30816"
    "length (sk_sign sg (fp_signing_key ps) (fs_merkle_root fs)) = 64"
proof -
  obtain qs where "encodes rs (data_regions payload ps) qs" "length qs = 32" "same_size 987 qs"
    "build_fec_set sha rs sg oc payload ps =
       (if 30816 < length payload then Fail (PayloadTooSmall (length payload))
        else if \<not> no_overflow oc ps then Panic
        else Ret (finished_set sha sg ps (shred_bodies payload ps qs)))"
    by (rule build_fec_set_eq [OF assms(1-4)])
  with assms(3,5) show ?thesis by (intro that) (auto simp: signer_ok_def split: if_splits)
qed

text \<open>The data of a data shred, as its \<open>size\<close> field delimits it, and the two erasure regions.\<close>

definition shred_data :: "bytes \<Rightarrow> bytes" where
  "shred_data s = slice 88 (unat (from_le_bytes (slice 86 88 s) :: u16)) s"

definition erasure_region :: "nat \<Rightarrow> bytes \<Rightarrow> bytes" where
  "erasure_region i s = (if i < 32 then slice 64 1051 s else slice 89 1076 s)"

lemma concat_payload_parts: "concat (map (payload_part payload) [0..<n]) = take (n * 963) payload"
  by (induction n) (simp_all add: payload_part_def add.commute [of 963] take_add)

lemma data_shred_data:
  assumes "length sig = 64"
  shows "shred_data (sig @ data_body payload ps i @ rest) = payload_part payload i"
proof -
  let ?raw = "sig @ data_body payload ps i @ rest" and ?n = "length (payload_part payload i)"
  have "slice 86 88 ?raw = to_le_bytes (word_of_nat (88 + ?n) :: u16)"
    using assms by (simp add: data_body_def slice_simps)
  then have "unat (from_le_bytes (slice 86 88 ?raw) :: u16) = 88 + ?n"
    using length_payload_part [of payload i] by (simp only: from_to_le unat_of_nat) simp
  then show ?thesis
    using assms by (simp add: shred_data_def data_body_def slice_simps)
qed

lemma finished_shred:
  "i < 64 \<Longrightarrow> shreds (finished_set sha sg ps (shred_bodies payload ps qs)) ! i
     = sk_sign sg (fp_signing_key ps) (fs_merkle_root (finished_set sha sg ps (shred_bodies payload ps qs)))
       @ shred_body payload ps qs i @ merkle_proof (set_tree sha (shred_bodies payload ps qs)) i"
  by (simp add: finished_set_def Let_def)

lemma length_finished [simp]:
  "length (shreds (finished_set sha sg ps (shred_bodies payload ps qs))) = 64"
  by (simp add: finished_set_def Let_def)

lemma sample_builds:
  assumes "length payload \<le> 30816"
  shows "\<exists>fs. build_fec_set zero_sha copy_rs zero_signer oc payload sample_params = Ret fs"
  using assms
  by (rule_tac build_fec_set_eq [OF zero_sha_ok copy_rs_ok sample_signer_ok sample_build_ok(2),
        of payload oc]) (simp add: sample_build_ok)

lemma build_verifies:
  assumes "sha_ok sha" and "rs_ok rs" and "signer_ok sg ed (fp_signing_key ps)"
    and "no_overflow oc ps" and "length (fp_chained_root ps) = 32" and "length payload \<le> 32 * 963"
  shows "\<exists>fs. build_fec_set sha rs sg oc payload ps = Ret fs \<and> length (shreds fs) = 64
     \<and> leader_pubkey fs = sk_public sg (fp_signing_key ps)
     \<and> (\<forall>i < 64. verify_shred sha ed oc (shreds fs ! i) (leader_pubkey fs)
          = Ret (built_shred ps (fs_merkle_root fs) i))"
proof -
  obtain qs where qs: "length qs = 32" "same_size 987 qs"
    and "build_fec_set sha rs sg oc payload ps =
       (if 30816 < length payload then Fail (PayloadTooSmall (length payload))
        else if \<not> no_overflow oc ps then Panic
        else Ret (finished_set sha sg ps (shred_bodies payload ps qs)))"
    by (rule build_fec_set_eq [OF assms(1,2,3,5)])
  then have "build_fec_set sha rs sg oc payload ps
      = Ret (finished_set sha sg ps (shred_bodies payload ps qs))"
    using assms(4,6) by simp
  moreover have "verify_shred sha ed oc (shreds (finished_set sha sg ps (shred_bodies payload ps qs)) ! i)
           (sk_public sg (fp_signing_key ps))
       = Ret (built_shred ps (tree_root (set_tree sha (shred_bodies payload ps qs))) i)" if "i < 64" for i
    by (rule finished_set_verifies [OF assms(1,3,4,5) qs that])
  ultimately show ?thesis
    by (intro exI [of _ "finished_set sha sg ps (shred_bodies payload ps qs)"])
      (simp add: finished_set_def Let_def)
qed

section \<open>Properties\<close>

text \<open>
  C5: What is built verifies. For a payload that fits, with a working codec and key, and with the
  shred indices inside \<open>u32\<close> when overflow checks are on, the builder returns 64 shreds, and each of
  them passes \<open>verify_shred\<close> under the reported key and reports the set's slot, FEC index and root,
  its own position as erasure index, its kind and the chained root.
\<close>

theorem build_fec_set_verifies:
  assumes "sha_ok sha" and "rs_ok rs" and "signer_ok sg ed (fp_signing_key ps)"
    and "no_overflow oc ps" and "length (fp_chained_root ps) = 32" and "length payload \<le> 32 * 963"
  shows "\<exists>fs. build_fec_set sha rs sg oc payload ps = Ret fs \<and> length (shreds fs) = 64
     \<and> (\<forall>i < 64. verify_shred sha ed oc (shreds fs ! i) (leader_pubkey fs)
          = Ret (built_shred ps (fs_merkle_root fs) i))"
  using build_verifies [OF assms] by blast

theorem build_fec_set_verifies_witness:
  "\<exists>fs. build_fec_set zero_sha copy_rs zero_signer True [1, 2, 3] sample_params = Ret fs
     \<and> length (shreds fs) = 64
     \<and> (\<forall>i < 64. verify_shred zero_sha accept_all True (shreds fs ! i) (leader_pubkey fs)
          = Ret (built_shred sample_params (fs_merkle_root fs) i))"
  by (rule build_fec_set_verifies) (simp_all add: sample_build_ok copy_rs_ok sample_signer_ok)

text \<open>
  C28: The only ways the builder does not return. An oversized payload is refused with the error
  \<open>PayloadTooSmall\<close>; otherwise it panics exactly when overflow checks are on and the last shred index
  leaves \<open>u32\<close>; in all other cases it returns a set. The codec error is never reported.
\<close>

theorem build_fec_set_outcome:
  assumes "sha_ok sha" and "rs_ok rs" and "signer_ok sg ed (fp_signing_key ps)"
    and "length (fp_chained_root ps) = 32"
  shows "(case build_fec_set sha rs sg oc payload ps of
            Fail e \<Rightarrow> 32 * 963 < length payload \<and> e = PayloadTooSmall (length payload)
          | Panic \<Rightarrow> length payload \<le> 32 * 963 \<and> oc \<and> 2 ^ 32 \<le> unat (fp_fec_set_index ps) + 31
          | Ret fs \<Rightarrow> length payload \<le> 32 * 963 \<and> (oc \<longrightarrow> unat (fp_fec_set_index ps) + 31 < 2 ^ 32))"
proof -
  obtain qs where "build_fec_set sha rs sg oc payload ps =
       (if 30816 < length payload then Fail (PayloadTooSmall (length payload))
        else if \<not> no_overflow oc ps then Panic
        else Ret (finished_set sha sg ps (shred_bodies payload ps qs)))"
    by (rule build_fec_set_eq [OF assms])
  then show ?thesis by (simp add: no_overflow_def)
qed

theorem build_fec_set_outcome_witness:
  "(case build_fec_set zero_sha copy_rs zero_signer True [1] (sample_params\<lparr>fp_fec_set_index := 0xffffffff\<rparr>) of
      Panic \<Rightarrow> True | _ \<Rightarrow> False)"
  using build_fec_set_outcome [of zero_sha copy_rs zero_signer accept_all
      "sample_params\<lparr>fp_fec_set_index := 0xffffffff\<rparr>" "[1]" True] sample_signer_ok
  by (simp add: copy_rs_ok sample_params_def split: outcome.splits)

text \<open>
  The payload survives. Concatenating the data that the \<open>size\<close> fields of the 32 data shreds
  delimit gives back the payload, whatever its length.
\<close>

theorem payload_roundtrip:
  assumes "sha_ok sha" and "rs_ok rs" and "signer_ok sg ed (fp_signing_key ps)"
    and "length (fp_chained_root ps) = 32" and "build_fec_set sha rs sg oc payload ps = Ret fs"
  shows "concat (map shred_data (take 32 (shreds fs))) = payload"
proof -
  obtain qs where fs: "fs = finished_set sha sg ps (shred_bodies payload ps qs)"
    and len: "length payload \<le> 30816"
    and sig: "length (sk_sign sg (fp_signing_key ps) (fs_merkle_root fs)) = 64"
    by (rule build_fec_set_RetE [OF assms])
  have "map shred_data (take 32 (shreds fs)) = map (payload_part payload) [0..<32]"
  proof (rule nth_equalityI)
    fix i assume "i < length (map shred_data (take 32 (shreds fs)))"
    then have "i < 32" by (simp add: fs)
    with sig show "map shred_data (take 32 (shreds fs)) ! i = map (payload_part payload) [0..<32] ! i"
      by (simp add: fs finished_shred shred_body_def data_shred_data)
  qed (simp add: fs)
  then show ?thesis using len by (simp add: concat_payload_parts)
qed

theorem payload_roundtrip_witness:
  "\<exists>fs. build_fec_set zero_sha copy_rs zero_signer True [1, 2, 3] sample_params = Ret fs
     \<and> concat (map shred_data (take 32 (shreds fs))) = [1, 2, 3]"
  using sample_builds [of "[1, 2, 3]" True]
    payload_roundtrip [OF zero_sha_ok copy_rs_ok sample_signer_ok sample_build_ok(2)] by fastforce

text \<open>
  The finished shreds are a codeword. The erasure regions of the finished coding shreds are what
  the codec computed from the erasure regions of the finished data shreds: proofs and signatures are
  written outside both.
\<close>

theorem shreds_are_codeword:
  assumes "sha_ok sha" and "rs_ok rs" and "signer_ok sg ed (fp_signing_key ps)"
    and "length (fp_chained_root ps) = 32" and "build_fec_set sha rs sg oc payload ps = Ret fs"
  shows "encodes rs (map (\<lambda>i. erasure_region i (shreds fs ! i)) [0..<32])
           (map (\<lambda>i. erasure_region i (shreds fs ! i)) [32..<64])"
proof -
  obtain qs where enc: "encodes rs (data_regions payload ps) qs" and q: "length qs = 32" "same_size 987 qs"
    and fs: "fs = finished_set sha sg ps (shred_bodies payload ps qs)"
    and sig: "length (sk_sign sg (fp_signing_key ps) (fs_merkle_root fs)) = 64"
    by (rule build_fec_set_RetE [OF assms])
  have "map (\<lambda>i. erasure_region i (shreds fs ! i)) [0..<32] = data_regions payload ps"
    using sig length_data_body [OF assms(4), of payload]
    by (simp add: fs finished_shred shred_body_def data_regions_def data_region_def
        erasure_region_def slice_simps) (simp add: slice_def)
  moreover have "map (\<lambda>i. erasure_region i (shreds fs ! i)) [32..<64] = map (\<lambda>i. qs ! (i - 32)) [32..<64]"
  proof (rule map_cong [OF refl])
    fix i assume "i \<in> set [32..<64::nat]"
    then have i: "32 \<le> i" "i < 64" by simp_all
    then have "length (qs ! (i - 32)) = 987" using q by (simp add: same_size_def)
    with i sig show "erasure_region i (shreds fs ! i) = qs ! (i - 32)"
      by (simp add: fs finished_shred shred_body_def erasure_region_def code_body_def slice_simps)
  qed
  moreover have "map (\<lambda>i. qs ! (i - 32)) [32..<64] = qs"
    using q(1) by (intro nth_equalityI) (simp_all add: header_bufs_code)
  ultimately show ?thesis using enc by simp
qed

theorem shreds_are_codeword_witness:
  "\<exists>fs. build_fec_set zero_sha copy_rs zero_signer False [9] sample_params = Ret fs
     \<and> encodes copy_rs (map (\<lambda>i. erasure_region i (shreds fs ! i)) [0..<32])
           (map (\<lambda>i. erasure_region i (shreds fs ! i)) [32..<64])"
  using sample_builds [of "[9]" False]
    shreds_are_codeword [OF zero_sha_ok copy_rs_ok sample_signer_ok sample_build_ok(2)] by fastforce

end
