(* ===== verification/Leader.thy ===== *)
theory Leader
  imports Rust_Prelude Rust_Text "HOL-Library.AList"
begin

text \<open>
  \<open>crates/listener/src/leader.rs\<close>: who signs a slot. The trait \<open>LeaderResolver\<close> is the locale
  \<open>leader_resolver\<close>, interpreted on both implementations; \<open>scheduled_resolver\<close> adds that a resolver serves
  a leader schedule. A resolver maps its state and a slot to a new
  state and an answer, because the Helius resolver fills its cache. JSON values, base58 and the HTTP
  call are parameters; \<open>'w\<close> is the state of the network.
\<close>

section \<open>The trait\<close>

type_synonym 's resolver = "'s \<Rightarrow> u64 \<Rightarrow> (unit, 's \<times> bytes option) outcome"

text \<open>A sequence of lookups, with the answers given.\<close>

fun lookups :: "'s resolver \<Rightarrow> u64 list \<Rightarrow> 's \<Rightarrow> (unit, 's \<times> bytes option list) outcome" where
  "lookups resolve [] s = Ret (s, [])"
| "lookups resolve (slot # slots) s =
     obind (resolve s slot) (\<lambda>(s', r).
     obind (lookups resolve slots s') (\<lambda>(s'', rs). Ret (s'', r # rs)))"

text \<open>
  A resolver returns keys of 32 bytes, never fails otherwise than by panicking, keeps its invariant,
  and gives the same answer without a change of state when asked again at once.
\<close>

locale leader_resolver =
  fixes resolve :: "'s resolver"
    and inv :: "'s \<Rightarrow> bool"
  assumes key_size: "inv s \<Longrightarrow> resolve s slot = Ret (s', Some pk) \<Longrightarrow> length pk = 32"
    and no_error: "resolve s slot \<noteq> Fail e"
    and inv_kept: "inv s \<Longrightarrow> resolve s slot = Ret (s', r) \<Longrightarrow> inv s'"
    and stable: "inv s \<Longrightarrow> resolve s slot = Ret (s', Some pk) \<Longrightarrow> resolve s' slot = Ret (s', Some pk)"
begin

lemma lookups_inv: "inv s \<Longrightarrow> lookups resolve slots s = Ret (s', rs) \<Longrightarrow> inv s'"
  by (induction slots arbitrary: s rs) (auto simp: obind_eq_Ret dest: inv_kept)

lemma lookups_keys:
  "inv s \<Longrightarrow> lookups resolve slots s = Ret (s', rs) \<Longrightarrow> Some pk \<in> set rs \<Longrightarrow> length pk = 32"
  by (induction slots arbitrary: s rs) (auto simp: obind_eq_Ret, (meson key_size inv_kept)+)

lemma repeated_lookups:
  "inv s \<Longrightarrow> resolve s slot = Ret (s', Some pk) \<Longrightarrow>
     lookups resolve (replicate n slot) s' = Ret (s', replicate n (Some pk))"
  by (induction n) (auto dest: stable)

end

text \<open>
  A resolver that serves a leader schedule: from every state it is in service, a lookup of a slot of the
  schedule answers that slot's leader and leaves the resolver in service.
\<close>

locale scheduled_resolver =
  fixes resolve :: "'s resolver"
    and ready :: "'s \<Rightarrow> bool"
    and sched :: "u64 \<Rightarrow> bytes"
    and slots :: "u64 set"
  assumes serves: "ready s \<Longrightarrow> slot \<in> slots \<Longrightarrow> \<exists>s'. resolve s slot = Ret (s', Some (sched slot)) \<and> ready s'"
begin

lemma served:
  assumes "ready s" and "slot \<in> slots" and "resolve s slot = Ret (s', a)"
  shows "a = Some (sched slot)" "ready s'"
  using serves [OF assms(1,2)] assms(3) by auto

lemma lookups_served:
  "ready s \<Longrightarrow> set ss \<subseteq> slots \<Longrightarrow>
     \<exists>s'. lookups resolve ss s = Ret (s', map (\<lambda>slot. Some (sched slot)) ss) \<and> ready s'"
proof (induction ss arbitrary: s)
  case (Cons slot ss)
  then obtain s1 where s1: "resolve s slot = Ret (s1, Some (sched slot))" "ready s1" using serves by force
  with Cons.IH [OF s1(2)] Cons.prems(2) show ?case by auto
qed simp

end

section \<open>A single static key\<close>

definition static_leader :: "bytes resolver" where
  "static_leader pk slot = Ret (pk, Some pk)"

interpretation static: leader_resolver static_leader "\<lambda>pk. length pk = 32"
  by unfold_locales (simp_all add: static_leader_def)

interpretation static_schedule: scheduled_resolver static_leader "\<lambda>s. s = pk" "\<lambda>_. pk" UNIV for pk
  by unfold_locales (simp add: static_leader_def)

section \<open>The JSON-RPC resolver\<close>

text \<open>What the code uses of \<open>serde_json::Value\<close>, of the HTTP client and of \<open>bs58\<close>.\<close>

record 'j json_api =
  j_get :: "'j \<Rightarrow> string \<Rightarrow> 'j option"
  j_index :: "'j \<Rightarrow> string \<Rightarrow> 'j" \<comment> \<open>\<open>v[key]\<close>, null when absent\<close>
  j_as_array :: "'j \<Rightarrow> 'j list option"
  j_as_str :: "'j \<Rightarrow> string option"

datatype 'j http_reply = TransportError | BadJson | Body 'j

record ('w, 'j) rpc_api =
  json :: "'j json_api"
  post :: "'w \<Rightarrow> string \<Rightarrow> string \<Rightarrow> u64 list \<Rightarrow> 'w \<times> 'j http_reply"
    \<comment> \<open>network state, url, method, params\<close>
  b58 :: "string \<Rightarrow> bytes option"

datatype 'j rpc_failure =
    RpcTransport
  | RpcParse
  | RpcError 'j
  | ResultNotArray
  | LeaderNotString
  | Base58Error
  | LeaderNotThirtyTwoBytes
  | CachePoisoned

record helius =
  hr_url :: string
  hr_cache :: "(u64 \<times> bytes) list"
  hr_cache_poisoned :: bool
  hr_inflight_poisoned :: bool

definition BATCH_SIZE :: u64 where "BATCH_SIZE = 1000"
definition MAX_CACHE_ENTRIES :: nat where "MAX_CACHE_ENTRIES = 100000"

definition helius_new :: "string \<Rightarrow> helius" where
  "helius_new url =
     \<lparr>hr_url = url, hr_cache = [], hr_cache_poisoned = False, hr_inflight_poisoned = False\<rparr>"

definition decode_leader :: "('w, 'j) rpc_api \<Rightarrow> 'j \<Rightarrow> ('j rpc_failure, bytes) outcome" where
  "decode_leader api v =
     obind (ok_or LeaderNotString (j_as_str (json api) v)) (\<lambda>s.
     obind (ok_or Base58Error (b58 api s)) (\<lambda>bytes.
     if length bytes \<noteq> 32 then Fail LeaderNotThirtyTwoBytes else Ret bytes))"

definition fetch_window ::
  "('w, 'j) rpc_api \<Rightarrow> 'w \<Rightarrow> string \<Rightarrow> u64 \<Rightarrow> u64 \<Rightarrow> 'w \<times> ('j rpc_failure, bytes list) outcome" where
  "fetch_window api w url start count =
     (let (w', reply) = post api w url ''getSlotLeaders'' [start, count]
      in (w', case reply of
                TransportError \<Rightarrow> Fail RpcTransport
              | BadJson \<Rightarrow> Fail RpcParse
              | Body resp \<Rightarrow>
                  (case j_get (json api) resp ''error'' of
                     Some err \<Rightarrow> Fail (RpcError err)
                   | None \<Rightarrow>
                       obind (ok_or ResultNotArray
                                (j_as_array (json api) (j_index (json api) resp ''result'')))
                         (omap (decode_leader api)))))"

text \<open>The insertion loop, and the eviction of the smallest slots.\<close>

definition insert_leaders ::
  "bool \<Rightarrow> u64 \<Rightarrow> bytes list \<Rightarrow> (u64 \<times> bytes) list \<Rightarrow> ('e, (u64 \<times> bytes) list) outcome" where
  "insert_leaders oc start leaders =
     ofold (\<lambda>(i, pk) cache.
         obind (rust_add oc start (word_of_nat i)) (\<lambda>slot. Ret (AList.update slot pk cache)))
       (zip [0..<length leaders] leaders)"

definition evict :: "(u64 \<times> bytes) list \<Rightarrow> (u64 \<times> bytes) list" where
  "evict cache =
     (if MAX_CACHE_ENTRIES < length cache
      then fold AList.delete (take (length cache - MAX_CACHE_ENTRIES) (sort (map fst cache))) cache
      else cache)"

definition fill_window ::
  "('w, 'j) rpc_api \<Rightarrow> bool \<Rightarrow> helius \<times> 'w \<Rightarrow> u64 \<Rightarrow> (helius \<times> 'w) \<times> ('j rpc_failure, unit) outcome" where
  "fill_window api oc s start =
     (let (h, w) = s; (w', fetched) = fetch_window api w (hr_url h) start BATCH_SIZE
      in case fetched of
           Panic \<Rightarrow> ((h, w'), Panic)
         | Fail e \<Rightarrow> ((h, w'), Fail e)
         | Ret leaders \<Rightarrow>
             if hr_cache_poisoned h then ((h, w'), Fail CachePoisoned)
             else (case insert_leaders oc start leaders (hr_cache h) of
                     Ret cache \<Rightarrow> ((h\<lparr>hr_cache := evict cache\<rparr>, w'), Ret ())
                   | Fail e \<Rightarrow> ((h, w'), Fail e)
                   | Panic \<Rightarrow> ((h\<lparr>hr_cache_poisoned := True\<rparr>, w'), Panic)))"

definition cache_get :: "helius \<Rightarrow> u64 \<Rightarrow> bytes option" where
  "cache_get h slot = (if hr_cache_poisoned h then None else map_of (hr_cache h) slot)"

text \<open>
  \<open>leader_for_slot\<close>. The second look at the cache, under the lock, sees what another thread may have
  put there; \<open>others\<close> is that change (the identity when there is no other thread).
\<close>

definition leader_for_slot ::
  "('w, 'j) rpc_api \<Rightarrow> bool \<Rightarrow> (helius \<Rightarrow> helius) \<Rightarrow> (helius \<times> 'w) resolver" where
  "leader_for_slot api oc others s slot =
     (let (h, w) = s
      in case cache_get h slot of
           Some pk \<Rightarrow> Ret (s, Some pk)
         | None \<Rightarrow>
             if hr_inflight_poisoned h then Ret (s, None)
             else
               let h = others h
               in case cache_get h slot of
                    Some pk \<Rightarrow> Ret ((h, w), Some pk)
                  | None \<Rightarrow>
                      (case fill_window api oc (h, w) slot of
                         (s', Ret u) \<Rightarrow> Ret (s', cache_get (fst s') slot)
                       | (s', Fail e) \<Rightarrow> Ret (s', None)
                       | (s', Panic) \<Rightarrow> Panic))"

text \<open>
  The line that a lookup writes to the error stream when the window cannot be fetched. \<open>why\<close> is the
  \<open>Display\<close> of the failure. The lookup runs in the listener's task, so the line has no fixed place among
  the lines of the event loop.
\<close>

definition resolver_stderr ::
  "('j rpc_failure \<Rightarrow> string) \<Rightarrow> ('w, 'j) rpc_api \<Rightarrow> bool \<Rightarrow> (helius \<Rightarrow> helius) \<Rightarrow> helius \<times> 'w \<Rightarrow> u64 \<Rightarrow> string list" where
  "resolver_stderr why api oc others s slot =
     (let (h, w) = s
      in if cache_get h slot \<noteq> None \<or> hr_inflight_poisoned h \<or> cache_get (others h) slot \<noteq> None then []
         else case snd (fill_window api oc (others h, w) slot) of
                Fail e \<Rightarrow> [''[leader] fill_window('' @ show_nat (unat slot) @ '') failed: '' @ why e]
              | _ \<Rightarrow> [])"

text \<open>A line is written only by a lookup that answers that the leader is unknown.\<close>

lemma resolver_stderr_unknown:
  assumes "resolver_stderr why api oc others s slot \<noteq> []"
  shows "\<exists>s'. leader_for_slot api oc others s slot = Ret (s', None)"
  using assms
  by (auto simp: resolver_stderr_def leader_for_slot_def split: prod.splits option.splits outcome.splits if_splits)


section \<open>The cache\<close>

definition cache_wf :: "(u64 \<times> bytes) list \<Rightarrow> bool" where
  "cache_wf cache \<longleftrightarrow> distinct (map fst cache) \<and> (\<forall>pk \<in> snd ` set cache. length pk = 32)"

definition helius_inv :: "helius \<times> 'w \<Rightarrow> bool" where
  "helius_inv s \<longleftrightarrow> cache_wf (hr_cache (fst s)) \<and> length (hr_cache (fst s)) \<le> MAX_CACHE_ENTRIES"

lemma fold_delete: "fold AList.delete ks cache = filter (\<lambda>p. fst p \<notin> set ks) cache"
  by (induction ks arbitrary: cache) (auto simp: AList.delete_eq intro: filter_cong)

lemma map_of_filter_fst:
  "map_of (filter (\<lambda>p. fst p \<notin> D) c) k = (if k \<in> D then None else map_of c k)"
  by (induction c) auto

lemma cache_wf_filter: "cache_wf cache \<Longrightarrow> cache_wf (filter P cache)"
  by (auto simp: cache_wf_def intro: distinct_map_filter)

lemma update_entries: "set (AList.update k v al) \<subseteq> insert (k, v) (set al)"
  by (induction al) auto

lemma cache_wf_update: "cache_wf cache \<Longrightarrow> length pk = 32 \<Longrightarrow> cache_wf (AList.update k pk cache)"
  using update_entries [of k pk cache] by (auto simp: cache_wf_def distinct_update)

lemma map_of_cache: "cache_wf cache \<Longrightarrow> map_of cache k = Some pk \<Longrightarrow> length pk = 32"
  by (force simp: cache_wf_def dest: map_of_SomeD)

lemma insert_leaders_Cons:
  "insert_leaders oc start (leaders @ [pk]) cache =
     obind (insert_leaders oc start leaders cache) (\<lambda>cache.
     obind (rust_add oc start (word_of_nat (length leaders))) (\<lambda>slot.
       Ret (AList.update slot pk cache)))"
  by (simp add: insert_leaders_def ofold_snoc)

lemma insert_leaders_wf:
  "insert_leaders oc start leaders cache = Ret cache' \<Longrightarrow> cache_wf cache \<Longrightarrow>
     (\<forall>pk \<in> set leaders. length pk = 32) \<Longrightarrow> cache_wf cache'"
proof (induction leaders arbitrary: cache' rule: rev_induct)
  case (snoc pk leaders)
  then show ?case by (auto simp: insert_leaders_Cons obind_eq_Ret intro: cache_wf_update)
qed (simp add: insert_leaders_def)

lemma insert_leaders_not_Fail [simp]: "insert_leaders oc start leaders cache \<noteq> Fail e"
  by (induction leaders arbitrary: e rule: rev_induct)
    (auto simp: insert_leaders_Cons obind_eq_Fail, simp add: insert_leaders_def)

lemma evict_eq:
  "evict cache = (let drop = take (length cache - MAX_CACHE_ENTRIES) (sort (map fst cache))
                  in filter (\<lambda>p. fst p \<notin> set drop) cache)"
  by (auto simp: evict_def fold_delete)

lemma length_evict:
  assumes "cache_wf cache"
  shows "length (evict cache) \<le> MAX_CACHE_ENTRIES"
proof -
  let ?n = "length cache - MAX_CACHE_ENTRIES"
  let ?ks = "take ?n (sort (map fst cache))"
  have d: "distinct (sort (map fst cache))" using assms by (simp add: cache_wf_def)
  have "card (set ?ks) = ?n" using d by (simp add: distinct_card)
  moreover have "set ?ks \<subseteq> set (map fst cache)" by (auto dest: in_set_takeD)
  moreover have "set (map fst (evict cache)) = set (map fst cache) - set ?ks"
    by (auto simp: evict_eq Let_def)
  ultimately have "card (set (map fst (evict cache))) = card (set (map fst cache)) - ?n"
    by (simp add: card_Diff_subset)
  moreover have "distinct (map fst (evict cache))"
    using assms by (simp add: evict_eq Let_def cache_wf_def distinct_map_filter)
  ultimately have "length (evict cache) = length cache - ?n"
    using assms distinct_card [of "map fst (evict cache)"] distinct_card [of "map fst cache"]
    by (simp add: cache_wf_def)
  then show ?thesis by simp
qed

lemma decode_leader_size: "decode_leader api v = Ret pk \<Longrightarrow> length pk = 32"
  by (auto simp: decode_leader_def obind_eq_Ret split: if_splits)

lemma fetch_window_sizes:
  assumes "fetch_window api w url start count = (w', Ret leaders)"
  shows "\<forall>pk \<in> set leaders. length pk = 32"
proof -
  obtain w1 reply where p: "post api w url ''getSlotLeaders'' [start, count] = (w1, reply)"
    by fastforce
  obtain resp where r: "reply = Body resp" "j_get (json api) resp ''error'' = None"
    using assms by (cases reply) (auto simp: fetch_window_def p split: option.splits)
  then obtain vs where "omap (decode_leader api) vs = Ret leaders"
    using assms by (auto simp: fetch_window_def p obind_eq_Ret)
  then have "\<exists>v. decode_leader api v = Ret pk" if "pk \<in> set leaders" for pk
    using that by (auto simp: omap_eq_Ret in_set_conv_nth)
  then show ?thesis by (meson decode_leader_size)
qed

lemma fill_window_inv:
  fixes api :: "('w, 'b) rpc_api"
  assumes "helius_inv s" and "fill_window api oc s start = (s', r)"
  shows "helius_inv s'"
proof -
  obtain h w where s: "s = (h, w)" by fastforce
  obtain w' f where f: "fetch_window api w (hr_url h) start BATCH_SIZE = (w', f)" by fastforce
  have keep: "helius_inv (h\<lparr>hr_cache_poisoned := b\<rparr>, w')" "helius_inv (h, w')" for b
    using assms(1) by (simp_all add: s helius_inv_def)
  show ?thesis
  proof (cases f)
    case (Ret leaders)
    note sizes = fetch_window_sizes [OF f [unfolded Ret]]
    show ?thesis
    proof (cases "insert_leaders oc start leaders (hr_cache h) :: ('b rpc_failure, _) outcome")
      case c: (Ret cache)
      then have "cache_wf cache"
        using insert_leaders_wf sizes assms(1) by (auto simp: s helius_inv_def)
      then have "helius_inv (h\<lparr>hr_cache := evict cache\<rparr>, w')"
        using length_evict by (simp add: helius_inv_def evict_eq Let_def cache_wf_filter)
      with assms(2) keep show ?thesis
        by (auto simp: fill_window_def s f Ret c split: if_splits)
    qed (use assms(2) keep in \<open>auto simp: fill_window_def s f Ret split: if_splits\<close>)
  qed (use assms(2) keep in \<open>auto simp: fill_window_def s f\<close>)
qed

lemma leader_for_slot_cases:
  assumes "leader_for_slot api oc others (h, w) slot = Ret (s', r)"
  obtains (Hit) pk where "cache_get h slot = Some pk" "s' = (h, w)" "r = Some pk"
  | (Poisoned) "cache_get h slot = None" "hr_inflight_poisoned h" "s' = (h, w)" "r = None"
  | (Filled) pk where "cache_get (others h) slot = Some pk" "s' = (others h, w)" "r = Some pk"
  | (Fetched) "fill_window api oc (others h, w) slot = (s', Ret ())"
      "r = cache_get (fst s') slot"
  | (Failed) e where "fill_window api oc (others h, w) slot = (s', Fail e)" "r = None"
proof (cases "cache_get h slot")
  case None
  show ?thesis
  proof (cases "hr_inflight_poisoned h")
    case False
    obtain s1 q where fill: "fill_window api oc (others h, w) slot = (s1, q)" by fastforce
    show ?thesis
    proof (cases "cache_get (others h) slot")
      case miss: None
      with assms None False fill that(4,5) show ?thesis
        by (cases q) (auto simp: leader_for_slot_def)
    next
      case hit: (Some pk)
      with assms None False have "s' = (others h, w)" "r = Some pk"
        by (simp_all add: leader_for_slot_def)
      with hit that(3) show ?thesis by blast
    qed
  qed (use assms None that(2) in \<open>simp add: leader_for_slot_def\<close>)
next
  case hit: (Some pk)
  with assms have "s' = (h, w)" "r = Some pk" by (simp_all add: leader_for_slot_def)
  with hit that(1) show ?thesis by blast
qed

lemma helius_no_error: "leader_for_slot api oc others s slot \<noteq> Fail e"
proof -
  obtain h w where s: "s = (h, w)" by fastforce
  obtain s1 q where "fill_window api oc (others h, w) slot = (s1, q)" by fastforce
  then show ?thesis
    by (cases q) (simp_all add: s leader_for_slot_def Let_def split: option.splits)
qed

lemma leader_for_slot_inv:
  assumes "helius_inv (h, w)" and "helius_inv (others h, w)"
    and "leader_for_slot api oc others (h, w) slot = Ret (s', r)"
  shows "helius_inv s'"
  using assms(3)
  by (cases rule: leader_for_slot_cases) (use assms(1,2) fill_window_inv in blast)+

lemma leader_for_slot_hit:
  "cache_get (fst s) slot = Some pk \<Longrightarrow> leader_for_slot api oc others s slot = Ret (s, Some pk)"
  by (cases s) (simp add: leader_for_slot_def)

lemma leader_for_slot_cached:
  assumes "leader_for_slot api oc others (h, w) slot = Ret (s', Some pk)"
  shows "cache_get (fst s') slot = Some pk"
  using assms by (cases rule: leader_for_slot_cases) auto

interpretation helius: leader_resolver "leader_for_slot api oc (\<lambda>h. h)" helius_inv for api oc
proof
  fix s slot s' r pk and e :: unit
  show "leader_for_slot api oc (\<lambda>h. h) s slot \<noteq> Fail e" by (rule helius_no_error)
  assume inv: "helius_inv s"
  {
    assume "leader_for_slot api oc (\<lambda>h. h) s slot = Ret (s', r)"
    then show "helius_inv s'"
      using inv leader_for_slot_inv [of "fst s" "snd s" "\<lambda>h. h" api oc slot s' r] by simp
  }
  assume l: "leader_for_slot api oc (\<lambda>h. h) s slot = Ret (s', Some pk)"
  then have "helius_inv s'"
    using inv leader_for_slot_inv [of "fst s" "snd s" "\<lambda>h. h" api oc slot s' "Some pk"] by simp
  have c: "cache_get (fst s') slot = Some pk"
    using l leader_for_slot_cached [of api oc "\<lambda>h. h" "fst s" "snd s"] by simp
  then show "leader_for_slot api oc (\<lambda>h. h) s' slot = Ret (s', Some pk)"
    by (rule leader_for_slot_hit)
  from c \<open>helius_inv s'\<close> show "length pk = 32"
    by (auto simp: cache_get_def helius_inv_def dest: map_of_cache split: if_splits)
qed


section \<open>A fetched window\<close>

lemma length_update: "length (AList.update k v al) \<le> Suc (length al)"
  by (induction al) auto

lemma length_update_new: "k \<notin> fst ` set al \<Longrightarrow> length (AList.update k v al) = Suc (length al)"
  by (induction al) auto

lemma window_index_inj:
  assumes "i < j" and "j < 2 ^ 64"
  shows "(start :: u64) + word_of_nat i \<noteq> start + word_of_nat j"
proof -
  have "(word_of_nat i :: u64) \<noteq> word_of_nat j"
    using assms by (simp add: of_nat_inverse word_unat_eq_iff unat_of_nat)
  then show ?thesis by simp
qed

text \<open>Inserting a window that stays inside \<open>u64\<close>: the resulting map, its keys and its size.\<close>

definition window_in :: "u64 \<Rightarrow> bytes list \<Rightarrow> (u64 \<times> bytes) list \<Rightarrow> (u64 \<times> bytes) list \<Rightarrow> bool" where
  "window_in start leaders cache c \<longleftrightarrow>
     (\<forall>i < length leaders. map_of c (start + word_of_nat i) = Some (leaders ! i))
     \<and> fst ` set c = fst ` set cache \<union> (\<lambda>i. start + word_of_nat i) ` {..<length leaders}
     \<and> (\<forall>k. k \<notin> (\<lambda>i. start + word_of_nat i) ` {..<length leaders} \<longrightarrow> map_of c k = map_of cache k)
     \<and> length c \<le> length cache + length leaders \<and> length cache \<le> length c
     \<and> (start \<notin> fst ` set cache \<and> leaders \<noteq> [] \<longrightarrow> length cache < length c)"

lemma window_in_update:
  assumes w: "window_in start leaders cache c" and "unat start + Suc (length leaders) \<le> 2 ^ 64"
  shows "window_in start (leaders @ [pk]) cache (AList.update (start + word_of_nat (length leaders)) pk c)"
proof -
  let ?n = "length leaders" and ?k = "start + word_of_nat (length leaders)"
  let ?c' = "AList.update ?k pk c"
  have get: "map_of ?c' (start + word_of_nat i) = Some ((leaders @ [pk]) ! i)" if "i < Suc ?n" for i
  proof (cases "i = ?n")
    case False
    with that have "i < ?n" by simp
    moreover from this assms(2) have "start + word_of_nat i \<noteq> ?k"
      by (intro window_index_inj) auto
    ultimately show ?thesis using w by (simp add: window_in_def update_conv' nth_append)
  qed (simp add: update_conv')
  have keys: "fst ` set ?c' = fst ` set cache \<union> (\<lambda>i. start + word_of_nat i) ` {..<Suc ?n}"
    using w by (auto simp: window_in_def dom_update lessThan_Suc)
  have other: "map_of ?c' k = map_of cache k" if "k \<notin> (\<lambda>i. start + word_of_nat i) ` {..<Suc ?n}" for k
    using w that by (auto simp: window_in_def update_conv' lessThan_Suc)
  have mono: "length c \<le> length ?c'" by (induction c) auto
  have "length cache < length ?c'" if "start \<notin> fst ` set cache"
  proof (cases "leaders = []")
    case True
    with w that show ?thesis using length_update_new [of ?k c pk] by (simp add: window_in_def)
  next
    case False
    with w that mono show ?thesis by (simp add: window_in_def)
  qed
  with w get keys other mono length_update [of ?k pk c] show ?thesis by (simp add: window_in_def)
qed

lemma window_slot:
  "unat (start :: u64) + n < 2 ^ 64 \<Longrightarrow> rust_add oc start (word_of_nat n) = Ret (start + word_of_nat n)"
  by (simp add: rust_add_def unat_of_nat)

lemma insert_leaders_result:
  assumes "unat start + length leaders \<le> 2 ^ 64"
  shows "\<exists>c. insert_leaders oc start leaders cache = (Ret c :: ('e, _) outcome) \<and> window_in start leaders cache c"
  using assms
proof (induction leaders rule: rev_induct)
  case (snoc pk leaders)
  let ?k = "start + word_of_nat (length leaders)"
  have "\<exists>c. insert_leaders oc start leaders cache = (Ret c :: ('e, _) outcome) \<and> window_in start leaders cache c"
    using snoc by simp
  then obtain c where c: "insert_leaders oc start leaders cache = (Ret c :: ('e, _) outcome)" "window_in start leaders cache c"
    by blast
  have "unat start + length leaders < 2 ^ 64" using snoc.prems by simp
  with c window_in_update [OF c(2), of pk] snoc.prems show ?case
    by (simp add: insert_leaders_Cons window_slot)
qed (simp add: insert_leaders_def window_in_def)


lemma window_map:
  assumes "window_in slot leaders cache c" and "unat slot + length leaders \<le> 2 ^ 64"
  shows "map_of c k
    = (if unat slot \<le> unat k \<and> unat k < unat slot + length leaders then Some (leaders ! (unat k - unat slot))
       else map_of cache k)"
proof -
  have idx: "unat (slot + word_of_nat i) = unat slot + i" if "i < length leaders" for i
    using that assms(2) by (simp add: unat_word_ariths unat_of_nat)
  show ?thesis
  proof (cases "unat slot \<le> unat k \<and> unat k < unat slot + length leaders")
    case True
    then have i: "unat k - unat slot < length leaders" by arith
    have "k = slot + word_of_nat (unat k - unat slot)"
      using True idx [OF i] by (simp add: word_unat_eq_iff)
    moreover have "map_of c (slot + word_of_nat (unat k - unat slot)) = Some (leaders ! (unat k - unat slot))"
      using assms(1) i unfolding window_in_def by blast
    ultimately show ?thesis using True by metis
  next
    case False
    then have "k \<notin> (\<lambda>i. slot + word_of_nat i) ` {..<length leaders}" using idx by auto
    with assms(1) False show ?thesis by (auto simp: window_in_def)
  qed
qed


lemma evict_small: "length c \<le> MAX_CACHE_ENTRIES \<Longrightarrow> evict c = c"
  by (simp add: evict_def)

lemma greater_card:
  assumes "sorted ys" and "distinct ys" and "p < length ys"
  shows "card {y \<in> set ys. ys ! p < (y :: 'a :: linorder)} = length ys - Suc p"
proof -
  have "{y \<in> set ys. ys ! p < y} = set (drop (Suc p) ys)"
  proof (intro equalityI subsetI)
    fix y assume "y \<in> {y \<in> set ys. ys ! p < y}"
    then obtain q where q: "q < length ys" "y = ys ! q" "ys ! p < ys ! q" by (auto simp: in_set_conv_nth)
    then have "p < q" using sorted_nth_mono [OF assms(1), of q p] assms(3) by (meson leD leI)
    with q show "y \<in> set (drop (Suc p) ys)"
      by (auto simp: in_set_conv_nth intro!: exI [of _ "q - Suc p"])
  next
    fix y assume "y \<in> set (drop (Suc p) ys)"
    then obtain q where "q < length (drop (Suc p) ys)" and "y = drop (Suc p) ys ! q"
      by (metis in_set_conv_nth)
    then have "Suc p + q < length ys" and y: "y = ys ! (Suc p + q)" by simp_all
    moreover from this(1) have "ys ! p \<noteq> y" "ys ! p \<le> y"
      using nth_eq_iff_index_eq [OF assms(2), of p "Suc p + q"] sorted_nth_mono [OF assms(1), of p "Suc p + q"]
      by (simp_all add: y)
    ultimately show "y \<in> {y \<in> set ys. ys ! p < y}" by (simp add: y)
  qed
  with assms(2) show ?thesis by (simp add: distinct_card)
qed

text \<open>Eviction keeps exactly the entries that have fewer than the bound of newer ones.\<close>

lemma evict_get:
  assumes "distinct (map fst c)"
  shows "map_of (evict c) k = (if card {k'. k < k' \<and> map_of c k' \<noteq> None} < MAX_CACHE_ENTRIES then map_of c k else None)"
proof -
  let ?ys = "sort (map fst c)" and ?n = "length c"
  have ys: "sorted ?ys" "distinct ?ys" "length ?ys = ?n" "set ?ys = fst ` set c" using assms by simp_all
  have newer: "{k'. k < k' \<and> map_of c k' \<noteq> None} = {y \<in> set ?ys. k < y}"
    by (auto simp: map_of_eq_None_iff)
  show ?thesis
  proof (cases "k \<in> fst ` set c")
    case True
    then obtain p where p: "p < ?n" "?ys ! p = k" using ys(3,4) by (metis in_set_conv_nth)
    have card: "card {k'. k < k' \<and> map_of c k' \<noteq> None} = ?n - Suc p"
      unfolding newer using greater_card [OF ys(1,2), of p] p ys(3) by simp
    have "k \<in> set (take (?n - MAX_CACHE_ENTRIES) ?ys) \<longleftrightarrow> p < ?n - MAX_CACHE_ENTRIES"
      using p ys(2,3) nth_eq_iff_index_eq [OF ys(2)] by (auto simp: in_set_conv_nth)
    with p(1) have "k \<in> set (take (?n - MAX_CACHE_ENTRIES) ?ys) \<longleftrightarrow> \<not> ?n - Suc p < MAX_CACHE_ENTRIES" by auto
    then show ?thesis
      unfolding card by (auto simp: evict_eq Let_def map_of_filter_fst)
  next
    case False
    then have "map_of c k = None" "map_of (evict c) k = None"
      by (auto simp: map_of_eq_None_iff evict_eq Let_def)
    then show ?thesis by simp
  qed
qed

section \<open>Serving a leader schedule\<close>

text \<open>
  A node that knows the schedule: asked for the leaders from a slot between \<open>lo\<close> and \<open>hi\<close> on, it answers
  those of at least that slot and of at most a whole window. \<open>up\<close> says in which states of the network.
\<close>

definition honest_node ::
  "('w, 'j) rpc_api \<Rightarrow> ('w \<Rightarrow> bool) \<Rightarrow> string \<Rightarrow> (u64 \<Rightarrow> bytes) \<Rightarrow> u64 \<Rightarrow> u64 \<Rightarrow> bool" where
  "honest_node api up url sched lo hi \<longleftrightarrow>
     (\<forall>w start. up w \<and> lo \<le> start \<and> start < hi \<longrightarrow>
        (\<exists>w' n. 0 < n \<and> n \<le> 1000 \<and> up w'
           \<and> fetch_window api w url start BATCH_SIZE
             = (w', Ret (map (\<lambda>i. sched (start + word_of_nat i)) [0..<n]))))"

text \<open>The windows fetched for these slots end inside \<open>u64\<close> and together fit into the cache.\<close>

definition slots_fit :: "u64 \<Rightarrow> u64 \<Rightarrow> bool" where
  "slots_fit lo hi \<longleftrightarrow> unat hi + 1000 \<le> 2 ^ 64 \<and> unat hi + 1000 \<le> unat lo + MAX_CACHE_ENTRIES"

definition in_service ::
  "('w, 'j) rpc_api \<Rightarrow> ('w \<Rightarrow> bool) \<Rightarrow> (u64 \<Rightarrow> bytes) \<Rightarrow> u64 \<Rightarrow> u64 \<Rightarrow> helius \<times> 'w \<Rightarrow> bool" where
  "in_service api up sched lo hi s \<longleftrightarrow>
     (let (h, w) = s
      in honest_node api up (hr_url h) sched lo hi \<and> slots_fit lo hi \<and> up w
         \<and> \<not> hr_cache_poisoned h \<and> \<not> hr_inflight_poisoned h \<and> cache_wf (hr_cache h)
         \<and> (\<forall>k \<in> fst ` set (hr_cache h). lo \<le> k \<and> unat k < unat hi + 1000 \<and> map_of (hr_cache h) k = Some (sched k)))"

lemma range_fits:
  assumes "cache_wf c" and "slots_fit lo hi" and "\<forall>k \<in> fst ` set c. lo \<le> k \<and> unat k < unat hi + 1000"
  shows "length c \<le> MAX_CACHE_ENTRIES"
proof -
  have "inj_on unat (fst ` set c)" by (rule inj_onI) (rule word_unat_eq_iff [THEN iffD2])
  then have "card (unat ` fst ` set c) = card (fst ` set c)" by (rule card_image)
  then have "length c = card (unat ` fst ` set c)"
    using assms(1) distinct_card [of "map fst c"] by (simp add: cache_wf_def)
  also have "\<dots> \<le> card {unat lo..<unat hi + 1000}"
    using assms(3) by (intro card_mono) (auto simp: word_le_nat_alt)
  also have "\<dots> \<le> MAX_CACHE_ENTRIES" using assms(2) by (auto simp: slots_fit_def)
  finally show ?thesis .
qed

lemma unat_window: "unat (start :: u64) + n \<le> 2 ^ 64 \<Longrightarrow> i < n \<Longrightarrow> unat (start + word_of_nat i) = unat start + i"
  by (simp add: unat_word_ariths unat_of_nat)

lemma in_service_fill:
  fixes api :: "('w, 'j) rpc_api"
  assumes "in_service api up sched lo hi (h, w)" and "lo \<le> slot" and "slot < hi"
  obtains h' w' where "fill_window api oc (h, w) slot = ((h', w'), Ret ())"
    and "in_service api up sched lo hi (h', w')" and "cache_get h' slot = Some (sched slot)"
proof -
  have node: "honest_node api up (hr_url h) sched lo hi" and fit: "slots_fit lo hi" and "up w"
    and ok: "\<not> hr_cache_poisoned h" "\<not> hr_inflight_poisoned h" and wf: "cache_wf (hr_cache h)"
    and old: "\<forall>k \<in> fst ` set (hr_cache h). lo \<le> k \<and> unat k < unat hi + 1000 \<and> map_of (hr_cache h) k = Some (sched k)"
    using assms(1) by (simp_all add: in_service_def)
  obtain w' n where n: "0 < n" "n \<le> 1000" and "up w'" and
    fetch: "fetch_window api w (hr_url h) slot BATCH_SIZE = (w', Ret (map (\<lambda>i. sched (slot + word_of_nat i)) [0..<n]))"
    using node \<open>up w\<close> assms(2,3) unfolding honest_node_def by blast
  let ?ls = "map (\<lambda>i. sched (slot + word_of_nat i)) [0..<n]" and ?K = "(\<lambda>i. slot + word_of_nat i) ` {..<n}"
  have end': "unat slot + n \<le> 2 ^ 64" "unat slot < unat hi"
    using assms(3) n(2) fit by (simp_all add: slots_fit_def word_less_nat_alt)
  have new: "lo \<le> k \<and> unat k < unat hi + 1000" if "k \<in> ?K" for k
    using that assms(2) n(2) end' unat_window [OF end'(1)] by (auto simp: word_le_nat_alt)
  obtain c where c: "insert_leaders oc slot ?ls (hr_cache h) = (Ret c :: ('j rpc_failure, _) outcome)"
    and win: "window_in slot ?ls (hr_cache h) c"
    using insert_leaders_result [of slot ?ls] end'(1) by auto
  have wf': "cache_wf c" using insert_leaders_wf [OF c wf] fetch_window_sizes [OF fetch] by blast
  have keys: "fst ` set c = fst ` set (hr_cache h) \<union> ?K" using win by (simp add: window_in_def)
  have get: "map_of c k = Some (sched k)" if "k \<in> fst ` set c" for k
    using win that keys old by (cases "k \<in> ?K") (auto simp: window_in_def)
  have range: "\<forall>k \<in> fst ` set c. lo \<le> k \<and> unat k < unat hi + 1000" using old new unfolding keys by blast
  have small: "evict c = c" by (rule evict_small [OF range_fits [OF wf' fit range]])
  have "slot \<in> ?K" using n(1) by (auto intro: image_eqI [of _ _ 0])
  show ?thesis
  proof (rule that [of "h\<lparr>hr_cache := c\<rparr>" w'])
    show "fill_window api oc (h, w) slot = ((h\<lparr>hr_cache := c\<rparr>, w'), Ret ())"
      by (simp add: fill_window_def fetch ok c small)
    show "in_service api up sched lo hi (h\<lparr>hr_cache := c\<rparr>, w')"
      using node fit \<open>up w'\<close> ok wf' range get by (simp add: in_service_def)
    show "cache_get (h\<lparr>hr_cache := c\<rparr>) slot = Some (sched slot)"
      using get [of slot] keys \<open>slot \<in> ?K\<close> ok(1) by (simp add: cache_get_def)
  qed
qed

lemma in_service_hit:
  assumes "in_service api up sched lo hi (h, w)" and "cache_get h slot = Some pk"
  shows "pk = sched slot"
proof -
  have pk: "map_of (hr_cache h) slot = Some pk" using assms(2) by (simp add: cache_get_def split: if_splits)
  then have "slot \<in> fst ` set (hr_cache h)" by (force dest: map_of_SomeD)
  with pk assms(1) show ?thesis by (auto simp: in_service_def)
qed

interpretation helius_schedule: scheduled_resolver "leader_for_slot api oc (\<lambda>h. h)"
    "in_service api up sched lo hi" sched "{lo..<hi}" for api oc up sched lo hi
proof
  fix s slot
  assume s: "in_service api up sched lo hi s" and slot: "slot \<in> {lo..<hi}"
  obtain h w where hw: "s = (h, w)" by fastforce
  show "\<exists>s'. leader_for_slot api oc (\<lambda>h. h) s slot = Ret (s', Some (sched slot)) \<and> in_service api up sched lo hi s'"
  proof (cases "cache_get h slot")
    case None
    obtain h' w' where "fill_window api oc (h, w) slot = ((h', w'), Ret ())"
      and "in_service api up sched lo hi (h', w')" and "cache_get h' slot = Some (sched slot)"
      using in_service_fill [of api up sched lo hi h w slot oc] s slot hw by auto
    moreover have "\<not> hr_inflight_poisoned h" using s by (simp add: hw in_service_def)
    ultimately show ?thesis using None by (simp add: hw leader_for_slot_def)
  next
    case (Some pk)
    with in_service_hit s show ?thesis by (auto simp: hw leader_for_slot_def)
  qed
qed

lemma helius_new_serves:
  assumes "honest_node api up url sched lo hi" and "slots_fit lo hi" and "up w"
  shows "in_service api up sched lo hi (helius_new url, w)"
  using assms by (simp add: in_service_def helius_new_def cache_wf_def)

section \<open>Properties\<close>

text \<open>
  The contract of the Helius resolver. From a cache within its bound that holds 32-byte keys, a
  lookup that returns leaves such a cache, and any number of further lookups of an answered slot give
  the same 32-byte key and touch neither cache nor network.
\<close>

theorem helius_lookup_contract:
  assumes "helius_inv s" and "leader_for_slot api oc (\<lambda>h. h) s slot = Ret (s', Some pk)"
  shows "length pk = 32 \<and> helius_inv s'
     \<and> lookups (leader_for_slot api oc (\<lambda>h. h)) (replicate n slot) s' = Ret (s', replicate n (Some pk))"
  using helius.key_size [OF assms] helius.inv_kept [OF assms] helius.repeated_lookups [OF assms]
  by blast

text \<open>
  C26: The Helius resolver serves the leader schedule. Against a node that answers, for every slot of a
  range, the leaders of that slot and of some of the following ones, and with a range whose windows fit
  the cache, every sequence of lookups of slots of the range from a new resolver succeeds and answers each
  slot with its scheduled leader, whatever part of the answers comes from the cache.
\<close>

theorem helius_answers_schedule:
  assumes "honest_node api up url sched lo hi" and "slots_fit lo hi" and "up w" and "set ss \<subseteq> {lo..<hi}"
  shows "\<exists>s'. lookups (leader_for_slot api oc (\<lambda>h. h)) ss (helius_new url, w)
     = Ret (s', map (\<lambda>slot. Some (sched slot)) ss)"
  using helius_schedule.lookups_served [OF helius_new_serves [OF assms(1-3)] assms(4)] by blast

text \<open>
  A window is cached. On a miss, with room in the cache and a reply that holds at least one
  leader, the first leader of the reply is the answer for the slot, and the cache then answers every
  slot of the window from the reply.
\<close>

theorem window_is_cached:
  assumes "helius_inv (h, w)" and "cache_get h slot = None"
    and "\<not> hr_cache_poisoned h" and "\<not> hr_inflight_poisoned h"
    and "fetch_window api w (hr_url h) slot BATCH_SIZE = (w', Ret leaders)" and "leaders \<noteq> []"
    and "length (hr_cache h) + length leaders \<le> MAX_CACHE_ENTRIES"
    and "unat slot + length leaders \<le> 2 ^ 64"
  shows "\<exists>h'. leader_for_slot api oc (\<lambda>h. h) (h, w) slot = Ret ((h', w'), Some (hd leaders))
     \<and> (\<forall>i < length leaders. cache_get h' (slot + word_of_nat i) = Some (leaders ! i))"
proof -
  obtain c where c: "insert_leaders oc slot leaders (hr_cache h) = (Ret c :: ('b rpc_failure, _) outcome)"
    and win: "window_in slot leaders (hr_cache h) c"
    using insert_leaders_result [OF assms(8)] by blast
  let ?h = "h\<lparr>hr_cache := evict c\<rparr>"
  have ev: "evict c = c" using win assms(7) by (intro evict_small) (simp add: window_in_def)
  have fill: "fill_window api oc (h, w) slot = ((?h, w'), Ret ())"
    by (simp add: fill_window_def assms(3,5) c)
  have get: "\<forall>i < length leaders. cache_get ?h (slot + word_of_nat i) = Some (leaders ! i)"
    using win assms(3) by (simp add: window_in_def cache_get_def ev)
  then have "cache_get ?h slot = Some (hd leaders)"
    using assms(6) get [rule_format, of 0] by (simp add: hd_conv_nth)
  with get show ?thesis
    by (intro exI [of _ ?h]) (simp add: leader_for_slot_def assms(2,4) fill)
qed

text \<open>The reply \<open>leaders\<close> for the slots from \<open>slot\<close> on, over what the cache held before.\<close>

definition window_over :: "helius \<Rightarrow> u64 \<Rightarrow> bytes list \<Rightarrow> u64 \<Rightarrow> bytes option" where
  "window_over h slot leaders k =
    (if unat slot \<le> unat k \<and> unat k < unat slot + length leaders then Some (leaders ! (unat k - unat slot))
     else cache_get h k)"

text \<open>
  C39: What a fetched window leaves in the cache. After a miss and a reply \<open>leaders\<close> for the slots from
  \<open>slot\<close> on, the cache holds the reply over what it held before, except that an entry with
  \<open>MAX_CACHE_ENTRIES\<close> or more newer ones is gone; the answer is what the cache then holds for the slot.
  So a full cache of newer slots evicts what has just been fetched for the slot asked for, and the
  lookup answers that its leader is unknown.
\<close>

theorem full_cache_loses_window:
  fixes api :: "('w, 'j) rpc_api"
  assumes ok: "helius_inv (h, w)" and miss: "cache_get h slot = None"
    and sound: "\<not> hr_cache_poisoned h" and unheld: "\<not> hr_inflight_poisoned h"
    and fetch: "fetch_window api w (hr_url h) slot BATCH_SIZE = (w', Ret leaders)"
    and fit: "unat slot + length leaders \<le> 2 ^ 64"
  shows "\<exists>h'. leader_for_slot api oc (\<lambda>h. h) (h, w) slot = Ret ((h', w'), cache_get h' slot)
     \<and> (\<forall>k. cache_get h' k
           = (if card {k'. k < k' \<and> window_over h slot leaders k' \<noteq> None} < MAX_CACHE_ENTRIES
              then window_over h slot leaders k else None))
     \<and> (length (hr_cache h) = MAX_CACHE_ENTRIES \<and> (\<forall>k \<in> fst ` set (hr_cache h). slot < k)
          \<longrightarrow> cache_get h' slot = None)"
proof -
  obtain c where c: "insert_leaders oc slot leaders (hr_cache h) = (Ret c :: ('j rpc_failure, _) outcome)"
    and win: "window_in slot leaders (hr_cache h) c"
    using insert_leaders_result [OF fit] by blast
  let ?h = "h\<lparr>hr_cache := evict c\<rparr>" and ?fresh = "window_over h slot leaders"
  have run: "leader_for_slot api oc (\<lambda>h. h) (h, w) slot = Ret ((?h, w'), cache_get ?h slot)"
    by (simp add: leader_for_slot_def miss unheld fill_window_def sound fetch c)
  have dist: "distinct (map fst c)"
    using insert_leaders_wf [OF c] fetch_window_sizes [OF fetch] ok
    by (auto simp: helius_inv_def cache_wf_def)
  have get: "map_of c k = ?fresh k" for k
    using window_map [OF win fit] sound by (simp add: window_over_def cache_get_def)
  have cache: "cache_get ?h k = (if card {k'. k < k' \<and> ?fresh k' \<noteq> None} < MAX_CACHE_ENTRIES then ?fresh k else None)" for k
    using evict_get [OF dist, of k] by (simp add: cache_get_def sound get)
  have "cache_get ?h slot = None" if full: "length (hr_cache h) = MAX_CACHE_ENTRIES" "\<forall>k \<in> fst ` set (hr_cache h). slot < k"
  proof -
    have "fst ` set (hr_cache h) \<subseteq> {k'. slot < k' \<and> map_of c k' \<noteq> None}"
      using full(2) win by (auto simp: window_in_def map_of_eq_None_iff)
    moreover have "{k'. slot < k' \<and> map_of c k' \<noteq> None} \<subseteq> fst ` set c"
      by (auto simp: map_of_eq_None_iff)
    moreover have "card (fst ` set (hr_cache h)) = MAX_CACHE_ENTRIES"
      using ok full(1) distinct_card [of "map fst (hr_cache h)"] by (simp add: helius_inv_def cache_wf_def)
    ultimately have "MAX_CACHE_ENTRIES \<le> card {k'. slot < k' \<and> ?fresh k' \<noteq> None}"
      unfolding get [symmetric] by (metis (no_types, lifting) card_mono finite_imageI finite_set finite_subset)
    then show ?thesis by (simp add: cache)
  qed
  with run cache show ?thesis by blast
qed


section \<open>Witnesses\<close>

text \<open>A server that answers every request with one leader.\<close>

definition one_leader_api :: "(unit, unit) rpc_api" where
  "one_leader_api =
     \<lparr>json = \<lparr>j_get = (\<lambda>_ _. None), j_index = (\<lambda>v _. v), j_as_array = (\<lambda>v. Some [v]),
               j_as_str = (\<lambda>_. Some ''key'')\<rparr>,
      post = (\<lambda>w _ _ _. (w, Body ())), b58 = (\<lambda>_. Some (replicate 32 7))\<rparr>"

definition full_helius :: helius where
  "full_helius = (helius_new ''http'')
     \<lparr>hr_cache := map (\<lambda>i. (1 + word_of_nat i, replicate 32 0)) [0..<MAX_CACHE_ENTRIES]\<rparr>"

lemma one_leader_fetch:
  "fetch_window one_leader_api () url start count = ((), Ret [replicate 32 7])"
  by (simp add: fetch_window_def one_leader_api_def decode_leader_def)

lemma full_helius_inv: "helius_inv (full_helius, w)"
proof -
  have "inj_on (\<lambda>i. 1 + word_of_nat i :: u64) {0..<MAX_CACHE_ENTRIES}"
    using window_index_inj [where start = 1]
    by (intro linorder_inj_onI) (auto simp: MAX_CACHE_ENTRIES_def)
  then show ?thesis
    by (auto simp: helius_inv_def cache_wf_def full_helius_def comp_def distinct_map)
qed

lemma full_helius_keys: "\<forall>k \<in> fst ` set (hr_cache full_helius). 0 < k"
proof
  fix k assume "k \<in> fst ` set (hr_cache full_helius)"
  then obtain i where "i < MAX_CACHE_ENTRIES" and k: "k = 1 + word_of_nat i"
    by (auto simp: full_helius_def)
  then have "unat k = Suc i" by (simp add: MAX_CACHE_ENTRIES_def unat_word_ariths unat_of_nat)
  then show "0 < k" by (simp add: word_less_nat_alt)
qed

text \<open>
  A server that knows the leaders of all slots, the key of a slot being its low byte repeated. It answers
  two slots at a time; its JSON values are lists of slots.
\<close>

definition schedule_api :: "(unit, u64 list) rpc_api" where
  "schedule_api =
     \<lparr>json = \<lparr>j_get = (\<lambda>_ _. None), j_index = (\<lambda>v _. v), j_as_array = (\<lambda>v. Some (map (\<lambda>x. [x]) v)),
               j_as_str = (\<lambda>v. Some (replicate (unat (ucast (hd v) :: byte)) CHR ''x''))\<rparr>,
      post = (\<lambda>w _ _ ps. (w, Body [hd ps, hd ps + 1])),
      b58 = (\<lambda>s. Some (replicate 32 (word_of_nat (length s))))\<rparr>"

definition low_byte_key :: "u64 \<Rightarrow> bytes" where
  "low_byte_key slot = replicate 32 (ucast slot)"

lemma schedule_node: "honest_node schedule_api (\<lambda>_. True) url low_byte_key lo hi"
proof -
  have "fetch_window schedule_api () url start BATCH_SIZE = ((), Ret (map (\<lambda>i. low_byte_key (start + word_of_nat i)) [0..<2]))"
    for start by (simp add: fetch_window_def schedule_api_def decode_leader_def low_byte_key_def numeral_2_eq_2)
  then show ?thesis unfolding honest_node_def by (intro allI impI exI [of _ "()"] exI [of _ 2]) auto
qed

lemma schedule_serves: "in_service schedule_api (\<lambda>_. True) low_byte_key 0 1000 (helius_new url, ())"
  by (rule helius_new_serves [OF schedule_node]) (simp_all add: slots_fit_def MAX_CACHE_ENTRIES_def)

theorem helius_lookup_contract_witness:
  "length (replicate 32 0 :: bytes) = 32 \<and> helius_inv (full_helius, ())
   \<and> lookups (leader_for_slot one_leader_api True (\<lambda>h. h)) (replicate 3 1) (full_helius, ())
       = Ret ((full_helius, ()), replicate 3 (Some (replicate 32 0)))"
proof (rule helius_lookup_contract [OF full_helius_inv])
  have "map_of (hr_cache full_helius) 1 = Some (replicate 32 0)"
    by (simp add: full_helius_def MAX_CACHE_ENTRIES_def upt_conv_Cons [of 0])
  then show "leader_for_slot one_leader_api True (\<lambda>h. h) (full_helius, ()) 1
      = Ret ((full_helius, ()), Some (replicate 32 0))"
    by (simp add: leader_for_slot_def cache_get_def full_helius_def helius_new_def)
qed

theorem helius_answers_schedule_witness:
  "\<exists>s'. lookups (leader_for_slot schedule_api True (\<lambda>h. h)) [7, 8, 200, 7] (helius_new ''http'', ())
     = Ret (s', [Some (replicate 32 7), Some (replicate 32 8), Some (replicate 32 200), Some (replicate 32 7)])"
  using helius_answers_schedule [where w = "()" and ss = "[7, 8, 200, 7]" and oc = True and url = "''http''",
      OF schedule_node [of _ 0 1000]]
  by (simp add: slots_fit_def MAX_CACHE_ENTRIES_def low_byte_key_def)

theorem window_is_cached_witness:
  "\<exists>h'. leader_for_slot one_leader_api True (\<lambda>h. h) (helius_new ''http'', ()) 5
       = Ret ((h', ()), Some (replicate 32 7))
     \<and> (\<forall>i < 1. cache_get h' (5 + word_of_nat i) = Some ([replicate 32 7] ! i))"
  using window_is_cached [of "helius_new ''http''" "()" 5 one_leader_api "()" "[replicate 32 7]" True]
  by (simp add: one_leader_fetch helius_inv_def cache_wf_def helius_new_def cache_get_def
      MAX_CACHE_ENTRIES_def)

theorem full_cache_loses_window_witness:
  "\<exists>h'. leader_for_slot one_leader_api True (\<lambda>h. h) (full_helius, ()) 0 = Ret ((h', ()), cache_get h' 0)
     \<and> cache_get h' 0 = None"
proof -
  have "cache_get full_helius 0 = None"
    using full_helius_keys by (force simp: cache_get_def map_of_eq_None_iff)
  then obtain h' where "leader_for_slot one_leader_api True (\<lambda>h. h) (full_helius, ()) 0 = Ret ((h', ()), cache_get h' 0)"
    and "length (hr_cache full_helius) = MAX_CACHE_ENTRIES \<and> (\<forall>k \<in> fst ` set (hr_cache full_helius). 0 < k)
          \<longrightarrow> cache_get h' 0 = None"
    using full_cache_loses_window [OF full_helius_inv _ _ _ one_leader_fetch, where slot = 0 and oc = True]
    by (auto simp: full_helius_def helius_new_def)
  with full_helius_keys show ?thesis by (auto simp: full_helius_def)
qed

end
