(* ===== verification/Assembler.thy ===== *)
theory Assembler
  imports Rust_F64 Fec_Set Leader Rust_BTree
begin

text \<open>
  \<open>FecAssembler\<close> of \<open>crates/listener/src/lib.rs\<close>: shreds in, events out. The two \<open>HashMap\<close>s are maps,
  the two \<open>BTreeSet<u32>\<close>s are the ordered lists of \<open>Rust_BTree\<close>, \<open>f64\<close> confidences are those of \<open>Rust_F64\<close>, and the
  texts of \<open>Rejected\<close> are the constructors of \<open>reject_reason\<close>.
\<close>

section \<open>Events and state\<close>

record fec_key =
  fk_slot :: u64
  fk_index :: u32

datatype reject_reason =
    ParseFailed shred_error
  | NoLeader u64
  | VerifyFailed shred_error
  | RootDiverges
  | IndexOutOfRange nat
  | RsFailed reed_sol_error
  | RecvFailed string \<comment> \<open>sent by the UDP loop\<close>

datatype fec_event =
    Started fec_key bytes
  | ShredAccepted fec_key nat nat \<comment> \<open>key, shreds present, erasure shard index\<close>
  | Reconstructed fec_key bytes f64
  | SlotFinalized u64 "bytes list" bytes nat f64
      \<comment> \<open>slot, FEC roots, slot root, shreds observed, confidence\<close>
  | Rejected reject_reason

record fec_state =
  st_root :: "bytes option"
  st_leader_sig :: "bytes option"
  st_shards :: "bytes option list"
  st_distinct :: nat
  st_reconstructed :: bool
  st_das :: f64

definition fec_state_new :: fec_state where
  "fec_state_new =
     \<lparr>st_root = None, st_leader_sig = None, st_shards = replicate SHREDS_PER_FEC None,
      st_distinct = 0, st_reconstructed = False, st_das = 0\<rparr>"

record slot_state =
  ss_seen :: "u32 list"
  ss_reconstructed :: "u32 list"
  ss_last_seen :: bool
  ss_last_index :: "u32 option"
  ss_finalized :: bool

definition slot_state_default :: slot_state where
  "slot_state_default =
     \<lparr>ss_seen = [], ss_reconstructed = [], ss_last_seen = False, ss_last_index = None,
      ss_finalized = False\<rparr>"

record 's assembler =
  resolver :: 's
  states :: "fec_key \<rightharpoonup> fec_state"
  slots :: "u64 \<rightharpoonup> slot_state"

text \<open>What the assembler calls: hashing, signatures, the codec, the resolver, and the build profile.\<close>

record ('r, 's) listener_env =
  le_sha :: "bytes \<Rightarrow> bytes"
  le_ed :: ed_api
  le_rs :: "'r rs_api"
  le_resolve :: "'s resolver"
  le_oc :: bool

definition with_resolver :: "'s \<Rightarrow> 's assembler" where
  "with_resolver r = \<lparr>resolver = r, states = Map.empty, slots = Map.empty\<rparr>"

text \<open>\<open>FecAssembler::new\<close>: the resolver is \<open>static_leader\<close>, its state the key.\<close>

definition assembler_new :: "bytes \<Rightarrow> bytes assembler" where
  "assembler_new leader = with_resolver leader"

section \<open>Confidence and slot root\<close>

definition DATA_SHREDS_THRESHOLD :: nat where [simp]: "DATA_SHREDS_THRESHOLD = 32"

definition das_confidence :: "nat \<Rightarrow> f64" where
  "das_confidence n =
     (if DATA_SHREDS_THRESHOLD \<le> n then 1
      else f64_sub 1 (fold (\<lambda>k ratio. f64_mul ratio
             (f64_div (f64_sub 31 (f64_of_nat k)) (f64_sub 64 (f64_of_nat k)))) [0..<n] 1))"

fun agg_next :: "(bytes \<Rightarrow> bytes) \<Rightarrow> bytes list \<Rightarrow> bytes list" where
  "agg_next sha (a # b # rest) =
     sha (MERKLE_HASH_PREFIX_NODE @ take SIZE_OF_PROOF_ENTRY a @ take SIZE_OF_PROOF_ENTRY b)
     # agg_next sha rest"
| "agg_next sha [a] =
     [sha (MERKLE_HASH_PREFIX_NODE @ take SIZE_OF_PROOF_ENTRY a @ take SIZE_OF_PROOF_ENTRY a)]"
| "agg_next sha [] = []"

lemma agg_next_eq: "agg_next sha xs = next_level sha xs"
  by (induction sha xs rule: agg_next.induct) (simp_all add: node_hash_def)

interpretation agg: merkle_ladder "agg_next sha" "node_hash sha" for sha
  using tree.merkle_ladder_axioms by (simp add: agg_next_eq [abs_def])

function agg_loop :: "(bytes \<Rightarrow> bytes) \<Rightarrow> bytes list \<Rightarrow> bytes list" where
  "agg_loop sha layer = (if 1 < length layer then agg_loop sha (agg_next sha layer) else layer)"
  by pat_completeness auto
termination
  by (relation "measure (\<lambda>(sha, layer). length layer)") (auto intro: agg.up_shorter)

declare agg_loop.simps [simp del]

definition aggregate_root :: "(bytes \<Rightarrow> bytes) \<Rightarrow> bytes list \<Rightarrow> bytes" where
  "aggregate_root sha roots = (if roots = [] then replicate 32 0 else agg_loop sha roots ! 0)"

section \<open>Slot finalization\<close>

text \<open>The loop over the FEC sets of the slot: their roots, shred counts and undetected probability.\<close>

fun collect_sets ::
  "(fec_key \<rightharpoonup> fec_state) \<Rightarrow> u64 \<Rightarrow> u32 list \<Rightarrow> bytes list \<times> nat \<times> f64 \<Rightarrow> (bytes list \<times> nat \<times> f64) option" where
  "collect_sets sts slot [] acc = Some acc"
| "collect_sets sts slot (i # is) (roots, n, undetect) =
     (case sts \<lparr>fk_slot = slot, fk_index = i\<rparr> of
        None \<Rightarrow> None
      | Some st \<Rightarrow>
          (case st_root st of
             None \<Rightarrow> None
           | Some r \<Rightarrow> collect_sets sts slot is
               (roots @ [r], n + st_distinct st, f64_mul undetect (f64_sub 1 (st_das st)))))"

definition try_finalize_slot ::
  "(bytes \<Rightarrow> bytes) \<Rightarrow> 's assembler \<Rightarrow> u64 \<Rightarrow> 's assembler \<times> fec_event option" where
  "try_finalize_slot sha asm slot =
     (case slots asm slot of
        None \<Rightarrow> (asm, None)
      | Some ss \<Rightarrow>
          if ss_finalized ss then (asm, None)
          else if \<not> ss_last_seen ss then (asm, None)
          else
            (case ss_last_index ss of
               None \<Rightarrow> (asm, None)
             | Some last_idx \<Rightarrow>
                 let indices_to_check = filter (\<lambda>i. i \<le> last_idx) (ss_seen ss)
                 in if \<not> list_all (\<lambda>i. bt_contains prim_cmp i (ss_reconstructed ss)) indices_to_check
                    then (asm, None)
                    else if \<not> bt_contains prim_cmp last_idx (ss_seen ss) then (asm, None)
                    else
                      let asm = asm\<lparr>slots := (slots asm)(slot \<mapsto> ss\<lparr>ss_finalized := True\<rparr>)\<rparr>
                      in (asm,
                          case collect_sets (states asm) slot indices_to_check ([], 0, 1) of
                            None \<Rightarrow> None
                          | Some (roots, n, undetect) \<Rightarrow>
                              Some (SlotFinalized slot roots (aggregate_root sha roots) n
                                      (f64_sub 1 undetect)))))"

section \<open>Ingestion\<close>

text \<open>The slot bookkeeping done for every verified shred.\<close>

definition note_shred :: "verified_shred \<Rightarrow> slot_state \<Rightarrow> slot_state" where
  "note_shred v ss =
     (let ss = ss\<lparr>ss_seen := bt_insert prim_cmp (v_fec_set_index v) (ss_seen ss)\<rparr>
      in if is_last_in_slot v
         then ss\<lparr>ss_last_seen := True,
                 ss_last_index := Some (case ss_last_index ss of
                                          None \<Rightarrow> v_fec_set_index v
                                        | Some x \<Rightarrow> max x (v_fec_set_index v))\<rparr>
         else ss)"

definition slot_or_default :: "'s assembler \<Rightarrow> u64 \<Rightarrow> slot_state" where
  "slot_or_default asm slot =
     (case slots asm slot of None \<Rightarrow> slot_state_default | Some ss \<Rightarrow> ss)"

definition put_state :: "fec_key \<Rightarrow> fec_state \<Rightarrow> 's assembler \<Rightarrow> 's assembler" where
  "put_state key st asm = asm\<lparr>states := (states asm)(key \<mapsto> st)\<rparr>"

definition shard_offset :: "shred_kind \<Rightarrow> nat" where
  "shard_offset k = (case k of Data \<Rightarrow> SIZE_OF_SIGNATURE | Code \<Rightarrow> 89)"

text \<open>Step 4: reconstruction, once 32 shards are present.\<close>

definition try_reconstruct ::
  "('r, 's) listener_env \<Rightarrow> 's assembler \<Rightarrow> fec_key \<Rightarrow> fec_state \<Rightarrow> fec_event list
     \<Rightarrow> (unit, 's assembler \<times> fec_event list) outcome" where
  "try_reconstruct env asm key st events =
     obind (omap (rindex (st_shards st)) [0..<SHREDS_PER_FEC]) (\<lambda>shards.
     case reconstruct (le_rs env) shards of
       Panic \<Rightarrow> Panic
     | Fail e \<Rightarrow> Ret (put_state key st asm, events @ [Rejected (RsFailed e)])
     | Ret recovered \<Rightarrow>
         let das = das_confidence (st_distinct st);
             st = st\<lparr>st_reconstructed := True, st_das := das\<rparr>
         in
         obind (unwrap (st_root st)) (\<lambda>root.
         let events = events @ [Reconstructed key root das];
             ss = slot_or_default asm (fk_slot key);
             ss = ss\<lparr>ss_reconstructed := bt_insert prim_cmp (fk_index key) (ss_reconstructed ss)\<rparr>;
             asm = (put_state key st asm)\<lparr>slots := (slots asm)(fk_slot key \<mapsto> ss)\<rparr>;
             (asm, ev) = try_finalize_slot (le_sha env) asm (fk_slot key)
         in Ret (asm, events @ (case ev of None \<Rightarrow> [] | Some e \<Rightarrow> [e]))))"

text \<open>Step 3: the erasure shard is stored at its position, once.\<close>

definition add_shard ::
  "('r, 's) listener_env \<Rightarrow> 's assembler \<Rightarrow> fec_key \<Rightarrow> fec_state \<Rightarrow> bytes \<Rightarrow> parsed_shred
     \<Rightarrow> verified_shred \<Rightarrow> fec_event list \<Rightarrow> (unit, 's assembler \<times> fec_event list) outcome" where
  "add_shard env asm key st raw p v events =
     obind (rslice (shard_offset (v_kind v)) (shard_offset (v_kind v) + ERASURE_SHARD_SIZE) raw)
       (\<lambda>shard_bytes.
     let idx = p_erasure_shard_index p
     in if SHREDS_PER_FEC \<le> idx
        then Ret (put_state key st asm, events @ [Rejected (IndexOutOfRange idx)])
        else
     obind (rindex (st_shards st) idx) (\<lambda>slot.
     case slot of
       Some _ \<Rightarrow> Ret (put_state key st asm, events)
     | None \<Rightarrow>
         let st = st\<lparr>st_shards := (st_shards st)[idx := Some shard_bytes],
                    st_distinct := st_distinct st + 1\<rparr>;
             events = events @ [ShredAccepted key (st_distinct st) idx]
         in if DATA_SHREDS_THRESHOLD \<le> st_distinct st \<and> \<not> st_reconstructed st
            then try_reconstruct env asm key st events
            else Ret (put_state key st asm, events)))"

definition key_of :: "verified_shred \<Rightarrow> fec_key" where
  "key_of v = \<lparr>fk_slot = v_slot v, fk_index = v_fec_set_index v\<rparr>"

definition accept ::
  "('r, 's) listener_env \<Rightarrow> 's assembler \<Rightarrow> bytes \<Rightarrow> parsed_shred \<Rightarrow> verified_shred
     \<Rightarrow> (unit, 's assembler \<times> fec_event list) outcome" where
  "accept env asm raw p v =
     (let key = key_of v;
          st = (case states asm key of None \<Rightarrow> fec_state_new | Some st \<Rightarrow> st);
          ss = note_shred v (slot_or_default asm (v_slot v));
          asm = (put_state key st asm)\<lparr>slots := (slots asm)(v_slot v \<mapsto> ss)\<rparr>
      in if st_reconstructed st
         then (let (asm, ev) = try_finalize_slot (le_sha env) asm (v_slot v)
               in Ret (asm, case ev of None \<Rightarrow> [] | Some e \<Rightarrow> [e]))
         else
           (case st_root st of
              None \<Rightarrow> add_shard env asm key (st\<lparr>st_root := Some (v_merkle_root v)\<rparr>) raw p v
                        [Started key (v_merkle_root v)]
            | Some existing \<Rightarrow>
                if existing \<noteq> v_merkle_root v then Ret (asm, [Rejected RootDiverges])
                else add_shard env asm key st raw p v []))"

definition ingest ::
  "('r, 's) listener_env \<Rightarrow> 's assembler \<Rightarrow> bytes \<Rightarrow> (unit, 's assembler \<times> fec_event list) outcome" where
  "ingest env asm raw =
     (case parse_shred (le_oc env) raw of
        Panic \<Rightarrow> Panic
      | Fail e \<Rightarrow> Ret (asm, [Rejected (ParseFailed e)])
      | Ret p \<Rightarrow>
          obind (le_resolve env (resolver asm) (hdr_slot (header p))) (\<lambda>(rs, leader).
          let asm = asm\<lparr>resolver := rs\<rparr>
          in case leader of
               None \<Rightarrow> Ret (asm, [Rejected (NoLeader (hdr_slot (header p)))])
             | Some pk \<Rightarrow>
                 (case verify_shred (le_sha env) (le_ed env) (le_oc env) raw pk of
                    Panic \<Rightarrow> Panic
                  | Fail e \<Rightarrow> Ret (asm, [Rejected (VerifyFailed e)])
                  | Ret v \<Rightarrow> accept env asm raw p v)))"

text \<open>A sequence of datagrams, and all their events.\<close>

fun ingest_all ::
  "('r, 's) listener_env \<Rightarrow> bytes list \<Rightarrow> 's assembler \<Rightarrow> (unit, 's assembler \<times> fec_event list) outcome" where
  "ingest_all env [] asm = Ret (asm, [])"
| "ingest_all env (raw # raws) asm =
     obind (ingest env asm raw) (\<lambda>(asm, evs).
     obind (ingest_all env raws asm) (\<lambda>(asm, evs'). Ret (asm, evs @ evs')))"

end
