(* ===== verification/Fec_Machine.thy ===== *)
theory Fec_Machine
  imports Assembler
begin

text \<open>
  The life of one FEC set as a step relation, and the assembler as that machine plus the bookkeeping of
  the slot. \<open>set_step\<close> has one rule per branch of \<open>ingest\<close> after verification; \<open>accept_refines\<close> shows
  that \<open>accept\<close> takes exactly such a step and then settles the slot.
\<close>

section \<open>The machine of a set\<close>

definition open_set :: "bytes \<Rightarrow> fec_state \<Rightarrow> fec_state" where
  "open_set rt st = st\<lparr>st_root := Some rt\<rparr>"

definition opened_ev :: "fec_key \<Rightarrow> bytes \<Rightarrow> fec_state \<Rightarrow> fec_event list" where
  "opened_ev key rt st = (if st_root st = None then [Started key rt] else [])"

definition store :: "nat \<Rightarrow> bytes \<Rightarrow> fec_state \<Rightarrow> fec_state" where
  "store i b st = st\<lparr>st_shards := (st_shards st)[i := Some b], st_distinct := st_distinct st + 1\<rparr>"

definition rebuild :: "fec_state \<Rightarrow> fec_state" where
  "rebuild st = st\<lparr>st_reconstructed := True, st_das := das_confidence (st_distinct st)\<rparr>"

definition agrees :: "fec_state \<Rightarrow> bytes \<Rightarrow> bool" where
  "agrees st rt \<longleftrightarrow> \<not> st_reconstructed st \<and> (st_root st = None \<or> st_root st = Some rt)"

text \<open>A shred with root \<open>rt\<close>, position \<open>i\<close> and erasure bytes \<open>b\<close> arrives.\<close>

inductive set_step ::
  "'r rs_api \<Rightarrow> fec_key \<Rightarrow> bytes \<Rightarrow> nat \<Rightarrow> bytes \<Rightarrow> fec_state \<Rightarrow> fec_state \<Rightarrow> fec_event list \<Rightarrow> bool"
  for rs key rt i b where
  Done: "st_reconstructed st \<Longrightarrow> set_step rs key rt i b st st []"
| Diverges: "\<not> st_reconstructed st \<Longrightarrow> st_root st = Some r \<Longrightarrow> r \<noteq> rt \<Longrightarrow>
    set_step rs key rt i b st st [Rejected RootDiverges]"
| Range: "agrees st rt \<Longrightarrow> 64 \<le> i \<Longrightarrow>
    set_step rs key rt i b st (open_set rt st) (opened_ev key rt st @ [Rejected (IndexOutOfRange i)])"
| Duplicate: "agrees st rt \<Longrightarrow> i < 64 \<Longrightarrow> st_shards st ! i \<noteq> None \<Longrightarrow>
    set_step rs key rt i b st (open_set rt st) (opened_ev key rt st)"
| Stored: "agrees st rt \<Longrightarrow> i < 64 \<Longrightarrow> st_shards st ! i = None \<Longrightarrow> Suc (st_distinct st) < 32 \<Longrightarrow>
    set_step rs key rt i b st (store i b (open_set rt st))
      (opened_ev key rt st @ [ShredAccepted key (Suc (st_distinct st)) i])"
| Rebuilt: "agrees st rt \<Longrightarrow> i < 64 \<Longrightarrow> st_shards st ! i = None \<Longrightarrow> 32 \<le> Suc (st_distinct st) \<Longrightarrow>
    reconstruct rs ((st_shards st)[i := Some b]) = Ret recovered \<Longrightarrow>
    set_step rs key rt i b st (rebuild (store i b (open_set rt st)))
      (opened_ev key rt st @ [ShredAccepted key (Suc (st_distinct st)) i,
         Reconstructed key rt (das_confidence (Suc (st_distinct st)))])"
| Failed: "agrees st rt \<Longrightarrow> i < 64 \<Longrightarrow> st_shards st ! i = None \<Longrightarrow> 32 \<le> Suc (st_distinct st) \<Longrightarrow>
    reconstruct rs ((st_shards st)[i := Some b]) = Fail e \<Longrightarrow>
    set_step rs key rt i b st (store i b (open_set rt st))
      (opened_ev key rt st @ [ShredAccepted key (Suc (st_distinct st)) i, Rejected (RsFailed e)])"

inductive_cases set_stepE: "set_step rs key rt i b st st' evs"

lemma open_set_simps [simp]:
  "st_shards (open_set rt st) = st_shards st" "st_distinct (open_set rt st) = st_distinct st"
  "st_reconstructed (open_set rt st) = st_reconstructed st" "st_root (open_set rt st) = Some rt"
  "st_das (open_set rt st) = st_das st"
  by (simp_all add: open_set_def)

lemma open_set_same: "st_root st = Some rt \<Longrightarrow> open_set rt st = st"
  by (simp add: open_set_def)

lemma store_simps [simp]:
  "st_shards (store i b st) = (st_shards st)[i := Some b]" "st_distinct (store i b st) = Suc (st_distinct st)"
  "st_reconstructed (store i b st) = st_reconstructed st" "st_root (store i b st) = st_root st"
  "st_das (store i b st) = st_das st"
  by (simp_all add: store_def)

lemma rebuild_simps [simp]:
  "st_shards (rebuild st) = st_shards st" "st_distinct (rebuild st) = st_distinct st"
  "st_reconstructed (rebuild st)" "st_root (rebuild st) = st_root st"
  "st_das (rebuild st) = das_confidence (st_distinct st)"
  by (simp_all add: rebuild_def)

lemma das_confidence_threshold [simp]: "32 \<le> n \<Longrightarrow> das_confidence n = 1"
  by (simp add: das_confidence_def)

section \<open>Well-formed sets\<close>

definition fec_wf :: "fec_state \<Rightarrow> bool" where
  "fec_wf st \<longleftrightarrow> length (st_shards st) = 64 \<and> st_distinct st = length (present (st_shards st))
     \<and> same_size 987 (present (st_shards st))
     \<and> (st_reconstructed st \<longrightarrow> 32 \<le> st_distinct st \<and> st_root st \<noteq> None \<and> st_das st = 1)"

lemma present_simps [simp]:
  "present [] = []" "present (None # xs) = present xs" "present (Some x # xs) = x # present xs"
  by (simp_all add: present_def List.map_filter_simps)

lemma present_append [simp]: "present (xs @ ys) = present xs @ present ys"
  by (induction xs) (auto simp: present_def List.map_filter_simps split: option.splits)

lemma present_replicate [simp]: "present (replicate n None) = []"
  by (induction n) auto

lemma present_update:
  assumes "i < length xs" and "xs ! i = None"
  shows "length (present (xs[i := Some b])) = Suc (length (present xs))"
    and "set (present (xs[i := Some b])) = insert b (set (present xs))"
proof -
  have "xs = take i xs @ None # drop (Suc i) xs"
    using assms by (metis id_take_nth_drop)
  moreover have "xs[i := Some b] = take i xs @ Some b # drop (Suc i) xs"
    using assms by (simp add: upd_conv_take_nth_drop)
  ultimately obtain us vs where "xs = us @ None # vs" "xs[i := Some b] = us @ Some b # vs" by blast
  then show "length (present (xs[i := Some b])) = Suc (length (present xs))"
    and "set (present (xs[i := Some b])) = insert b (set (present xs))"
    by auto
qed

lemma fec_wf_new: "fec_wf fec_state_new"
  by (simp add: fec_wf_def fec_state_new_def same_size_def)

lemma fec_wf_store:
  assumes "fec_wf st" and "\<not> st_reconstructed st" and "i < 64" and "st_shards st ! i = None"
    and "length b = 987"
  shows "fec_wf (store i b (open_set rt st))"
  using assms present_update [of i "st_shards st" b] by (simp add: fec_wf_def same_size_def)

lemma set_step_wf:
  assumes "set_step rs key rt i b st st' evs" and "fec_wf st" and "length b = 987"
  shows "fec_wf st'"
  using assms
proof (cases rule: set_step.cases)
  case (Rebuilt recovered)
  with assms have "fec_wf (store i b (open_set rt st))" by (simp add: fec_wf_store agrees_def)
  with Rebuilt show ?thesis by (simp add: fec_wf_def)
qed (auto simp: fec_wf_store agrees_def, auto simp: fec_wf_def)


section \<open>Well-formed assemblers\<close>

abbreviation fkey :: "u64 \<Rightarrow> u32 \<Rightarrow> fec_key" where
  "fkey slot i \<equiv> \<lparr>fk_slot = slot, fk_index = i\<rparr>"

definition slot_wf :: "(fec_key \<rightharpoonup> fec_state) \<Rightarrow> u64 \<Rightarrow> slot_state \<Rightarrow> bool" where
  "slot_wf sts slot ss \<longleftrightarrow>
     bt_ordered prim_cmp (ss_seen ss) \<and> bt_ordered prim_cmp (ss_reconstructed ss)
     \<and> (\<forall>i. i \<in> set (ss_seen ss) \<longleftrightarrow> sts (fkey slot i) \<noteq> None)
     \<and> (\<forall>i. i \<in> set (ss_reconstructed ss) \<longleftrightarrow>
          (\<exists>st. sts (fkey slot i) = Some st \<and> st_reconstructed st))
     \<and> (ss_last_seen ss \<longleftrightarrow> ss_last_index ss \<noteq> None)
     \<and> (\<forall>l. ss_last_index ss = Some l \<longrightarrow> l \<in> set (ss_seen ss))"

definition asm_wf :: "'s assembler \<Rightarrow> bool" where
  "asm_wf asm \<longleftrightarrow> (\<forall>key st. states asm key = Some st \<longrightarrow> fec_wf st)
     \<and> (\<forall>slot. slot_wf (states asm) slot (slot_or_default asm slot))"

definition state_or_new :: "'s assembler \<Rightarrow> fec_key \<Rightarrow> fec_state" where
  "state_or_new asm key = (case states asm key of None \<Rightarrow> fec_state_new | Some st \<Rightarrow> st)"

definition shard_of :: "verified_shred \<Rightarrow> bytes \<Rightarrow> bytes" where
  "shard_of v raw = slice (shard_offset (v_kind v)) (shard_offset (v_kind v) + 987) raw"

definition fin_events :: "fec_event option \<Rightarrow> fec_event list" where
  "fin_events ev = (case ev of None \<Rightarrow> [] | Some e \<Rightarrow> [e])"

text \<open>The bookkeeping of the slot after the set has moved to the state \<open>st\<close>.\<close>

definition settled_slot :: "verified_shred \<Rightarrow> fec_state \<Rightarrow> 's assembler \<Rightarrow> slot_state" where
  "settled_slot v st asm =
     (let ss = note_shred v (slot_or_default asm (v_slot v))
      in if st_reconstructed st
         then ss\<lparr>ss_reconstructed := bt_insert prim_cmp (v_fec_set_index v) (ss_reconstructed ss)\<rparr>
         else ss)"

definition settled :: "verified_shred \<Rightarrow> fec_state \<Rightarrow> 's assembler \<Rightarrow> 's assembler" where
  "settled v st asm =
     (put_state (key_of v) st asm)\<lparr>slots := (slots asm)(v_slot v \<mapsto> settled_slot v st asm)\<rparr>"

definition settle ::
  "(bytes \<Rightarrow> bytes) \<Rightarrow> verified_shred \<Rightarrow> fec_state \<Rightarrow> 's assembler \<Rightarrow> 's assembler \<times> fec_event option" where
  "settle sha v st asm =
     (if st_reconstructed st then try_finalize_slot sha (settled v st asm) (v_slot v)
      else (settled v st asm, None))"

lemma state_or_new_wf: "asm_wf asm \<Longrightarrow> fec_wf (state_or_new asm key)"
  by (auto simp: asm_wf_def state_or_new_def fec_wf_new split: option.splits)

lemma note_shred_simps [simp]:
  "ss_seen (note_shred v ss) = bt_insert prim_cmp (v_fec_set_index v) (ss_seen ss)"
  "ss_reconstructed (note_shred v ss) = ss_reconstructed ss"
  "ss_finalized (note_shred v ss) = ss_finalized ss"
  by (simp_all add: note_shred_def Let_def)

lemma put_state_simps [simp]:
  "states (put_state key st asm) = (states asm)(key \<mapsto> st)"
  "slots (put_state key st asm) = slots asm" "resolver (put_state key st asm) = resolver asm"
  "put_state key st (asm\<lparr>slots := m\<rparr>) = (put_state key st asm)\<lparr>slots := m\<rparr>"
  "put_state key st (put_state key st' asm) = put_state key st asm"
  by (simp_all add: put_state_def)

lemma key_of_simps [simp]: "fk_slot (key_of v) = v_slot v" "fk_index (key_of v) = v_fec_set_index v"
  by (simp_all add: key_of_def)

lemma omap_rindex: "length xs = n \<Longrightarrow> omap (rindex xs) [0..<n] = Ret xs"
proof -
  assume "length xs = n"
  then have "omap (rindex xs) [0..<n] = Ret (map ((!) xs) [0..<n])"
    by (intro omap_Ret) (simp add: rindex_def)
  with \<open>length xs = n\<close> show ?thesis using map_nth [of xs] by simp
qed

section \<open>\<open>accept\<close> refines the machine\<close>

definition deliver ::
  "('r, 's) listener_env \<Rightarrow> verified_shred \<Rightarrow> 's assembler \<Rightarrow> fec_state \<Rightarrow> fec_event list
     \<Rightarrow> (unit, 's assembler \<times> fec_event list) outcome" where
  "deliver env v asm st evs =
     (let (asm', fin) = settle (le_sha env) v st asm in Ret (asm', evs @ fin_events fin))"

lemma deliver_open:
  "\<not> st_reconstructed st \<Longrightarrow> deliver env v asm st evs = Ret (settled v st asm, evs)"
  by (simp add: deliver_def settle_def fin_events_def)

lemma settled_open:
  "\<not> st_reconstructed st \<Longrightarrow>
     settled v st asm = (put_state (key_of v) st asm)
       \<lparr>slots := (slots asm)(v_slot v \<mapsto> note_shred v (slot_or_default asm (v_slot v)))\<rparr>"
  by (simp add: settled_def settled_slot_def)

lemma note_shred_same [simp]: "(note_shred v ss)\<lparr>ss_reconstructed := ss_reconstructed ss\<rparr> = note_shred v ss"
  by (simp add: note_shred_def Let_def)

lemma settled_known:
  assumes "asm_wf asm" and "st_reconstructed (state_or_new asm (key_of v))"
  shows "settled v (state_or_new asm (key_of v)) asm = (put_state (key_of v) (state_or_new asm (key_of v)) asm)
       \<lparr>slots := (slots asm)(v_slot v \<mapsto> note_shred v (slot_or_default asm (v_slot v)))\<rparr>"
proof -
  have "states asm (key_of v) = Some (state_or_new asm (key_of v))"
    using assms(2) by (auto simp: state_or_new_def fec_state_new_def split: option.splits)
  then have "v_fec_set_index v \<in> set (ss_reconstructed (slot_or_default asm (v_slot v)))"
    and "bt_ordered prim_cmp (ss_reconstructed (slot_or_default asm (v_slot v)))"
    using assms by (auto simp: asm_wf_def slot_wf_def key_of_def)
  then show ?thesis using assms(2) by (simp add: settled_def settled_slot_def Let_def)
qed

lemma try_reconstruct_eq:
  assumes "length (st_shards st) = 64" and "st_root st = Some rt"
    and "asm = (put_state (key_of v) st0 asm0)
       \<lparr>slots := (slots asm0)(v_slot v \<mapsto> note_shred v (slot_or_default asm0 (v_slot v)))\<rparr>"
  shows "try_reconstruct env asm (key_of v) st evs =
     (case reconstruct (le_rs env) (st_shards st) of
        Panic \<Rightarrow> Panic
      | Fail e \<Rightarrow> Ret (put_state (key_of v) st asm, evs @ [Rejected (RsFailed e)])
      | Ret _ \<Rightarrow> deliver env v asm0 (rebuild st)
                  (evs @ [Reconstructed (key_of v) rt (das_confidence (st_distinct st))]))"
proof -
  have slot: "slot_or_default asm (v_slot v) = note_shred v (slot_or_default asm0 (v_slot v))"
    by (simp add: assms(3) slot_or_default_def)
  have "(put_state (key_of v) (rebuild st) asm)\<lparr>slots := (slots asm)(v_slot v \<mapsto>
        (note_shred v (slot_or_default asm0 (v_slot v)))\<lparr>ss_reconstructed :=
           bt_insert prim_cmp (v_fec_set_index v)
             (ss_reconstructed (slot_or_default asm0 (v_slot v)))\<rparr>)\<rparr>
      = settled v (rebuild st) asm0"
    by (simp add: assms(3) settled_def settled_slot_def Let_def)
  note settled = this
  show ?thesis
  proof (cases "reconstruct (le_rs env) (st_shards st)")
    case (Ret recovered)
    obtain asm' fin where "try_finalize_slot (le_sha env) (settled v (rebuild st) asm0) (v_slot v)
        = (asm', fin)"
      by fastforce
    with Ret assms(1,2) settled show ?thesis
      by (simp add: try_reconstruct_def omap_rindex deliver_def settle_def slot rebuild_def [symmetric]
          fin_events_def)
  qed (use assms(1) in \<open>simp_all add: try_reconstruct_def omap_rindex\<close>)
qed


lemma add_shard_eq:
  assumes "length (st_shards st) = 64" and "st_root st = Some rt" and "\<not> st_reconstructed st"
    and asm: "asm = (put_state (key_of v) st0 asm0)
       \<lparr>slots := (slots asm0)(v_slot v \<mapsto> note_shred v (slot_or_default asm0 (v_slot v)))\<rparr>"
    and "shard_offset (v_kind v) + 987 \<le> length raw"
  shows "add_shard env asm (key_of v) st raw p v evs =
     (let i = p_erasure_shard_index p; b = shard_of v raw; st' = store i b st;
          evs' = evs @ [ShredAccepted (key_of v) (Suc (st_distinct st)) i]
      in if 64 \<le> i then deliver env v asm0 st (evs @ [Rejected (IndexOutOfRange i)])
         else if st_shards st ! i \<noteq> None then deliver env v asm0 st evs
         else if Suc (st_distinct st) < 32 then deliver env v asm0 st' evs'
         else
           (case reconstruct (le_rs env) ((st_shards st)[i := Some b]) of
              Panic \<Rightarrow> Panic
            | Fail e \<Rightarrow> deliver env v asm0 st' (evs' @ [Rejected (RsFailed e)])
            | Ret _ \<Rightarrow> deliver env v asm0 (rebuild st')
                        (evs' @ [Reconstructed (key_of v) rt (das_confidence (Suc (st_distinct st)))])))"
proof -
  let ?i = "p_erasure_shard_index p" and ?b = "shard_of v raw"
  have b: "rslice (shard_offset (v_kind v)) (shard_offset (v_kind v) + 987) raw = Ret ?b"
    using assms(5) by (simp add: rslice_def shard_of_def)
  have here: "Ret (put_state (key_of v) s asm, es) = deliver env v asm0 s es"
    if "\<not> st_reconstructed s" for s es
    using that by (simp add: deliver_open settled_open asm)
  have new: "st\<lparr>st_shards := (st_shards st)[?i := Some ?b], st_distinct := Suc (st_distinct st)\<rparr>
      = store ?i ?b st"
    by (simp add: store_def)
  show ?thesis
  proof (cases "?i < 64 \<and> st_shards st ! ?i = None")
    case True
    have "try_reconstruct env asm (key_of v) (store ?i ?b st) es =
       (case reconstruct (le_rs env) ((st_shards st)[?i := Some ?b]) of
          Panic \<Rightarrow> Panic
        | Fail e \<Rightarrow> deliver env v asm0 (store ?i ?b st) (es @ [Rejected (RsFailed e)])
        | Ret _ \<Rightarrow> deliver env v asm0 (rebuild (store ?i ?b st))
            (es @ [Reconstructed (key_of v) rt (das_confidence (Suc (st_distinct st)))]))" for es
      using assms(1-3) here [of "store ?i ?b st"]
      by (subst try_reconstruct_eq [OF _ _ asm, of _ rt]) (simp_all split: outcome.splits)
    with True assms(1-3) show ?thesis
      by (simp add: add_shard_def b outcome_simps Let_def new here not_le)
  next
    case False
    with assms(1-3) show ?thesis
      by (auto simp: add_shard_def b outcome_simps Let_def here not_le)
  qed
qed

lemma add_shard_refines:
  assumes st: "st = state_or_new asm (key_of v)" "length (st_shards st) = 64"
    and agrees: "agrees st (v_merkle_root v)" and idx: "p_erasure_shard_index p = i"
    and len: "shard_offset (v_kind v) + 987 \<le> length raw" and no_panic: "\<And>xs. reconstruct (le_rs env) xs \<noteq> Panic"
  shows "\<exists>st' evs. add_shard env
        ((put_state (key_of v) st asm)\<lparr>slots := (slots asm)(v_slot v \<mapsto> note_shred v (slot_or_default asm (v_slot v)))\<rparr>)
        (key_of v) (open_set (v_merkle_root v) st) raw p v (opened_ev (key_of v) (v_merkle_root v) st)
      = deliver env v asm st' evs
     \<and> set_step (le_rs env) (key_of v) (v_merkle_root v) i (shard_of v raw) st st' evs"
proof -
  let ?key = "key_of v" and ?rt = "v_merkle_root v" and ?b = "shard_of v raw" and ?st = st
  have not_done: "\<not> st_reconstructed ?st" using agrees by (simp add: agrees_def)
  note eq = add_shard_eq [where st = "open_set ?rt ?st" and rt = ?rt
      and asm = "(put_state ?key ?st asm)\<lparr>slots := (slots asm)(v_slot v \<mapsto> note_shred v (slot_or_default asm (v_slot v)))\<rparr>"
      and v = v and p = p and ?st0.0 = ?st and ?asm0.0 = asm, unfolded open_set_simps, OF st(2) refl not_done refl len,
      unfolded idx Let_def]
  consider "64 \<le> i" | "i < 64" "st_shards ?st ! i \<noteq> None"
    | "i < 64" "st_shards ?st ! i = None" "Suc (st_distinct ?st) < 32"
    | "i < 64" "st_shards ?st ! i = None" "32 \<le> Suc (st_distinct ?st)"
    by linarith
  then show ?thesis
  proof cases
    case 1
    then show ?thesis
      unfolding eq by simp (intro exI conjI, rule refl, rule set_step.Range [OF agrees])
  next
    case 2
    then show ?thesis
      unfolding eq by simp (intro exI conjI, rule refl, intro set_step.Duplicate agrees, simp_all)
  next
    case 3
    then show ?thesis
      unfolding eq by simp (intro exI conjI, rule refl, intro set_step.Stored agrees, simp_all)
  next
    case 4
    show ?thesis
    proof (cases "reconstruct (le_rs env) ((st_shards ?st)[i := Some ?b])")
      case (Ret recovered)
      with 4 show ?thesis
        unfolding eq by (simp del: das_confidence_threshold)
          (intro exI conjI, rule refl, intro set_step.Rebuilt agrees, simp_all)
    next
      case (Fail e)
      with 4 show ?thesis
        unfolding eq by simp (intro exI conjI, rule refl, intro set_step.Failed agrees, simp_all)
    qed (use no_panic in simp)
  qed
qed

lemma accept_refines:
  assumes wf: "asm_wf asm" and idx: "p_erasure_shard_index p = i"
    and len: "shard_offset (v_kind v) + 987 \<le> length raw"
    and no_panic: "\<And>xs. reconstruct (le_rs env) xs \<noteq> Panic"
  shows "\<exists>st' evs. accept env asm raw p v = deliver env v asm st' evs
     \<and> set_step (le_rs env) (key_of v) (v_merkle_root v) i (shard_of v raw)
         (state_or_new asm (key_of v)) st' evs"
proof -
  let ?key = "key_of v" and ?rt = "v_merkle_root v" and ?b = "shard_of v raw"
  let ?st = "state_or_new asm (key_of v)" and ?ss = "note_shred v (slot_or_default asm (v_slot v))"
  let ?asm = "(put_state ?key ?st asm)\<lparr>slots := (slots asm)(v_slot v \<mapsto> ?ss)\<rparr>"
  let ?step = "set_step (le_rs env) ?key ?rt i ?b ?st"
  have st: "(case states asm ?key of None \<Rightarrow> fec_state_new | Some st \<Rightarrow> st) = ?st"
    by (simp add: state_or_new_def)
  have fw: "length (st_shards ?st) = 64" using state_or_new_wf [OF wf] by (simp add: fec_wf_def)
  consider (known) "st_reconstructed ?st"
    | (diverges) r where "\<not> st_reconstructed ?st" "st_root ?st = Some r" "r \<noteq> ?rt"
    | (agrees) "agrees ?st ?rt"
    unfolding agrees_def by (cases "st_root ?st") blast+
  then show ?thesis
  proof cases
    case known
    then have "accept env asm raw p v = deliver env v asm ?st []"
      by (simp add: accept_def st deliver_def settle_def settled_known [OF wf] fin_events_def Let_def)
    with set_step.Done [OF known] show ?thesis by blast
  next
    case diverges
    then have "accept env asm raw p v = deliver env v asm ?st [Rejected RootDiverges]"
      by (simp add: accept_def st deliver_open settled_open Let_def)
    with set_step.Diverges [OF diverges] show ?thesis by blast
  next
    case agrees
    then have "accept env asm raw p v = add_shard env ?asm ?key (open_set ?rt ?st) raw p v (opened_ev ?key ?rt ?st)"
      by (auto simp: accept_def st agrees_def opened_ev_def open_set_same open_set_def [symmetric] Let_def)
    with add_shard_refines [OF refl fw agrees idx len no_panic] show ?thesis by simp
  qed
qed

end
