(* ===== verification/Listener_Spec.thy ===== *)
theory Listener_Spec
  imports Fec_Machine
begin

text \<open>
  What the assembler guarantees: its invariant, the soundness of every \<open>Reconstructed\<close> and
  \<open>SlotFinalized\<close> event, their uniqueness, and delivery from any 32 shreds of a built set.
\<close>

section \<open>Finalization\<close>

text \<open>Two assemblers that differ only in \<open>finalized\<close> flags.\<close>

definition unflagged :: "slot_state \<Rightarrow> slot_state" where
  "unflagged ss = ss\<lparr>ss_finalized := False\<rparr>"

definition slots_similar :: "'s assembler \<Rightarrow> 's assembler \<Rightarrow> bool" where
  "slots_similar asm asm' \<longleftrightarrow> states asm' = states asm \<and> resolver asm' = resolver asm
     \<and> (\<forall>slot. unflagged (slot_or_default asm' slot) = unflagged (slot_or_default asm slot))"

lemma slots_similar_refl [simp]: "slots_similar asm asm"
  by (simp add: slots_similar_def)

lemma slot_wf_unflagged: "slot_wf sts slot ss \<longleftrightarrow> slot_wf sts slot (unflagged ss)"
  by (simp add: slot_wf_def unflagged_def)

lemma slots_similar_wf: "slots_similar asm asm' \<Longrightarrow> asm_wf asm \<Longrightarrow> asm_wf asm'"
  unfolding slots_similar_def asm_wf_def by (metis slot_wf_unflagged)

text \<open>When a slot is finalized now: the conditions the code checks.\<close>

definition checked_sets :: "slot_state \<Rightarrow> u32 \<Rightarrow> u32 list" where
  "checked_sets ss l = filter (\<lambda>i. i \<le> l) (ss_seen ss)"

definition ready :: "slot_state \<Rightarrow> u32 \<Rightarrow> bool" where
  "ready ss l \<longleftrightarrow> \<not> ss_finalized ss \<and> ss_last_seen ss \<and> ss_last_index ss = Some l
     \<and> set (checked_sets ss l) \<subseteq> set (ss_reconstructed ss) \<and> l \<in> set (ss_seen ss)"

lemma collect_sets_total:
  assumes "\<forall>i \<in> set is. sts (fkey slot i) = Some (st i) \<and> st_root (st i) = Some (rt i)"
  shows "collect_sets sts slot is (roots, n, u) =
     Some (roots @ map rt is, n + (\<Sum>i \<leftarrow> is. st_distinct (st i)),
       fold (\<lambda>i u. f64_mul u (f64_sub 1 (st_das (st i)))) is u)"
  using assms by (induction "is" arbitrary: roots n u) (auto simp: add.assoc)

definition finalize_flag :: "u64 \<Rightarrow> slot_state \<Rightarrow> 's assembler \<Rightarrow> 's assembler" where
  "finalize_flag slot ss asm = asm\<lparr>slots := (slots asm)(slot \<mapsto> ss\<lparr>ss_finalized := True\<rparr>)\<rparr>"

lemma try_finalize_not_ready:
  assumes "\<And>ss l. slots asm slot = Some ss \<Longrightarrow> \<not> ready ss l"
  shows "try_finalize_slot sha asm slot = (asm, None)"
  using assms
  by (auto simp: try_finalize_slot_def ready_def checked_sets_def list_all_iff Let_def
      split: option.splits)

lemma try_finalize_ready:
  assumes "slots asm slot = Some ss" and "ready ss l"
  shows "try_finalize_slot sha asm slot =
     (finalize_flag slot ss asm,
      map_option (\<lambda>(roots, n, u). SlotFinalized slot roots (aggregate_root sha roots) n (f64_sub 1 u))
        (collect_sets (states asm) slot (checked_sets ss l) ([], 0, 1)))"
  using assms
  by (auto simp: try_finalize_slot_def ready_def checked_sets_def list_all_iff Let_def
      finalize_flag_def split: option.splits)

lemma try_finalize_cases:
  obtains (Not) "try_finalize_slot sha asm slot = (asm, None)"
    "\<And>ss l. slots asm slot = Some ss \<Longrightarrow> \<not> ready ss l"
  | (Ready) ss l where "slots asm slot = Some ss" "ready ss l"
      "try_finalize_slot sha asm slot =
         (finalize_flag slot ss asm,
          map_option (\<lambda>(roots, n, u). SlotFinalized slot roots (aggregate_root sha roots) n (f64_sub 1 u))
            (collect_sets (states asm) slot (checked_sets ss l) ([], 0, 1)))"
proof (cases "\<exists>ss l. slots asm slot = Some ss \<and> ready ss l")
  case True
  then obtain ss l where "slots asm slot = Some ss" "ready ss l" by blast
  then show ?thesis using try_finalize_ready that(2) by blast
next
  case False
  then have "\<And>ss l. slots asm slot = Some ss \<Longrightarrow> \<not> ready ss l" by blast
  then show ?thesis using try_finalize_not_ready that(1) by blast
qed

lemma finalize_flag_simps [simp]:
  "states (finalize_flag slot ss asm) = states asm"
  "resolver (finalize_flag slot ss asm) = resolver asm"
  "slots (finalize_flag slot ss asm) = (slots asm)(slot \<mapsto> ss\<lparr>ss_finalized := True\<rparr>)"
  by (simp_all add: finalize_flag_def)

lemma try_finalize_similar:
  assumes "try_finalize_slot sha asm slot = (asm', ev)"
  shows "slots_similar asm asm'"
  by (cases sha asm slot rule: try_finalize_cases)
    (use assms in \<open>auto simp: slots_similar_def slot_or_default_def unflagged_def\<close>)


section \<open>The invariant is kept\<close>

lemma slot_or_default_settled:
  "slot_or_default (settled v st asm) slot =
     (if slot = v_slot v then settled_slot v st asm else slot_or_default asm slot)"
  by (simp add: settled_def slot_or_default_def)

lemma settled_simps [simp]:
  "states (settled v st asm) = (states asm)(key_of v \<mapsto> st)"
  "resolver (settled v st asm) = resolver asm"
  by (simp_all add: settled_def)

lemma settled_slot_simps [simp]:
  "ss_seen (settled_slot v st asm)
     = bt_insert prim_cmp (v_fec_set_index v) (ss_seen (slot_or_default asm (v_slot v)))"
  "ss_reconstructed (settled_slot v st asm) =
     (if st_reconstructed st
      then bt_insert prim_cmp (v_fec_set_index v) (ss_reconstructed (slot_or_default asm (v_slot v)))
      else ss_reconstructed (slot_or_default asm (v_slot v)))"
  "ss_last_seen (settled_slot v st asm) = ss_last_seen (note_shred v (slot_or_default asm (v_slot v)))"
  "ss_last_index (settled_slot v st asm) = ss_last_index (note_shred v (slot_or_default asm (v_slot v)))"
  "ss_finalized (settled_slot v st asm) = ss_finalized (slot_or_default asm (v_slot v))"
  by (simp_all add: settled_slot_def Let_def)

lemma note_shred_last [simp]:
  "ss_last_seen (note_shred v ss) \<longleftrightarrow> ss_last_seen ss \<or> is_last_in_slot v"
  "ss_last_index (note_shred v ss) =
     (if is_last_in_slot v
      then Some (case ss_last_index ss of None \<Rightarrow> v_fec_set_index v | Some x \<Rightarrow> max x (v_fec_set_index v))
      else ss_last_index ss)"
  by (simp_all add: note_shred_def Let_def)

lemma set_step_keeps_done: "set_step rs key rt i b st st' evs \<Longrightarrow> st_reconstructed st \<Longrightarrow> st' = st"
  by (erule set_step.cases) (auto simp: agrees_def)

lemma state_or_new_done:
  "states asm key = Some st \<Longrightarrow> state_or_new asm key = st"
  "states asm key = None \<Longrightarrow> \<not> st_reconstructed (state_or_new asm key)"
  by (simp_all add: state_or_new_def fec_state_new_def)

lemma settled_wf:
  assumes wf: "asm_wf asm" and st': "fec_wf st'"
    and mono: "st_reconstructed (state_or_new asm (key_of v)) \<Longrightarrow> st_reconstructed st'"
  shows "asm_wf (settled v st' asm)"
proof -
  let ?sts = "(states asm)(key_of v \<mapsto> st')"
  have other: "slot_wf ?sts slot (slot_or_default asm slot)" if "slot \<noteq> v_slot v" for slot
  proof -
    have "slot_wf (states asm) slot (slot_or_default asm slot)" using wf by (simp add: asm_wf_def)
    moreover have "?sts (fkey slot i) = states asm (fkey slot i)" for i using that by (simp add: key_of_def)
    then have "slot_wf ?sts slot ss = slot_wf (states asm) slot ss" for ss by (simp only: slot_wf_def)
    ultimately show ?thesis by simp
  qed
  let ?ss = "slot_or_default asm (v_slot v)" and ?i = "v_fec_set_index v"
  have ss: "slot_wf (states asm) (v_slot v) ?ss" using wf by (simp add: asm_wf_def)
  have mem: "(j \<in> set (ss_seen (settled_slot v st' asm))) = (?sts (fkey (v_slot v) j) \<noteq> None)" for j
    using ss by (auto simp: slot_wf_def key_of_def)
  have old: "\<not> (\<exists>st. states asm (fkey (v_slot v) ?i) = Some st \<and> st_reconstructed st)"
    if "\<not> st_reconstructed st'"
    using mono that by (auto simp: state_or_new_def key_of_def)
  have rec: "(j \<in> set (ss_reconstructed (settled_slot v st' asm)))
      = (\<exists>st. ?sts (fkey (v_slot v) j) = Some st \<and> st_reconstructed st)" for j
    using ss old by (auto simp: slot_wf_def key_of_def)
  have last: "l \<in> set (ss_seen (settled_slot v st' asm))"
    if "ss_last_index (settled_slot v st' asm) = Some l" for l
    using ss that by (auto simp: slot_wf_def max_def split: if_splits option.splits)
  have "slot_wf ?sts (v_slot v) (settled_slot v st' asm)"
    unfolding slot_wf_def using ss mem rec last
    by (auto simp: slot_wf_def prim.insert_ordered)
  with other have "slot_wf ?sts slot (slot_or_default (settled v st' asm) slot)" for slot
    by (simp add: slot_or_default_settled)
  then show ?thesis using wf st' by (simp add: asm_wf_def)
qed

lemma settle_similar:
  "settle sha v st asm = (asm', fin) \<Longrightarrow> slots_similar (settled v st asm) asm'"
  by (auto simp: settle_def dest: try_finalize_similar split: if_splits)

lemma deliver_RetE:
  assumes "deliver env v asm st evs = Ret (asm', evs')"
  obtains fin where "settle (le_sha env) v st asm = (asm', fin)" "evs' = evs @ fin_events fin"
  using assms by (auto simp: deliver_def split: prod.splits)


section \<open>One datagram\<close>

definition rs_total :: "'r rs_api \<Rightarrow> bool" where
  "rs_total rs \<longleftrightarrow> (\<forall>xs. reconstruct rs xs \<noteq> Panic)"

lemma verified_facts:
  assumes "verify_shred sha ed oc raw pk = Ret v" and "parse_shred oc raw = Ret p"
  shows "shard_offset (v_kind v) + 987 \<le> length raw"
    and "p_erasure_shard_index p = v_erasure_shard_index v" and "hdr_slot (header p) = v_slot v"
proof -
  obtain r where v: "v = verified_of p r" using verify_shred_parsed [OF assms] by blast
  then show "p_erasure_shard_index p = v_erasure_shard_index v" "hdr_slot (header p) = v_slot v"
    by (simp_all add: verified_of_def)
  from assms(2) obtain w where "payload_size (kind w) \<le> length raw" and p: "p = parse_result raw w"
    by (rule parse_shred_RetE)
  moreover from v have "v_kind v = kind w" by (simp add: verified_of_def p)
  ultimately show "shard_offset (v_kind v) + 987 \<le> length raw"
    by (cases "kind w") (simp_all add: shard_offset_def)
qed

text \<open>The set-level step that a verified datagram causes.\<close>

definition shred_steps ::
  "('r, 's) listener_env \<Rightarrow> bytes \<Rightarrow> verified_shred \<Rightarrow> fec_state \<Rightarrow> fec_state \<Rightarrow> fec_event list \<Rightarrow> bool" where
  "shred_steps env raw v st st' evs \<longleftrightarrow>
     set_step (le_rs env) (key_of v) (v_merkle_root v) (v_erasure_shard_index v) (shard_of v raw) st st' evs"

lemma accept_RetE:
  assumes "accept env asm raw p v = Ret (asm', evs)" and "asm_wf asm"
    and p: "parse_shred (le_oc env) raw = Ret p"
    and v: "verify_shred (le_sha env) (le_ed env) (le_oc env) raw pk = Ret v" and "rs_total (le_rs env)"
  obtains st' evs1 fin where "shred_steps env raw v (state_or_new asm (key_of v)) st' evs1"
    "settle (le_sha env) v st' asm = (asm', fin)" "evs = evs1 @ fin_events fin"
proof -
  note f = verified_facts [OF v p]
  have total: "\<And>xs. reconstruct (le_rs env) xs \<noteq> Panic" using assms(5) by (simp add: rs_total_def)
  obtain st' evs1 where d: "accept env asm raw p v = deliver env v asm st' evs1"
    and step: "set_step (le_rs env) (key_of v) (v_merkle_root v) (v_erasure_shard_index v)
      (shard_of v raw) (state_or_new asm (key_of v)) st' evs1"
    using accept_refines [OF assms(2) f(2,1) total] by blast
  have "deliver env v asm st' evs1 = Ret (asm', evs)" using assms(1) d by simp
  then obtain fin where "settle (le_sha env) v st' asm = (asm', fin)" "evs = evs1 @ fin_events fin"
    by (rule deliver_RetE)
  with step show thesis by (intro that) (simp_all add: shred_steps_def)
qed

lemma ingest_RetE:
  assumes "ingest env asm raw = Ret (asm', evs)" and "asm_wf asm" and "rs_total (le_rs env)"
  obtains (Dropped) r where "states asm' = states asm" "slots asm' = slots asm" "evs = [Rejected r]"
      "resolver asm' = resolver asm \<or> (\<exists>slot l. le_resolve env (resolver asm) slot = Ret (resolver asm', l))"
      "\<And>s pk v. le_resolve env (resolver asm) (v_slot v) = Ret (s, Some pk) \<Longrightarrow>
         verify_shred (le_sha env) (le_ed env) (le_oc env) raw pk \<noteq> Ret v"
  | (Taken) s pk v st' evs1 fin where "le_resolve env (resolver asm) (v_slot v) = Ret (s, Some pk)"
      "verify_shred (le_sha env) (le_ed env) (le_oc env) raw pk = Ret v"
      "shred_steps env raw v (state_or_new asm (key_of v)) st' evs1"
      "settle (le_sha env) v st' (asm\<lparr>resolver := s\<rparr>) = (asm', fin)" "evs = evs1 @ fin_events fin"
proof (cases "parse_shred (le_oc env) raw")
  case (Fail e)
  with assms(1) that(1) [of "ParseFailed e"] show ?thesis by (simp add: ingest_def verify_shred_def)
next
  case Panic
  with assms(1) show ?thesis by (simp add: ingest_def)
next
  case (Ret p)
  from Ret assms(1) obtain s l where l: "le_resolve env (resolver asm) (hdr_slot (header p)) = Ret (s, l)"
    by (auto simp: ingest_def obind_eq_Ret)
  let ?asm = "asm\<lparr>resolver := s\<rparr>"
  have only: "l = Some pk'"
    if "le_resolve env (resolver asm) (v_slot v) = Ret (s', Some pk')"
      "verify_shred (le_sha env) (le_ed env) (le_oc env) raw pk' = Ret v" for s' pk' v
    using verified_facts(3) [OF that(2) Ret] that(1) l by simp
  show ?thesis
  proof (cases l)
    case None
    with assms(1) Ret l have "asm' = ?asm" "evs = [Rejected (NoLeader (hdr_slot (header p)))]" by (simp_all add: ingest_def)
    with l only None that(1) show ?thesis by fastforce
  next
    case (Some pk)
    show ?thesis
    proof (cases "verify_shred (le_sha env) (le_ed env) (le_oc env) raw pk")
      case (Fail e)
      with assms(1) Ret l Some have "asm' = ?asm" "evs = [Rejected (VerifyFailed e)]" by (simp_all add: ingest_def)
      with l only Some Fail that(1) show ?thesis by fastforce
    next
      case Panic
      with assms(1) Ret l Some show ?thesis by (simp add: ingest_def)
    next
      case v: (Ret v)
      have wf: "asm_wf ?asm" using assms(2) by (simp add: asm_wf_def slot_or_default_def)
      have "accept env ?asm raw p v = Ret (asm', evs)" using assms(1) Ret l Some v by (simp add: ingest_def)
      then obtain st' evs1 fin where "shred_steps env raw v (state_or_new asm (key_of v)) st' evs1"
        "settle (le_sha env) v st' ?asm = (asm', fin)" "evs = evs1 @ fin_events fin"
        by (rule accept_RetE [OF _ wf Ret v assms(3)]) (simp add: state_or_new_def)
      with l Some v verified_facts(3) [OF v Ret] show ?thesis by (intro that(2)) simp_all
    qed
  qed
qed

lemma length_shard_of:
  assumes "verify_shred sha ed oc raw pk = Ret v"
  shows "length (shard_of v raw) = 987"
proof -
  from assms obtain p where "parse_shred oc raw = Ret p" by (auto simp: verify_shred_Ret_iff)
  from verified_facts(1) [OF assms this] show ?thesis by (simp add: shard_of_def)
qed

lemma ingest_wf:
  assumes "ingest env asm raw = Ret (asm', evs)" and "asm_wf asm" and "rs_total (le_rs env)"
  shows "asm_wf asm'"
  using assms
proof (cases rule: ingest_RetE)
  case Dropped
  with assms(2) show ?thesis by (simp add: asm_wf_def slot_or_default_def)
next
  case (Taken s pk v st' evs1 fin)
  let ?asm = "asm\<lparr>resolver := s\<rparr>"
  have wf: "asm_wf ?asm" using assms(2) by (simp add: asm_wf_def slot_or_default_def)
  have st: "state_or_new ?asm (key_of v) = state_or_new asm (key_of v)" by (simp add: state_or_new_def)
  have "fec_wf st'"
    using set_step_wf Taken(3) state_or_new_wf [OF assms(2)] length_shard_of [OF Taken(2)]
    unfolding shred_steps_def by blast
  moreover have "st_reconstructed st'" if "st_reconstructed (state_or_new asm (key_of v))"
    using set_step_keeps_done Taken(3) that unfolding shred_steps_def by blast
  ultimately have "asm_wf (settled v st' ?asm)" using wf by (intro settled_wf) (simp_all add: st)
  with settle_similar [OF Taken(4)] show ?thesis by (rule slots_similar_wf)
qed

lemma with_resolver_wf: "asm_wf (with_resolver s)"
  by (simp add: asm_wf_def with_resolver_def slot_or_default_def slot_state_default_def slot_wf_def
      bt_ordered_def)


section \<open>What a step does to a set\<close>

definition positions :: "fec_state \<Rightarrow> nat set" where
  "positions st = {i. i < length (st_shards st) \<and> st_shards st ! i \<noteq> None}"

lemma card_positions: "card (positions st) = length (present (st_shards st))"
proof -
  have "length (present xs) = length (filter (\<lambda>x. x \<noteq> None) xs)" for xs :: "bytes option list"
    by (induction xs) (auto simp: present_def List.map_filter_simps split: option.splits)
  then show ?thesis by (simp add: positions_def length_filter_conv_card)
qed

lemma positions_bound: "fec_wf st \<Longrightarrow> positions st \<subseteq> {..<64}"
  by (auto simp: positions_def fec_wf_def)

lemma set_step_root:
  "set_step rs key rt i b st st' evs \<Longrightarrow> st_root st = Some r \<Longrightarrow> st_root st' = Some r"
  by (erule set_step.cases) (auto simp: agrees_def)

lemma set_step_shards:
  assumes "set_step rs key rt i b st st' evs" and "fec_wf st" and "st_shards st' ! j = Some b'" and "j < 64"
  shows "st_shards st ! j = Some b' \<or> (j = i \<and> b' = b \<and> st_root st' = Some rt)"
  using assms by (cases rule: set_step.cases) (auto simp: fec_wf_def nth_list_update split: if_splits)

lemma set_step_reconstructed:
  assumes "set_step rs key rt i b st st' evs" and "Reconstructed key' rt' c \<in> set evs"
  shows "key' = key \<and> rt' = rt \<and> st_root st' = Some rt \<and> c = 1 \<and> \<not> st_reconstructed st
    \<and> st_reconstructed st'"
  using assms by (cases rule: set_step.cases) (auto simp: opened_ev_def agrees_def split: if_splits)

lemma set_step_no_slot_event:
  "set_step rs key rt i b st st' evs \<Longrightarrow> SlotFinalized slot rts r n c \<notin> set evs"
  by (erule set_step.cases) (auto simp: opened_ev_def)

lemma try_finalize_event:
  "try_finalize_slot sha asm slot = (asm', Some ev) \<Longrightarrow> \<exists>rts r n c. ev = SlotFinalized slot rts r n c"
  by (cases sha asm slot rule: try_finalize_cases) auto

lemma settle_event:
  "settle sha v st asm = (asm', Some ev) \<Longrightarrow> \<exists>rts r n c. ev = SlotFinalized (v_slot v) rts r n c"
  by (auto simp: settle_def dest: try_finalize_event split: if_splits)

lemma settle_fin_events:
  "settle sha v st asm = (asm', fin) \<Longrightarrow> Reconstructed key rt c \<notin> set (fin_events fin)"
  by (cases fin) (auto simp: fin_events_def dest: settle_event)

lemma settle_states:
  "settle sha v st asm = (asm', fin) \<Longrightarrow> states asm' = (states asm)(key_of v \<mapsto> st)"
  using settle_similar [of sha v st asm asm' fin] by (simp add: slots_similar_def)

lemma settle_resolver: "settle sha v st asm = (asm', fin) \<Longrightarrow> resolver asm' = resolver asm"
  using settle_similar [of sha v st asm asm' fin] by (simp add: slots_similar_def)

section \<open>Every stored shard was verified\<close>

text \<open>
  \<open>backed\<close>: each shard of the assembler is the erasure region of a datagram received earlier, which
  verifies under a key the resolver vouched for, with the root and position of the entry.
\<close>

definition vouched :: "('r, 's) listener_env \<Rightarrow> (u64 \<Rightarrow> bytes \<Rightarrow> bool) \<Rightarrow> bytes \<Rightarrow> fec_key \<Rightarrow> bytes \<Rightarrow> nat
    \<Rightarrow> bytes \<Rightarrow> bool" where
  "vouched env trusted raw key rt i b \<longleftrightarrow>
     (\<exists>pk v. trusted (fk_slot key) pk
        \<and> verify_shred (le_sha env) (le_ed env) (le_oc env) raw pk = Ret v
        \<and> key_of v = key \<and> v_merkle_root v = rt \<and> v_erasure_shard_index v = i \<and> b = shard_of v raw)"

definition backed :: "('r, 's) listener_env \<Rightarrow> (u64 \<Rightarrow> bytes \<Rightarrow> bool) \<Rightarrow> bytes set \<Rightarrow> 's assembler \<Rightarrow> bool" where
  "backed env trusted raws asm \<longleftrightarrow>
     (\<forall>key st i b. states asm key = Some st \<longrightarrow> i < 64 \<longrightarrow> st_shards st ! i = Some b \<longrightarrow>
        (\<exists>raw \<in> raws. \<exists>rt. st_root st = Some rt \<and> vouched env trusted raw key rt i b))"

text \<open>A resolver in states satisfying \<open>good\<close> names only trusted keys.\<close>

definition answers_only :: "'s resolver \<Rightarrow> ('s \<Rightarrow> bool) \<Rightarrow> (u64 \<Rightarrow> bytes \<Rightarrow> bool) \<Rightarrow> bool" where
  "answers_only resolve good trusted \<longleftrightarrow>
     (\<forall>s slot s' r. good s \<longrightarrow> resolve s slot = Ret (s', r) \<longrightarrow>
        good s' \<and> (\<forall>pk. r = Some pk \<longrightarrow> trusted slot pk))"

lemma backed_mono: "backed env trusted raws asm \<Longrightarrow> raws \<subseteq> raws' \<Longrightarrow> backed env trusted raws' asm"
  unfolding backed_def by blast

lemma ingest_resolver_inv:
  assumes "ingest env asm raw = Ret (asm', evs)" and "asm_wf asm" and "rs_total (le_rs env)"
    and "answers_only (le_resolve env) good trusted" and "good (resolver asm)"
  shows "good (resolver asm')"
  using assms(1-3)
proof (cases rule: ingest_RetE)
  case Dropped
  with assms(4,5) show ?thesis unfolding answers_only_def by metis
next
  case (Taken s pk v st' evs1 fin)
  with assms(4,5) have "good s" unfolding answers_only_def by metis
  with settle_resolver [OF Taken(4)] show ?thesis by simp
qed

lemma ingest_backed:
  assumes "ingest env asm raw = Ret (asm', evs)" and "asm_wf asm" and "rs_total (le_rs env)"
    and "answers_only (le_resolve env) good trusted" and "good (resolver asm)"
    and "backed env trusted raws asm"
  shows "backed env trusted (insert raw raws) asm'"
  using assms(1-3)
proof (cases rule: ingest_RetE)
  case Dropped
  with assms(6) show ?thesis by (auto simp: backed_def)
next
  case (Taken s pk v st' evs1 fin)
  let ?st = "state_or_new asm (key_of v)"
  have trust: "trusted (v_slot v) pk" using assms(4,5) Taken(1) unfolding answers_only_def by metis
  have step: "set_step (le_rs env) (key_of v) (v_merkle_root v) (v_erasure_shard_index v) (shard_of v raw)
      ?st st' evs1"
    using Taken(3) by (simp add: shred_steps_def)
  have old: "\<exists>raw \<in> raws. \<exists>rt. st_root ?st = Some rt \<and> vouched env trusted raw (key_of v) rt i b"
    if "i < 64" "st_shards ?st ! i = Some b" for i b
    using that assms(6)
    by (auto simp: backed_def state_or_new_def fec_state_new_def split: option.splits)
  have "\<exists>raw \<in> insert raw raws. \<exists>rt. st_root st' = Some rt \<and> vouched env trusted raw (key_of v) rt i b"
    if "i < 64" "st_shards st' ! i = Some b" for i b
    using set_step_shards [OF step state_or_new_wf [OF assms(2)] that(2,1)]
  proof
    assume "st_shards ?st ! i = Some b"
    with old [OF that(1)] set_step_root [OF step] show ?thesis by blast
  next
    assume "i = v_erasure_shard_index v \<and> b = shard_of v raw \<and> st_root st' = Some (v_merkle_root v)"
    with trust Taken(2) show ?thesis by (auto simp: vouched_def)
  qed
  with assms(6) settle_states [OF Taken(4)] show ?thesis
    by (auto simp: backed_def split: if_splits)
qed


section \<open>Runs\<close>

lemma ingest_all_append:
  "ingest_all env (raws @ raws') asm =
     obind (ingest_all env raws asm) (\<lambda>(asm, evs).
     obind (ingest_all env raws' asm) (\<lambda>(asm, evs'). Ret (asm, evs @ evs')))"
proof (induction raws arbitrary: asm)
  case Nil
  show ?case by (cases "ingest_all env raws' asm") auto
next
  case (Cons raw raws)
  then show ?case
    by (cases "ingest env asm raw") (auto simp: obind_assoc split_beta)
qed

lemma run_snoc_RetE:
  assumes "ingest_all env (raws @ [raw]) asm = Ret (asm', evs)"
  obtains asm1 evs1 evs2 where "ingest_all env raws asm = Ret (asm1, evs1)"
    "ingest env asm1 raw = Ret (asm', evs2)" "evs = evs1 @ evs2"
  using assms by (auto simp: ingest_all_append obind_eq_Ret split: prod.splits)

text \<open>Induction over a run, the datagrams received so far as a list.\<close>

lemma run_induct [consumes 1, case_names Start Step]:
  assumes "ingest_all env raws asm = Ret (asm', evs)" and "P [] asm []"
    and "\<And>raws raw asm1 evs1 asm2 evs2. ingest_all env raws asm = Ret (asm1, evs1) \<Longrightarrow> P raws asm1 evs1 \<Longrightarrow>
      ingest env asm1 raw = Ret (asm2, evs2) \<Longrightarrow> P (raws @ [raw]) asm2 (evs1 @ evs2)"
  shows "P raws asm' evs"
  using assms(1)
proof (induction raws arbitrary: asm' evs rule: rev_induct)
  case Nil
  with assms(2) show ?case by simp
next
  case (snoc raw raws)
  from snoc.prems show ?case
    by (rule run_snoc_RetE) (use snoc.IH assms(3) in blast)
qed

lemma run_wf:
  assumes "ingest_all env raws asm = Ret (asm', evs)" and "asm_wf asm" and "rs_total (le_rs env)"
  shows "asm_wf asm'"
  using assms(1) by (induction rule: run_induct) (use assms(2,3) ingest_wf in blast)+

lemma run_backed:
  assumes "ingest_all env raws asm = Ret (asm', evs)" and "asm_wf asm" and "rs_total (le_rs env)"
    and "answers_only (le_resolve env) good trusted" and "good (resolver asm)"
    and "backed env trusted {} asm"
  shows "asm_wf asm' \<and> good (resolver asm') \<and> backed env trusted (set raws) asm'"
  using assms(1)
proof (induction rule: run_induct)
  case Start
  with assms(2,5,6) show ?case by simp
next
  case (Step raws raw asm1 evs1 asm2 evs2)
  then have i: "ingest env asm1 raw = Ret (asm2, evs2)" and w: "asm_wf asm1"
    and g: "good (resolver asm1)" and b: "backed env trusted (set raws) asm1" by auto
  show ?case
    using ingest_wf [OF i w assms(3)] ingest_resolver_inv [OF i w assms(3,4) g]
      ingest_backed [OF i w assms(3,4) g b]
    by simp
qed

lemma with_resolver_backed: "backed env trusted {} (with_resolver s)"
  by (simp add: backed_def with_resolver_def)

lemma ingest_reconstructed:
  assumes "ingest env asm raw = Ret (asm', evs)" and "asm_wf asm" and "rs_total (le_rs env)"
    and "Reconstructed key rt c \<in> set evs"
  shows "c = 1 \<and> (\<exists>st. states asm' key = Some st \<and> st_reconstructed st \<and> st_root st = Some rt)
    \<and> \<not> st_reconstructed (state_or_new asm key)"
  using assms(1-3)
proof (cases rule: ingest_RetE)
  case Dropped
  with assms(4) show ?thesis by simp
next
  case (Taken s pk v st' evs1 fin)
  have step: "set_step (le_rs env) (key_of v) (v_merkle_root v) (v_erasure_shard_index v) (shard_of v raw)
      (state_or_new asm (key_of v)) st' evs1"
    using Taken(3) by (simp add: shred_steps_def)
  have "Reconstructed key rt c \<in> set evs1"
    using assms(4) Taken(4,5) settle_fin_events by fastforce
  from set_step_reconstructed [OF step this] settle_states [OF Taken(4)] show ?thesis by simp
qed

text \<open>The events of a reconstructed set, counted.\<close>

definition reconstructions :: "fec_key \<Rightarrow> fec_event list \<Rightarrow> nat" where
  "reconstructions key evs =
     length (filter (\<lambda>e. case e of Reconstructed k r c \<Rightarrow> k = key | _ \<Rightarrow> False) evs)"

definition set_done :: "'s assembler \<Rightarrow> fec_key \<Rightarrow> bool" where
  "set_done asm key \<longleftrightarrow> st_reconstructed (state_or_new asm key)"

lemma set_step_count:
  "set_step rs key' rt i b st st' evs \<Longrightarrow> reconstructions key evs
     = (if key' = key \<and> st_reconstructed st' \<and> \<not> st_reconstructed st then 1 else 0)"
  by (erule set_step.cases) (auto simp: reconstructions_def opened_ev_def agrees_def)

lemma fin_events_count:
  "settle sha v st asm = (asm', fin) \<Longrightarrow> reconstructions key (fin_events fin) = 0"
  by (cases fin) (auto simp: fin_events_def reconstructions_def dest: settle_event)

lemma reconstructions_append [simp]:
  "reconstructions key (xs @ ys) = reconstructions key xs + reconstructions key ys"
  by (simp add: reconstructions_def)

lemma ingest_count:
  assumes "ingest env asm raw = Ret (asm', evs)" and "asm_wf asm" and "rs_total (le_rs env)"
  shows "reconstructions key evs = (if set_done asm' key \<and> \<not> set_done asm key then 1 else 0)
    \<and> (set_done asm key \<longrightarrow> set_done asm' key)"
  using assms
proof (cases rule: ingest_RetE)
  case Dropped
  then show ?thesis by (simp add: reconstructions_def set_done_def state_or_new_def)
next
  case (Taken s pk v st' evs1 fin)
  have step: "set_step (le_rs env) (key_of v) (v_merkle_root v) (v_erasure_shard_index v) (shard_of v raw)
      (state_or_new asm (key_of v)) st' evs1"
    using Taken(3) by (simp add: shred_steps_def)
  have "state_or_new asm' key = (if key = key_of v then st' else state_or_new asm key)"
    using settle_states [OF Taken(4)] by (simp add: state_or_new_def)
  with set_step_count [OF step, of key] fin_events_count [OF Taken(4), of key] Taken(5)
    set_step_keeps_done [OF step]
  show ?thesis
    by (cases "key = key_of v"; cases "st_reconstructed (state_or_new asm key)")
      (simp_all add: set_done_def)
qed


text \<open>The accepted shreds of a set, counted: the set counts each of them, and none once it is done.\<close>

definition accepted :: "fec_key \<Rightarrow> fec_event list \<Rightarrow> nat" where
  "accepted key evs = length (filter (\<lambda>e. case e of ShredAccepted k n i \<Rightarrow> k = key | _ \<Rightarrow> False) evs)"

lemma accepted_append [simp]: "accepted key (xs @ ys) = accepted key xs + accepted key ys"
  by (simp add: accepted_def)

lemma set_step_accepted:
  "set_step rs key' rt i b st st' evs \<Longrightarrow>
     (if key' = key then st_distinct st' = st_distinct st + accepted key evs else accepted key evs = 0)"
  by (erule set_step.cases) (auto simp: accepted_def opened_ev_def)

lemma fin_events_accepted: "settle sha v st asm = (asm', fin) \<Longrightarrow> accepted key (fin_events fin) = 0"
  by (cases fin) (auto simp: fin_events_def accepted_def dest: settle_event)

lemma ingest_accepted:
  assumes "ingest env asm raw = Ret (asm', evs)" and "asm_wf asm" and "rs_total (le_rs env)"
  shows "st_distinct (state_or_new asm' key) = st_distinct (state_or_new asm key) + accepted key evs"
  using assms
proof (cases rule: ingest_RetE)
  case Dropped
  then show ?thesis by (simp add: accepted_def state_or_new_def)
next
  case (Taken s pk v st' evs1 fin)
  have "state_or_new asm' key = (if key = key_of v then st' else state_or_new asm key)"
    using settle_states [OF Taken(4)] by (simp add: state_or_new_def)
  with set_step_accepted [OF Taken(3) [unfolded shred_steps_def], of key]
    fin_events_accepted [OF Taken(4), of key] Taken(5)
  show ?thesis by (auto split: if_splits)
qed

section \<open>What a finalized slot reports\<close>

definition slot_report :: "(bytes \<Rightarrow> bytes) \<Rightarrow> 's assembler \<Rightarrow> u64 \<Rightarrow> u32 list \<Rightarrow> fec_event" where
  "slot_report sha asm slot idxs =
     (let st = (\<lambda>i. state_or_new asm (fkey slot i)); rts = map (\<lambda>i. the (st_root (st i))) idxs
      in SlotFinalized slot rts (aggregate_root sha rts) (\<Sum>i \<leftarrow> idxs. st_distinct (st i)) 1)"

lemma undetected_zero:
  assumes "is \<noteq> []" and "\<forall>i \<in> set is. d i = (1 :: f64)"
  shows "fold (\<lambda>i u. f64_mul u (f64_sub 1 (d i))) is u = 0"
proof -
  have "fold (\<lambda>i u. f64_mul u (f64_sub 1 (d i))) js 0 = 0" for js by (induction js) (auto simp: f64_mul_def)
  with assms show ?thesis by (cases "is") (auto simp: f64_mul_def f64_sub_def)
qed

lemma finalize_content:
  assumes wf: "asm_wf asm" and "slots asm slot = Some ss" and "ready ss l"
  shows "try_finalize_slot sha asm slot =
     (finalize_flag slot ss asm, Some (slot_report sha asm slot (checked_sets ss l)))"
    and "\<forall>i \<in> set (checked_sets ss l). set_done asm (fkey slot i)" and "l \<in> set (checked_sets ss l)"
    and "sorted (checked_sets ss l)" and "distinct (checked_sets ss l)"
proof -
  let ?is = "checked_sets ss l" and ?st = "\<lambda>i. state_or_new asm (fkey slot i)"
  have ss: "slot_wf (states asm) slot ss"
    using wf assms(2) by (metis asm_wf_def slot_or_default_def option.simps(5))
  then show "sorted ?is" "distinct ?is"
    by (simp_all add: slot_wf_def prim_ordered checked_sets_def sorted_wrt_filter)
  show l: "l \<in> set ?is" using assms(3) by (simp add: ready_def checked_sets_def)
  have st: "states asm (fkey slot i) = Some (?st i) \<and> st_reconstructed (?st i)" if "i \<in> set ?is" for i
  proof -
    have "i \<in> set (ss_reconstructed ss)" using assms(3) that by (auto simp: ready_def)
    with ss obtain st where "states asm (fkey slot i) = Some st" "st_reconstructed st"
      unfolding slot_wf_def by blast
    then show ?thesis by (simp add: state_or_new_done)
  qed
  then show "\<forall>i \<in> set ?is. set_done asm (fkey slot i)" by (simp add: set_done_def)
  have good: "states asm (fkey slot i) = Some (?st i) \<and> st_root (?st i) = Some (the (st_root (?st i)))
      \<and> st_das (?st i) = 1" if "i \<in> set ?is" for i
    using st [OF that] state_or_new_wf [OF wf, of "fkey slot i"] by (auto simp: fec_wf_def)
  then have "collect_sets (states asm) slot ?is ([], 0, 1) =
      Some (map (\<lambda>i. the (st_root (?st i))) ?is, \<Sum>i \<leftarrow> ?is. st_distinct (?st i),
        fold (\<lambda>i u. f64_mul u (f64_sub 1 (st_das (?st i)))) ?is 1)"
    using collect_sets_total [of ?is "states asm" slot ?st "\<lambda>i. the (st_root (?st i))" "[]" 0 1] by simp
  moreover have "fold (\<lambda>i u. f64_mul u (f64_sub 1 (st_das (?st i)))) ?is 1 = 0"
    using good l by (intro undetected_zero) auto
  ultimately show "try_finalize_slot sha asm slot =
     (finalize_flag slot ss asm, Some (slot_report sha asm slot ?is))"
    using try_finalize_ready [OF assms(2,3)] by (simp add: slot_report_def Let_def)
qed

definition slot_done :: "'s assembler \<Rightarrow> u64 \<Rightarrow> bool" where
  "slot_done asm slot \<longleftrightarrow> ss_finalized (slot_or_default asm slot)"

text \<open>Settling: whether, and what, is reported, and what becomes of the flags.\<close>

lemma settle_report:
  assumes "settle sha v st asm = (asm', fin)" and "asm_wf (settled v st asm)"
  shows "(fin = None \<and> asm' = settled v st asm) \<or>
    (\<exists>l. ready (settled_slot v st asm) l \<and> st_reconstructed st
       \<and> fin = Some (slot_report sha asm' (v_slot v) (checked_sets (settled_slot v st asm) l))
       \<and> asm' = finalize_flag (v_slot v) (settled_slot v st asm) (settled v st asm))"
proof (cases "st_reconstructed st")
  case True
  then have t: "try_finalize_slot sha (settled v st asm) (v_slot v) = (asm', fin)"
    using assms(1) by (simp add: settle_def)
  have slot: "slots (settled v st asm) (v_slot v) = Some (settled_slot v st asm)"
    by (simp add: settled_def)
  show ?thesis
  proof (cases "\<exists>l. ready (settled_slot v st asm) l")
    case True
    then obtain l where l: "ready (settled_slot v st asm) l" by blast
    from finalize_content(1) [OF assms(2) slot l, of sha] t l \<open>st_reconstructed st\<close> show ?thesis
      by (auto simp: slot_report_def state_or_new_def)
  next
    case False
    then have "try_finalize_slot sha (settled v st asm) (v_slot v) = (settled v st asm, None)"
      using slot by (intro try_finalize_not_ready) simp
    with t show ?thesis by simp
  qed
qed (use assms(1) in \<open>simp add: settle_def\<close>)

lemma settled_done: "slot_done (settled v st asm) slot = slot_done asm slot"
  by (simp add: slot_done_def slot_or_default_settled)

lemma flag_done: "slot_done (finalize_flag slot ss asm) slot' \<longleftrightarrow> slot' = slot \<or> slot_done asm slot'"
  by (simp add: slot_done_def slot_or_default_def finalize_flag_def)

definition finalizations :: "u64 \<Rightarrow> fec_event list \<Rightarrow> nat" where
  "finalizations slot evs =
     length (filter (\<lambda>e. case e of SlotFinalized s r t n c \<Rightarrow> s = slot | _ \<Rightarrow> False) evs)"

lemma finalizations_append [simp]:
  "finalizations slot (xs @ ys) = finalizations slot xs + finalizations slot ys"
  by (simp add: finalizations_def)

lemma set_step_finalizations: "set_step rs key rt i b st st' evs \<Longrightarrow> finalizations slot evs = 0"
  by (erule set_step.cases) (auto simp: finalizations_def opened_ev_def)

lemma Taken_wf:
  assumes "asm_wf asm" and "shred_steps env raw v (state_or_new asm (key_of v)) st' evs1"
    and "verify_shred sha ed oc raw pk = Ret v"
  shows "asm_wf (settled v st' (asm\<lparr>resolver := s\<rparr>))"
proof -
  have st: "state_or_new (asm\<lparr>resolver := s\<rparr>) (key_of v) = state_or_new asm (key_of v)"
    by (simp add: state_or_new_def)
  have "fec_wf st'"
    using set_step_wf assms(2) state_or_new_wf [OF assms(1)] length_shard_of [OF assms(3)]
    unfolding shred_steps_def by blast
  moreover have "st_reconstructed st'" if "st_reconstructed (state_or_new asm (key_of v))"
    using set_step_keeps_done assms(2) that unfolding shred_steps_def by blast
  ultimately show ?thesis
    using assms(1) by (intro settled_wf) (simp_all add: st asm_wf_def slot_or_default_def)
qed

lemma ingest_finalize_count:
  assumes "ingest env asm raw = Ret (asm', evs)" and "asm_wf asm" and "rs_total (le_rs env)"
  shows "finalizations slot evs = (if slot_done asm' slot \<and> \<not> slot_done asm slot then 1 else 0)
    \<and> (slot_done asm slot \<longrightarrow> slot_done asm' slot)"
  using assms
proof (cases rule: ingest_RetE)
  case Dropped
  then show ?thesis by (simp add: finalizations_def slot_done_def slot_or_default_def)
next
  case (Taken s pk v st' evs1 fin)
  let ?asm = "asm\<lparr>resolver := s\<rparr>"
  have old: "slot_done ?asm slot = slot_done asm slot" for slot
    by (simp add: slot_done_def slot_or_default_def)
  have none: "finalizations slot evs1 = 0"
    using Taken(3) set_step_finalizations unfolding shred_steps_def by blast
  from settle_report [OF Taken(4) Taken_wf [OF assms(2) Taken(3,2)]] show ?thesis
  proof (elim disjE exE conjE)
    assume "fin = None" "asm' = settled v st' ?asm"
    with none Taken(5) show ?thesis by (simp add: fin_events_def finalizations_def settled_done old)
  next
    fix l assume l: "ready (settled_slot v st' ?asm) l"
      and "fin = Some (slot_report (le_sha env) asm' (v_slot v) (checked_sets (settled_slot v st' ?asm) l))"
      and "asm' = finalize_flag (v_slot v) (settled_slot v st' ?asm) (settled v st' ?asm)"
    moreover have "\<not> slot_done asm (v_slot v)"
      using l by (simp add: ready_def slot_done_def slot_or_default_def)
    ultimately show ?thesis
      using none Taken(5)
      by (auto simp: fin_events_def finalizations_def slot_report_def Let_def flag_done settled_done old)
  qed
qed


lemma ingest_keeps_done:
  assumes "ingest env asm raw = Ret (asm', evs)" and "asm_wf asm" and "rs_total (le_rs env)"
    and "states asm key = Some st" and "st_reconstructed st"
  shows "states asm' key = Some st"
  using assms(1-3)
proof (cases rule: ingest_RetE)
  case Dropped
  with assms(4) show ?thesis by simp
next
  case (Taken s pk v st' evs1 fin)
  have "st' = st" if "key = key_of v"
    using set_step_keeps_done Taken(3) assms(4,5) that
    by (metis shred_steps_def state_or_new_done(1))
  with settle_states [OF Taken(4)] assms(4) show ?thesis by auto
qed

lemma run_reconstructed:
  assumes "ingest_all env raws asm = Ret (asm', evs)" and "asm_wf asm" and "rs_total (le_rs env)"
    and "Reconstructed key rt c \<in> set evs"
  shows "c = 1 \<and> (\<exists>st. states asm' key = Some st \<and> st_reconstructed st \<and> st_root st = Some rt)"
  using assms(1,4)
proof (induction rule: run_induct)
  case Start
  then show ?case by simp
next
  case (Step raws raw asm1 evs1 asm2 evs2)
  then have run: "ingest_all env raws asm = Ret (asm1, evs1)" and i: "ingest env asm1 raw = Ret (asm2, evs2)"
    by auto
  have wf: "asm_wf asm1" using run assms(2,3) by (rule run_wf)
  show ?case
  proof (cases "Reconstructed key rt c \<in> set evs2")
    case True
    from ingest_reconstructed [OF i wf assms(3) this] show ?thesis by blast
  next
    case False
    with Step show ?thesis using ingest_keeps_done [OF i wf assms(3)] by auto
  qed
qed

lemma run_accepted:
  assumes "ingest_all env raws (with_resolver s) = Ret (asm, evs)" and "rs_total (le_rs env)"
  shows "st_distinct (state_or_new asm key) = accepted key evs"
  using assms(1)
proof (induction rule: run_induct)
  case Start
  show ?case by (simp add: accepted_def state_or_new_def with_resolver_def fec_state_new_def)
next
  case (Step raws raw asm1 evs1 asm2 evs2)
  then have run: "ingest_all env raws (with_resolver s) = Ret (asm1, evs1)"
    and i: "ingest env asm1 raw = Ret (asm2, evs2)" by auto
  have wf: "asm_wf asm1" by (rule run_wf [OF run with_resolver_wf assms(2)])
  from ingest_accepted [OF i wf assms(2)] Step show ?case by simp
qed

text \<open>A set that was reported reconstructed accepts no further shred.\<close>

lemma done_accepts_none:
  assumes "ingest_all env raws (with_resolver s) = Ret (asm, evs)" and "rs_total (le_rs env)"
    and "Reconstructed key rt c \<in> set evs" and "ingest env asm raw = Ret (asm', evs')"
  shows "accepted key evs' = 0"
proof -
  have wf: "asm_wf asm" by (rule run_wf [OF assms(1) with_resolver_wf assms(2)])
  from run_reconstructed [OF assms(1) with_resolver_wf assms(2,3)] obtain st where
    st: "states asm key = Some st" "st_reconstructed st" by blast
  have "states asm' key = Some st" by (rule ingest_keeps_done [OF assms(4) wf assms(2) st])
  with ingest_accepted [OF assms(4) wf assms(2), of key] st(1) show ?thesis by (simp add: state_or_new_def)
qed

section \<open>Panics\<close>

lemma verify_shred_Panic: "verify_shred sha ed oc raw pk = Panic \<Longrightarrow> parse_shred oc raw = Panic"
  by (auto simp: verify_shred_def obind_eq_Panic Let_def split: if_splits)

lemma accept_not_Panic:
  assumes "asm_wf asm" and "rs_total (le_rs env)"
    and "verify_shred sha ed oc raw pk = Ret v" and "parse_shred oc raw = Ret p"
  shows "\<exists>r. accept env asm raw p v = Ret r"
proof -
  have total: "\<And>xs. reconstruct (le_rs env) xs \<noteq> Panic" using assms(2) by (simp add: rs_total_def)
  from accept_refines [OF assms(1) verified_facts(2,1) [OF assms(3,4)] total]
  obtain st' evs where "accept env asm raw p v = deliver env v asm st' evs" by blast
  then show ?thesis by (simp add: deliver_def split: prod.splits)
qed

lemma ingest_cases:
  assumes "asm_wf asm" and "rs_total (le_rs env)"
  shows "(\<exists>r. ingest env asm raw = Ret r)
    \<or> parse_shred (le_oc env) raw = Panic \<and> ingest env asm raw = Panic
    \<or> (\<exists>p. parse_shred (le_oc env) raw = Ret p
         \<and> (le_resolve env (resolver asm) (hdr_slot (header p)) = Panic \<and> ingest env asm raw = Panic
           \<or> (\<exists>e. le_resolve env (resolver asm) (hdr_slot (header p)) = Fail e)))"
proof (cases "parse_shred (le_oc env) raw")
  case (Ret p)
  show ?thesis
  proof (cases "le_resolve env (resolver asm) (hdr_slot (header p))")
    case res: (Ret r)
    obtain s l where r: "r = (s, l)" by fastforce
    let ?asm = "asm\<lparr>resolver := s\<rparr>"
    have wf: "asm_wf ?asm" using assms(1) by (simp add: asm_wf_def slot_or_default_def)
    have "\<exists>r. ingest env asm raw = Ret r"
    proof (cases l)
      case (Some pk)
      show ?thesis
      proof (cases "verify_shred (le_sha env) (le_ed env) (le_oc env) raw pk")
        case v: (Ret v)
        from accept_not_Panic [OF wf assms(2) v Ret] Ret res r Some v show ?thesis
          by (simp add: ingest_def)
      qed (use Ret res r Some verify_shred_Panic in \<open>auto simp: ingest_def\<close>)
    qed (simp add: ingest_def Ret res r)
    then show ?thesis by blast
  qed (use Ret in \<open>auto simp: ingest_def\<close>)
qed (simp_all add: ingest_def)

section \<open>Every reconstruction is reported\<close>

lemma set_step_newly_done:
  "set_step rs key rt i b st st' evs \<Longrightarrow> st_reconstructed st' \<Longrightarrow> \<not> st_reconstructed st \<Longrightarrow>
     Reconstructed key rt 1 \<in> set evs \<and> st_root st' = Some rt"
  by (erule set_step.cases) (auto simp: agrees_def)

text \<open>Every reconstructed set of the state was reported, with its root.\<close>

definition reported :: "'s assembler \<Rightarrow> fec_event list \<Rightarrow> bool" where
  "reported asm evs \<longleftrightarrow> (\<forall>key. set_done asm key \<longrightarrow>
     (\<exists>rt. st_root (state_or_new asm key) = Some rt \<and> Reconstructed key rt 1 \<in> set evs))"

lemma ingest_reported:
  assumes "ingest env asm raw = Ret (asm', evs)" and "asm_wf asm" and "rs_total (le_rs env)"
    and "reported asm evs0"
  shows "reported asm' (evs0 @ evs)"
  using assms(1-3)
proof (cases rule: ingest_RetE)
  case Dropped
  with assms(4) show ?thesis by (simp add: reported_def set_done_def state_or_new_def)
next
  case (Taken s pk v st' evs1 fin)
  have st: "state_or_new asm' k = (if k = key_of v then st' else state_or_new asm k)" for k
    using settle_states [OF Taken(4)] by (simp add: state_or_new_def)
  have step: "set_step (le_rs env) (key_of v) (v_merkle_root v) (v_erasure_shard_index v) (shard_of v raw)
      (state_or_new asm (key_of v)) st' evs1"
    using Taken(3) by (simp add: shred_steps_def)
  have "\<exists>rt. st_root st' = Some rt \<and> Reconstructed (key_of v) rt 1 \<in> set (evs0 @ evs)"
    if "st_reconstructed st'"
  proof (cases "st_reconstructed (state_or_new asm (key_of v))")
    case True
    with set_step_keeps_done [OF step] assms(4) show ?thesis
      by (auto simp: reported_def set_done_def)
  next
    case False
    from set_step_newly_done [OF step that this] Taken(5) show ?thesis by auto
  qed
  then show ?thesis
    using assms(4) by (auto simp: reported_def set_done_def st)
qed

lemma run_reported:
  assumes "ingest_all env raws (with_resolver s) = Ret (asm, evs)" and "rs_total (le_rs env)"
  shows "reported asm evs"
  using assms(1)
proof (induction rule: run_induct)
  case Start
  show ?case
    by (simp add: reported_def set_done_def state_or_new_def with_resolver_def fec_state_new_def)
next
  case (Step raws raw asm1 evs1 asm2 evs2)
  then have run: "ingest_all env raws (with_resolver s) = Ret (asm1, evs1)"
    and i: "ingest env asm1 raw = Ret (asm2, evs2)" and r: "reported asm1 evs1" by auto
  show ?case
    by (rule ingest_reported [OF i run_wf [OF run with_resolver_wf assms(2)] assms(2) r])
qed

end
