(* ===== verification/Delivery.thy ===== *)
theory Delivery
  imports Listener_Spec
begin

text \<open>
  Shreds of an honest leader's FEC sets under a resolver that serves the leader: \<open>delivers\<close> says what the
  datagrams of a set are, \<open>delivers_step\<close> what one of them does to the assembler, \<open>built_delivers\<close> that the datagrams of
  a built set are such.
\<close>

section \<open>The datagrams of a set\<close>

text \<open>\<open>raw i\<close> is the datagram of position \<open>i\<close> of the set; \<open>lst i\<close> says that it carries the end-of-slot flag.\<close>

definition delivers ::
  "('r, 's) listener_env \<Rightarrow> bytes \<Rightarrow> fec_key \<Rightarrow> bytes \<Rightarrow> (nat \<Rightarrow> bool) \<Rightarrow> (nat \<Rightarrow> bytes) \<Rightarrow> bool" where
  "delivers env pk key rt lst raw \<longleftrightarrow>
     (\<forall>i < 64. \<exists>w. verify_shred (le_sha env) (le_ed env) (le_oc env) (raw i) pk = Ret w
          \<and> key_of w = key \<and> v_merkle_root w = rt \<and> v_erasure_shard_index w = i
          \<and> (is_last_in_slot w \<longleftrightarrow> lst i))"

lemma delivers_parse:
  assumes "delivers env pk key rt lst raw" and "i < 64"
  shows "parse_shred (le_oc env) (raw i) \<noteq> Panic" "parse_shred (le_oc env) (raw i) \<noteq> Fail e"
  using assms by (auto simp: delivers_def verify_shred_Ret_iff)

lemma ingest_static_Ret:
  assumes "asm_wf asm" and "rs_total (le_rs env)" and "le_resolve env = static_leader"
    and "parse_shred (le_oc env) raw \<noteq> Panic"
  shows "\<exists>asm' evs. ingest env asm raw = Ret (asm', evs)"
  using ingest_cases [OF assms(1,2), of raw] assms(3,4) by (auto simp: static_leader_def)

lemma ingest_served_Ret:
  assumes "asm_wf asm" and "rs_total (le_rs env)"
    and "verify_shred (le_sha env) (le_ed env) (le_oc env) raw pk = Ret w"
    and "le_resolve env (resolver asm) (v_slot w) = Ret (s, Some pk)"
  shows "\<exists>asm' evs. ingest env asm raw = Ret (asm', evs)"
proof -
  have "hdr_slot (header p) = v_slot w" if "parse_shred (le_oc env) raw = Ret p" for p
    using verified_facts(3) [OF assms(3) that] by simp
  with ingest_cases [OF assms(1,2), of raw] assms(3,4) show ?thesis
    by (auto simp: verify_shred_Ret_iff)
qed

lemma rs_ok_rebuilds:
  assumes "rs_ok rs" and "fec_wf st" and "i < 64" and "st_shards st ! i = None" and "length b = 987"
    and "32 \<le> Suc (st_distinct st)"
  shows "\<exists>r. reconstruct rs ((st_shards st)[i := Some b]) = Ret r"
proof -
  let ?xs = "(st_shards st)[i := Some b]"
  have "length ?xs = 64" and "32 \<le> length (present ?xs)" and "same_size 987 (present ?xs)"
    using assms(2-6) present_update [of i "st_shards st" b] by (auto simp: fec_wf_def same_size_def)
  from reconstruct_complete [OF assms(1) _ this] show ?thesis by auto
qed

lemma positions_update:
  "i < length (st_shards st) \<Longrightarrow> positions (store i b (open_set rt st)) = insert i (positions st)"
  by (auto simp: positions_def nth_list_update)

text \<open>The three ways a shred of a set is taken while fewer than 32 positions have arrived.\<close>

lemma open_step_cases:
  assumes wf: "fec_wf st" and D: "positions st = D" and "\<not> st_reconstructed st" and "st_root st \<in> {None, Some rt}"
    and "card D < 32" and rs: "rs_ok rs" and i: "i < 64" and b: "length b = 987"
    and step: "set_step rs key rt i b st st' evs"
  shows "(i \<in> D \<and> st' = open_set rt st)
    \<or> (i \<notin> D \<and> card D < 31 \<and> st' = store i b (open_set rt st))
    \<or> (i \<notin> D \<and> card D = 31 \<and> st' = rebuild (store i b (open_set rt st)) \<and> Reconstructed key rt 1 \<in> set evs)"
proof -
  have n: "st_distinct st = card D" and l: "length (st_shards st) = 64"
    using wf card_positions [of st] D by (simp_all add: fec_wf_def)
  have mem: "i \<in> D \<longleftrightarrow> st_shards st ! i \<noteq> None" using D i l by (auto simp: positions_def)
  from step show ?thesis
  proof (cases rule: set_step.cases)
    case (Failed e)
    with rs_ok_rebuilds [OF rs wf i _ b] show ?thesis by auto
  qed (use assms(3-5) i n mem in \<open>auto\<close>)
qed

lemma aggregate_root_single: "aggregate_root sha [r] = r"
  by (simp add: aggregate_root_def agg_loop.simps)

text \<open>One datagram of the set, as the machine and the slot see it, under a resolver that serves its leader.\<close>

lemma delivers_step:
  assumes "asm_wf asm" and res: "le_resolve env (resolver asm) (fk_slot key) = Ret (s, Some pk)"
    and d: "delivers env pk key rt lst raw" and rs: "rs_total (le_rs env)" and i: "i < 64"
  obtains asm' evs w st' evs1 fin where "ingest env asm (raw i) = Ret (asm', evs)"
    and "key_of w = key" "v_slot w = fk_slot key" "v_fec_set_index w = fk_index key" "is_last_in_slot w \<longleftrightarrow> lst i"
    and "length (shard_of w (raw i)) = 987"
    and "set_step (le_rs env) key rt i (shard_of w (raw i)) (state_or_new asm key) st' evs1"
    and "settle (le_sha env) w st' (asm\<lparr>resolver := s\<rparr>) = (asm', fin)" and "evs = evs1 @ fin_events fin"
    and "asm_wf (settled w st' (asm\<lparr>resolver := s\<rparr>))" and "asm_wf asm'" and "resolver asm' = s"
    and "states asm' = (states asm)(key \<mapsto> st')"
proof -
  obtain w where w: "verify_shred (le_sha env) (le_ed env) (le_oc env) (raw i) pk = Ret w"
    "key_of w = key" "v_merkle_root w = rt" "v_erasure_shard_index w = i" "is_last_in_slot w \<longleftrightarrow> lst i"
    using d i unfolding delivers_def by blast
  have slot: "v_slot w = fk_slot key" "v_fec_set_index w = fk_index key" using w(2) by auto
  obtain asm' evs where ing: "ingest env asm (raw i) = Ret (asm', evs)"
    using ingest_served_Ret [OF assms(1) rs w(1)] res slot(1) by auto
  obtain st' evs1 fin where step: "shred_steps env (raw i) w (state_or_new asm (key_of w)) st' evs1"
    and fin: "settle (le_sha env) w st' (asm\<lparr>resolver := s\<rparr>) = (asm', fin)" and evs: "evs = evs1 @ fin_events fin"
    using ing assms(1) rs
  proof (cases rule: ingest_RetE)
    case Dropped
    from Dropped(5) [of w s pk] w(1) res slot(1) show ?thesis by simp
  next
    case (Taken s' pk' v st' evs1 fin)
    obtain p where "parse_shred (le_oc env) (raw i) = Ret p" using w(1) by (auto simp: verify_shred_Ret_iff)
    from verified_facts(3) [OF Taken(2) this] verified_facts(3) [OF w(1) this]
    have "v_slot v = fk_slot key" using slot(1) by simp
    with Taken(1) res have "s' = s \<and> pk' = pk" by simp
    with Taken w(1) that show ?thesis by simp
  qed
  have wf': "asm_wf (settled w st' (asm\<lparr>resolver := s\<rparr>))" by (rule Taken_wf [OF assms(1) step w(1)])
  show ?thesis
  proof (rule that [OF ing w(2) slot w(5) length_shard_of [OF w(1)] _ fin evs wf'])
    show "set_step (le_rs env) key rt i (shard_of w (raw i)) (state_or_new asm key) st' evs1"
      using step w by (simp add: shred_steps_def)
    show "asm_wf asm'" using settle_similar [OF fin] wf' by (rule slots_similar_wf)
    show "resolver asm' = s" "states asm' = (states asm)(key \<mapsto> st')"
      using settle_resolver [OF fin] settle_states [OF fin] w(2) by simp_all
  qed
qed

lemma ingest_all_static_Ret:
  assumes "asm_wf asm" and "rs_total (le_rs env)" and "delivers env pk key rt lst raw"
    and "set is \<subseteq> {..<64}" and static: "le_resolve env = static_leader"
  shows "\<exists>asm' evs. ingest_all env (map raw is) asm = Ret (asm', evs)"
  using assms(1,4)
proof (induction "is" arbitrary: asm)
  case (Cons i "is")
  obtain asm1 evs1 where i: "ingest env asm (raw i) = Ret (asm1, evs1)"
    using ingest_static_Ret [OF Cons.prems(1) assms(2) static delivers_parse(1) [OF assms(3)], of i]
      Cons.prems(2) by auto
  from ingest_wf [OF i Cons.prems(1) assms(2)] Cons obtain asm2 evs2
    where "ingest_all env (map raw is) asm1 = Ret (asm2, evs2)" by force
  with i show ?case by simp
qed simp

section \<open>The shreds of a built set are delivered\<close>

definition built_key :: "'k fec_set_params \<Rightarrow> fec_key" where
  "built_key ps = fkey (fp_slot ps) (fp_fec_set_index ps)"

definition ends_slot :: "'k fec_set_params \<Rightarrow> nat \<Rightarrow> bool" where
  "ends_slot ps i \<longleftrightarrow> i < 32 \<and> fp_flags ps AND SHRED_FLAG_LAST_IN_SLOT \<noteq> 0"

lemma built_delivers:
  assumes "sha_ok (le_sha env)" and "rs_ok rs" and "signer_ok sg (le_ed env) (fp_signing_key ps)"
    and "length (fp_chained_root ps) = 32" and "no_overflow (le_oc env) ps"
    and built: "build_fec_set (le_sha env) rs sg oc payload ps = Ret fs"
  shows "delivers env (leader_pubkey fs) (built_key ps) (fs_merkle_root fs) (ends_slot ps)
           (\<lambda>i. shreds fs ! i)"
proof -
  obtain qs where qs: "length qs = 32" "same_size 987 qs"
    and fs: "fs = finished_set (le_sha env) sg ps (shred_bodies payload ps qs)"
    by (rule build_fec_set_RetE [OF assms(1-4) built])
  have root: "fs_merkle_root fs = tree_root (set_tree (le_sha env) (shred_bodies payload ps qs))"
    and pk: "leader_pubkey fs = sk_public sg (fp_signing_key ps)"
    by (simp_all add: fs finished_set_def Let_def)
  have "verify_shred (le_sha env) (le_ed env) (le_oc env) (shreds fs ! i) (leader_pubkey fs)
      = Ret (built_shred ps (fs_merkle_root fs) i)" if "i < 64" for i
    using finished_set_verifies [OF assms(1,3,5,4) qs that, of payload] by (simp add: root pk) (simp add: fs)
  then show ?thesis
    by (simp add: delivers_def built_shred_def built_key_def key_of_def ends_slot_def
        is_last_in_slot_def flag_set_def)
qed

end
