(* ===== verification/Arrivals.thy ===== *)
theory Arrivals
  imports Delivery
begin

text \<open>
  What the assembler reports as a function of which shreds have arrived, for leaders that sign one set
  per key, under any resolver that serves their schedule (the locale \<open>scheduled_resolver\<close>): any
  interleaving of sets and slots, any order, losses and repetitions. \<open>tracks\<close> relates the
  assembler's state to the arrivals, \<open>tracks_step\<close> is one datagram.
\<close>

section \<open>Arrivals\<close>

text \<open>The sets of the leaders: root, end-of-slot flags and datagrams by key and position.\<close>

record leader_sets =
  ls_root :: "fec_key \<Rightarrow> bytes"
  ls_last :: "fec_key \<Rightarrow> nat \<Rightarrow> bool"
  ls_raw :: "fec_key \<Rightarrow> nat \<Rightarrow> bytes"

text \<open>\<open>sched\<close> is the leader schedule, the key that signs a slot.\<close>

definition honest :: "('r, 's) listener_env \<Rightarrow> (u64 \<Rightarrow> bytes) \<Rightarrow> leader_sets \<Rightarrow> fec_key set \<Rightarrow> bool" where
  "honest env sched ls keys \<longleftrightarrow>
     (\<forall>key \<in> keys. delivers env (sched (fk_slot key)) key (ls_root ls key) (ls_last ls key) (ls_raw ls key))"

type_synonym arrivals = "(fec_key \<times> nat) list"

definition datagrams :: "leader_sets \<Rightarrow> arrivals \<Rightarrow> bytes list" where
  "datagrams ls h = map (\<lambda>(key, i). ls_raw ls key i) h"

definition arrived :: "arrivals \<Rightarrow> fec_key \<Rightarrow> nat set" where
  "arrived h key = set (map snd (filter (\<lambda>a. fst a = key) h))"

definition seen_sets :: "arrivals \<Rightarrow> u64 \<Rightarrow> u32 list" where
  "seen_sets h slot = map (\<lambda>a. fk_index (fst a)) (filter (\<lambda>a. fk_slot (fst a) = slot) h)"

definition flagged_sets :: "leader_sets \<Rightarrow> arrivals \<Rightarrow> u64 \<Rightarrow> u32 list" where
  "flagged_sets ls h slot = seen_sets (filter (\<lambda>(key, i). ls_last ls key i) h) slot"

text \<open>The sets up to the last flagged one, and whether all of them can be reconstructed.\<close>

definition covered :: "leader_sets \<Rightarrow> arrivals \<Rightarrow> u64 \<Rightarrow> u32 list" where
  "covered ls h slot =
     sorted_list_of_set (set (filter (\<lambda>i. i \<le> Max (set (flagged_sets ls h slot))) (seen_sets h slot)))"

definition complete :: "leader_sets \<Rightarrow> arrivals \<Rightarrow> u64 \<Rightarrow> bool" where
  "complete ls h slot \<longleftrightarrow> flagged_sets ls h slot \<noteq> []
     \<and> list_all (\<lambda>i. 32 \<le> card (arrived h (fkey slot i))) (covered ls h slot)"

text \<open>After how many arrivals the slot is complete for the first time, and the report then.\<close>

definition first_complete :: "leader_sets \<Rightarrow> arrivals \<Rightarrow> u64 \<Rightarrow> nat \<Rightarrow> bool" where
  "first_complete ls h slot n \<longleftrightarrow> n \<le> length h \<and> complete ls (take n h) slot
     \<and> (\<forall>m < n. \<not> complete ls (take m h) slot)"

definition report_of :: "(bytes \<Rightarrow> bytes) \<Rightarrow> leader_sets \<Rightarrow> arrivals \<Rightarrow> u64 \<Rightarrow> fec_event" where
  "report_of sha ls h slot =
     (let rts = map (\<lambda>i. ls_root ls (fkey slot i)) (covered ls h slot)
      in SlotFinalized slot rts (aggregate_root sha rts) (32 * length rts) 1)"

lemma arrived_snoc [simp]:
  "arrived (h @ [(key, i)]) k = (if k = key then insert i (arrived h k) else arrived h k)"
  by (auto simp: arrived_def)

lemma arrived_Nil [simp]: "arrived [] k = {}"
  by (simp add: arrived_def)

lemma arrived_finite [simp]: "finite (arrived h k)"
  by (simp add: arrived_def)

lemma arrived_iff: "j \<in> arrived h key \<longleftrightarrow> (key, j) \<in> set h"
  by (force simp: arrived_def)

lemma seen_snoc [simp]:
  "set (seen_sets (h @ [(key, i)]) slot) =
     (if fk_slot key = slot then insert (fk_index key) (set (seen_sets h slot)) else set (seen_sets h slot))"
  by (auto simp: seen_sets_def)

lemma flagged_snoc [simp]:
  "set (flagged_sets ls (h @ [(key, i)]) slot) =
     (if fk_slot key = slot \<and> ls_last ls key i then insert (fk_index key) (set (flagged_sets ls h slot))
      else set (flagged_sets ls h slot))"
  by (auto simp: flagged_sets_def)

lemma seen_Nil [simp]: "seen_sets [] slot = []" "flagged_sets ls [] slot = []"
  by (simp_all add: seen_sets_def flagged_sets_def)

lemma seen_arrived: "i \<in> set (seen_sets h slot) \<longleftrightarrow> arrived h (fkey slot i) \<noteq> {}"
proof -
  have "i \<in> set (seen_sets h slot) \<longleftrightarrow> (\<exists>k j. (k, j) \<in> set h \<and> fk_slot k = slot \<and> fk_index k = i)"
    by (auto simp: seen_sets_def) force
  also have "\<dots> \<longleftrightarrow> (\<exists>j. (fkey slot i, j) \<in> set h)"
    by (metis fec_key.select_convs(1,2) fec_key.surjective old.unit.exhaust)
  also have "\<dots> \<longleftrightarrow> arrived h (fkey slot i) \<noteq> {}"
    by (auto simp: arrived_def filter_empty_conv)
  finally show ?thesis .
qed

lemma flagged_seen: "set (flagged_sets ls h slot) \<subseteq> set (seen_sets h slot)"
  by (auto simp: flagged_sets_def seen_sets_def)

lemma covered_set:
  "set (covered ls h slot) = {i \<in> set (seen_sets h slot). i \<le> Max (set (flagged_sets ls h slot))}"
  by (auto simp: covered_def)

lemma complete_iff:
  "complete ls h slot \<longleftrightarrow> set (flagged_sets ls h slot) \<noteq> {}
     \<and> (\<forall>i \<in> set (seen_sets h slot). i \<le> Max (set (flagged_sets ls h slot)) \<longrightarrow> 32 \<le> card (arrived h (fkey slot i)))"
  by (auto simp: complete_def list_all_iff covered_set)

section \<open>One set\<close>

text \<open>The state of a set of which the positions \<open>A\<close> have arrived.\<close>

definition set_tracks :: "bytes \<Rightarrow> nat set \<Rightarrow> fec_state \<Rightarrow> bool" where
  "set_tracks rt A st \<longleftrightarrow> (A = {} \<longrightarrow> st = fec_state_new) \<and> (A \<noteq> {} \<longrightarrow> st_root st = Some rt)
     \<and> (st_reconstructed st \<longleftrightarrow> 32 \<le> card A) \<and> (card A < 32 \<longrightarrow> positions st = A)
     \<and> (32 \<le> card A \<longrightarrow> st_distinct st = 32)"

lemma set_tracks_step:
  assumes t: "set_tracks rt A st" and wf: "fec_wf st" and "finite A" and rs: "rs_ok rs" and i: "i < 64"
    and b: "length b = 987" and step: "set_step rs key rt i b st st' evs"
  shows "set_tracks rt (insert i A) st'"
proof (cases "32 \<le> card A")
  case True
  then have d: "st_reconstructed st" "A \<noteq> {}" using t by (auto simp: set_tracks_def)
  have "32 \<le> card (insert i A)" using True \<open>finite A\<close> by (simp add: card_insert_if)
  with t d True set_step_keeps_done [OF step d(1)] show ?thesis by (auto simp: set_tracks_def)
next
  case False
  then have D: "positions st = A" "\<not> st_reconstructed st" using t by (simp_all add: set_tracks_def)
  have rt: "st_root st \<in> {None, Some rt}"
    using t by (cases "A = {}") (auto simp: set_tracks_def fec_state_new_def)
  from open_step_cases [OF wf D(1,2) rt _ rs i b step] False
  consider "i \<in> A" "st' = open_set rt st"
    | "i \<notin> A" "card A < 31" "st' = store i b (open_set rt st)"
    | "i \<notin> A" "card A = 31" "st' = rebuild (store i b (open_set rt st))" by auto
  then show ?thesis
  proof cases
    case 1
    then have "insert i A = A" by auto
    with 1 False D show ?thesis by (auto simp: set_tracks_def positions_def)
  next
    case 2
    then show ?thesis
      using D wf i \<open>finite A\<close> by (simp add: set_tracks_def positions_update fec_wf_def)
  next
    case 3
    have "st_distinct st = card A" using wf card_positions [of st] D by (simp add: fec_wf_def)
    with 3 \<open>finite A\<close> show ?thesis by (simp add: set_tracks_def)
  qed
qed

section \<open>The assembler\<close>

text \<open>The assembler after the arrivals \<open>h\<close>, its resolver still in service.\<close>

definition tracks :: "('s \<Rightarrow> bool) \<Rightarrow> leader_sets \<Rightarrow> arrivals \<Rightarrow> 's assembler \<Rightarrow> bool" where
  "tracks serving ls h asm \<longleftrightarrow> asm_wf asm \<and> serving (resolver asm)
     \<and> (\<forall>key. set_tracks (ls_root ls key) (arrived h key) (state_or_new asm key)
          \<and> (states asm key = None \<longleftrightarrow> arrived h key = {}))
     \<and> (\<forall>slot. ss_last_index (slot_or_default asm slot) =
          (if set (flagged_sets ls h slot) = {} then None else Some (Max (set (flagged_sets ls h slot)))))
     \<and> (\<forall>slot. slot_done asm slot \<longleftrightarrow> (\<exists>m \<le> length h. complete ls (take m h) slot))"

lemma tracks_start: "serving s \<Longrightarrow> tracks serving ls [] (with_resolver s)"
  using with_resolver_wf [of s]
  by (simp add: tracks_def with_resolver_def state_or_new_def slot_or_default_def slot_done_def
      slot_state_default_def complete_iff set_tracks_def positions_def fec_state_new_def)

text \<open>The bookkeeping of a slot, settled but not yet finalized, in terms of the arrivals.\<close>

definition settled_tracks :: "leader_sets \<Rightarrow> arrivals \<Rightarrow> u64 \<Rightarrow> 's assembler \<Rightarrow> bool" where
  "settled_tracks ls h slot asm \<longleftrightarrow> asm_wf asm
     \<and> (\<forall>i. set_tracks (ls_root ls (fkey slot i)) (arrived h (fkey slot i)) (state_or_new asm (fkey slot i))
          \<and> (states asm (fkey slot i) = None \<longleftrightarrow> arrived h (fkey slot i) = {}))
     \<and> ss_last_index (slot_or_default asm slot) =
          (if set (flagged_sets ls h slot) = {} then None else Some (Max (set (flagged_sets ls h slot))))"

lemma settled_tracks_seen:
  assumes "settled_tracks ls h slot asm"
  shows "set (ss_seen (slot_or_default asm slot)) = set (seen_sets h slot)"
    and "sorted (ss_seen (slot_or_default asm slot))" "distinct (ss_seen (slot_or_default asm slot))"
    and "set (ss_reconstructed (slot_or_default asm slot)) = {i. 32 \<le> card (arrived h (fkey slot i))}"
    and "ss_last_seen (slot_or_default asm slot) \<longleftrightarrow> set (flagged_sets ls h slot) \<noteq> {}"
proof -
  let ?ss = "slot_or_default asm slot"
  have sw: "slot_wf (states asm) slot ?ss" using assms by (simp add: settled_tracks_def asm_wf_def)
  have st: "set_tracks (ls_root ls (fkey slot i)) (arrived h (fkey slot i)) (state_or_new asm (fkey slot i))"
    "states asm (fkey slot i) = None \<longleftrightarrow> arrived h (fkey slot i) = {}" for i
    using assms by (simp_all add: settled_tracks_def)
  show "set (ss_seen ?ss) = set (seen_sets h slot)"
    using sw st(2) by (auto simp: slot_wf_def seen_arrived)
  show "sorted (ss_seen ?ss)" "distinct (ss_seen ?ss)" using sw by (simp_all add: slot_wf_def prim_ordered)
  have "i \<in> set (ss_reconstructed ?ss) \<longleftrightarrow> 32 \<le> card (arrived h (fkey slot i))" for i
  proof -
    have "i \<in> set (ss_reconstructed ?ss) \<longleftrightarrow> (\<exists>st. states asm (fkey slot i) = Some st \<and> st_reconstructed st)"
      using sw by (simp add: slot_wf_def)
    also have "\<dots> \<longleftrightarrow> st_reconstructed (state_or_new asm (fkey slot i))"
      by (auto simp: state_or_new_def fec_state_new_def split: option.split)
    finally show ?thesis using st(1) by (simp add: set_tracks_def)
  qed
  then show "set (ss_reconstructed ?ss) = {i. 32 \<le> card (arrived h (fkey slot i))}" by auto
  show "ss_last_seen ?ss \<longleftrightarrow> set (flagged_sets ls h slot) \<noteq> {}"
    using sw assms by (simp add: slot_wf_def settled_tracks_def)
qed

lemma settled_tracks_covered:
  assumes "settled_tracks ls h slot asm"
  shows "checked_sets (slot_or_default asm slot) (Max (set (flagged_sets ls h slot))) = covered ls h slot"
proof -
  note s = settled_tracks_seen [OF assms]
  let ?l = "Max (set (flagged_sets ls h slot))" and ?xs = "ss_seen (slot_or_default asm slot)"
  have "filter (\<lambda>i. i \<le> ?l) ?xs = sorted_list_of_set (set (filter (\<lambda>i. i \<le> ?l) ?xs))"
    using s(2,3) by (intro sorted_list_of_set.idem_if_sorted_distinct [symmetric]) (simp_all add: sorted_wrt_filter)
  also have "set (filter (\<lambda>i. i \<le> ?l) ?xs) = set (filter (\<lambda>i. i \<le> ?l) (seen_sets h slot))"
    using s(1) by auto
  finally show ?thesis by (simp only: checked_sets_def covered_def)
qed

lemma settled_tracks_ready:
  assumes "settled_tracks ls h slot asm"
  shows "ready (slot_or_default asm slot) l \<longleftrightarrow>
     \<not> ss_finalized (slot_or_default asm slot) \<and> complete ls h slot \<and> l = Max (set (flagged_sets ls h slot))"
proof (cases "set (flagged_sets ls h slot) = {}")
  case True
  then show ?thesis using settled_tracks_seen(5) [OF assms] by (simp add: ready_def complete_iff)
next
  case False
  let ?l = "Max (set (flagged_sets ls h slot))"
  have l: "ss_last_index (slot_or_default asm slot) = Some ?l" using assms False by (simp add: settled_tracks_def)
  have "?l \<in> set (seen_sets h slot)" using False flagged_seen [of ls h slot] Max_in [OF _ False] by auto
  with l settled_tracks_seen [OF assms] settled_tracks_covered [OF assms] False show ?thesis
    by (auto simp: ready_def complete_def list_all_iff)
qed

lemma settled_tracks_report:
  assumes "settled_tracks ls h slot asm" and "complete ls h slot"
  shows "slot_report sha asm slot (covered ls h slot) = report_of sha ls h slot"
proof -
  have each: "st_root (state_or_new asm (fkey slot i)) = Some (ls_root ls (fkey slot i))
      \<and> st_distinct (state_or_new asm (fkey slot i)) = 32" if "i \<in> set (covered ls h slot)" for i
  proof -
    have "32 \<le> card (arrived h (fkey slot i))" using assms(2) that by (auto simp: complete_def list_all_iff)
    moreover from this have "arrived h (fkey slot i) \<noteq> {}" by auto
    moreover have "set_tracks (ls_root ls (fkey slot i)) (arrived h (fkey slot i)) (state_or_new asm (fkey slot i))"
      using assms(1) by (simp add: settled_tracks_def)
    ultimately show ?thesis by (simp add: set_tracks_def)
  qed
  have "map (\<lambda>i. the (st_root (state_or_new asm (fkey slot i)))) (covered ls h slot)
      = map (\<lambda>i. ls_root ls (fkey slot i)) (covered ls h slot)" using each by simp
  moreover have "(\<Sum>i \<leftarrow> covered ls h slot. st_distinct (state_or_new asm (fkey slot i)))
      = (\<Sum>i \<leftarrow> covered ls h slot. 32)"
    using each by (intro arg_cong [where f = sum_list] map_cong) auto
  ultimately show ?thesis unfolding slot_report_def report_of_def Let_def by (simp only:) (simp add: sum_list_triv)
qed

section \<open>One datagram\<close>

lemma prefix_cases:
  "(\<exists>m \<le> length (h @ [a]). Q (take m (h @ [a]))) \<longleftrightarrow> (\<exists>m \<le> length h. Q (take m h)) \<or> Q (h @ [a])"
proof -
  have "m \<le> length (h @ [a]) \<longleftrightarrow> m \<le> length h \<or> m = length (h @ [a])" for m by auto
  then show ?thesis by (metis (no_types, lifting) take_all take_append append_Nil2 diff_is_0_eq take0 order_refl)
qed

lemma complete_other:
  assumes "fk_slot key \<noteq> slot"
  shows "complete ls (h @ [(key, i)]) slot \<longleftrightarrow> complete ls h slot"
proof -
  have "fkey slot j \<noteq> key" for j using assms by auto
  then show ?thesis using assms by (simp add: complete_iff)
qed

text \<open>The arrival that completes a slot belongs to a set that is complete.\<close>

lemma completing_arrival:
  assumes "complete ls (h @ [(key, i)]) (fk_slot key)" and "\<not> complete ls h (fk_slot key)"
  shows "32 \<le> card (insert i (arrived h key))"
proof (rule ccontr)
  assume few: "\<not> ?thesis"
  let ?slot = "fk_slot key" and ?h = "h @ [(key, i)]"
  let ?F = "set (flagged_sets ls ?h ?slot)"
  have key: "fkey ?slot (fk_index key) = key" by simp
  have F: "?F \<noteq> {}" and each: "\<And>j. j \<in> set (seen_sets ?h ?slot) \<Longrightarrow> j \<le> Max ?F \<Longrightarrow> 32 \<le> card (arrived ?h (fkey ?slot j))"
    using assms(1) by (auto simp only: complete_iff)
  have "\<not> fk_index key \<le> Max ?F" using each [of "fk_index key", unfolded key] few by auto
  moreover have "j \<le> Max ?F" if "j \<in> ?F" for j using that by simp
  ultimately have not: "fk_index key \<notin> ?F" "\<not> ls_last ls key i" by auto
  then have same: "?F = set (flagged_sets ls h ?slot)" by simp
  have "32 \<le> card (arrived h (fkey ?slot j))" if "j \<in> set (seen_sets h ?slot)" "j \<le> Max ?F" for j
  proof -
    have "j \<noteq> fk_index key" using that(2) \<open>\<not> fk_index key \<le> Max ?F\<close> by blast
    then have "fkey ?slot j \<noteq> key" by (metis fec_key.select_convs(2))
    with each [of j] that show ?thesis by simp
  qed
  with F assms(2) show False by (simp only: complete_iff same) blast
qed

lemma settle_tracks:
  assumes s: "settled_tracks ls h (v_slot w) (settled w st asm)"
    and fin: "settle sha w st asm = (asm', fin)"
    and new: "complete ls h (v_slot w) \<Longrightarrow> \<not> slot_done asm (v_slot w) \<Longrightarrow> st_reconstructed st"
  shows "fin = (if complete ls h (v_slot w) \<and> \<not> slot_done asm (v_slot w) then Some (report_of sha ls h (v_slot w)) else None)"
    and "slot_done asm' slot \<longleftrightarrow> slot_done asm slot \<or> slot = v_slot w \<and> complete ls h (v_slot w)"
proof -
  let ?S = "settled w st asm" and ?l = "Max (set (flagged_sets ls h (v_slot w)))"
  have wf: "asm_wf ?S" using s by (simp add: settled_tracks_def)
  have here: "slot_or_default ?S (v_slot w) = settled_slot w st asm" "slots ?S (v_slot w) = Some (settled_slot w st asm)"
    by (simp_all add: slot_or_default_settled) (simp add: settled_def)
  have flag: "ss_finalized (settled_slot w st asm) = slot_done asm (v_slot w)" by (simp add: slot_done_def)
  note ready = settled_tracks_ready [OF s, unfolded here(1) flag]
  have "fin = (if complete ls h (v_slot w) \<and> \<not> slot_done asm (v_slot w) then Some (report_of sha ls h (v_slot w)) else None)
      \<and> (slot_done asm' slot \<longleftrightarrow> slot_done asm slot \<or> slot = v_slot w \<and> complete ls h (v_slot w))"
  proof (cases "complete ls h (v_slot w) \<and> \<not> slot_done asm (v_slot w)")
    case True
    then have r: "ready (settled_slot w st asm) ?l" and st: "st_reconstructed st" using ready new by auto
    from finalize_content(1) [OF wf here(2) r, of sha] fin st
    have eq: "asm' = finalize_flag (v_slot w) (settled_slot w st asm) ?S"
      "fin = Some (slot_report sha ?S (v_slot w) (checked_sets (settled_slot w st asm) ?l))"
      by (simp_all add: settle_def)
    have "fin = Some (report_of sha ls h (v_slot w))"
      using eq(2) settled_tracks_covered [OF s] settled_tracks_report [OF s] True here(1) by simp
    moreover have "slot_done asm' slot \<longleftrightarrow> slot_done asm slot \<or> slot = v_slot w"
      by (simp add: eq(1) slot_done_def slot_or_default_def settled_def)
    ultimately show ?thesis using True by simp
  next
    case False
    then have "\<not> ready (settled_slot w st asm) l" for l using ready by blast
    with settle_report [OF fin wf] have "fin = None" "asm' = ?S" by auto
    with False show ?thesis by (auto simp: settled_done)
  qed
  then show "fin = (if complete ls h (v_slot w) \<and> \<not> slot_done asm (v_slot w) then Some (report_of sha ls h (v_slot w)) else None)"
    and "slot_done asm' slot \<longleftrightarrow> slot_done asm slot \<or> slot = v_slot w \<and> complete ls h (v_slot w)" by blast+
qed

lemma similar_last_index:
  "slots_similar asm asm' \<Longrightarrow> ss_last_index (slot_or_default asm' slot) = ss_last_index (slot_or_default asm slot)"
  unfolding slots_similar_def unflagged_def
  by (metis slot_state.select_convs(4) slot_state.surjective slot_state.update_convs(5))

lemma settled_last_index:
  assumes "\<And>slot. ss_last_index (slot_or_default asm slot) =
      (if set (flagged_sets ls h slot) = {} then None else Some (Max (set (flagged_sets ls h slot))))"
    and "v_slot w = fk_slot key" "v_fec_set_index w = fk_index key" "is_last_in_slot w \<longleftrightarrow> ls_last ls key i"
  shows "ss_last_index (slot_or_default (settled w st asm) slot) =
      (if set (flagged_sets ls (h @ [(key, i)]) slot) = {} then None
       else Some (Max (set (flagged_sets ls (h @ [(key, i)]) slot))))"
  using assms(1) [of "fk_slot key"] assms(1) [of slot] assms(2-4)
  by (cases "set (flagged_sets ls h (fk_slot key)) = {}") (simp_all add: slot_or_default_settled max.commute)

text \<open>After an arrival of its slot, whether a slot is done, from whether it was done before.\<close>

lemma done_prefixes:
  assumes "d \<longleftrightarrow> (\<exists>m \<le> length h. complete ls (take m h) slot)"
    and "d' \<longleftrightarrow> d \<or> slot = fk_slot key \<and> complete ls (h @ [(key, i)]) (fk_slot key)"
  shows "d' \<longleftrightarrow> (\<exists>m \<le> length (h @ [(key, i)]). complete ls (take m (h @ [(key, i)])) slot)"
proof (cases "slot = fk_slot key")
  case True
  then show ?thesis using assms prefix_cases [of h "(key, i)" "\<lambda>h. complete ls h slot"] by simp
next
  case False
  have "complete ls h slot \<Longrightarrow> \<exists>m \<le> length h. complete ls (take m h) slot" by (intro exI [of _ "length h"]) simp
  with False show ?thesis
    using assms prefix_cases [of h "(key, i)" "\<lambda>h. complete ls h slot"] complete_other [of key slot ls h i] by auto
qed

text \<open>A settled slot and all sets after an arrival, in terms of the arrivals.\<close>

lemma tracks_settled:
  assumes t: "tracks serving ls h asm"
    and w: "key_of w = key" "v_slot w = fk_slot key" "v_fec_set_index w = fk_index key" "is_last_in_slot w \<longleftrightarrow> ls_last ls key i"
    and st': "set_tracks (ls_root ls key) (insert i (arrived h key)) st'"
    and wf: "asm_wf (settled w st' (asm\<lparr>resolver := s\<rparr>))"
  shows "settled_tracks ls (h @ [(key, i)]) (v_slot w) (settled w st' (asm\<lparr>resolver := s\<rparr>))"
    and "set_tracks (ls_root ls k) (arrived (h @ [(key, i)]) k) (if k = key then st' else state_or_new asm k)"
    and "((states asm)(key \<mapsto> st')) k = None \<longleftrightarrow> arrived (h @ [(key, i)]) k = {}"
    and "ss_last_index (slot_or_default (settled w st' (asm\<lparr>resolver := s\<rparr>)) slot) =
      (if set (flagged_sets ls (h @ [(key, i)]) slot) = {} then None
       else Some (Max (set (flagged_sets ls (h @ [(key, i)]) slot))))"
proof -
  let ?h = "h @ [(key, i)]" and ?asm = "asm\<lparr>resolver := s\<rparr>"
  have st: "\<And>k. set_tracks (ls_root ls k) (arrived h k) (state_or_new asm k)"
      "\<And>k. states asm k = None \<longleftrightarrow> arrived h k = {}"
    and last: "\<And>slot. ss_last_index (slot_or_default ?asm slot) =
          (if set (flagged_sets ls h slot) = {} then None else Some (Max (set (flagged_sets ls h slot))))"
    using t by (simp_all add: tracks_def slot_or_default_def)
  show upd: "set_tracks (ls_root ls k) (arrived ?h k) (if k = key then st' else state_or_new asm k)" for k
    using st' st(1) by simp
  show none: "((states asm)(key \<mapsto> st')) k = None \<longleftrightarrow> arrived ?h k = {}" for k
    using st(2) by simp
  note lastS = settled_last_index [where h = h and i = i and asm = ?asm, OF last w(2-4)]
  show "ss_last_index (slot_or_default (settled w st' ?asm) slot) =
      (if set (flagged_sets ls ?h slot) = {} then None else Some (Max (set (flagged_sets ls ?h slot))))" by (rule lastS)
  have "state_or_new (settled w st' ?asm) k = (if k = key then st' else state_or_new asm k)" for k
    by (simp add: state_or_new_def w(1))
  then show "settled_tracks ls ?h (v_slot w) (settled w st' ?asm)"
    unfolding settled_tracks_def using wf upd none lastS by (simp add: w(1))
qed

lemma tracks_step:
  assumes t: "tracks serving ls h asm" and d: "delivers env pk key (ls_root ls key) (ls_last ls key) (ls_raw ls key)"
    and serve: "\<exists>s. le_resolve env (resolver asm) (fk_slot key) = Ret (s, Some pk) \<and> serving s"
    and rs: "rs_ok (le_rs env)" "rs_total (le_rs env)" and i: "i < 64"
  shows "\<exists>asm' evs1 fin. ingest env asm (ls_raw ls key i) = Ret (asm', evs1 @ fin_events fin)
     \<and> tracks serving ls (h @ [(key, i)]) asm' \<and> (\<forall>s rts r n c. SlotFinalized s rts r n c \<notin> set evs1)
     \<and> fin = (if complete ls (h @ [(key, i)]) (fk_slot key) \<and> \<not> slot_done asm (fk_slot key)
              then Some (report_of (le_sha env) ls (h @ [(key, i)]) (fk_slot key)) else None)"
proof -
  let ?h = "h @ [(key, i)]" and ?slot = "fk_slot key" and ?st = "state_or_new asm key"
  have wf: "asm_wf asm"
    and st: "\<And>k. set_tracks (ls_root ls k) (arrived h k) (state_or_new asm k)"
    and fin0: "\<And>slot. slot_done asm slot \<longleftrightarrow> (\<exists>m \<le> length h. complete ls (take m h) slot)"
    using t by (simp_all add: tracks_def)
  obtain s0 where s0: "le_resolve env (resolver asm) (fk_slot key) = Ret (s0, Some pk)" "serving s0"
    using serve by blast
  let ?asm = "asm\<lparr>resolver := s0\<rparr>"
  have same: "slot_or_default ?asm = slot_or_default asm" "slot_done ?asm = slot_done asm" "state_or_new ?asm = state_or_new asm"
    by (simp_all add: fun_eq_iff slot_or_default_def slot_done_def state_or_new_def)
  obtain asm' evs w st' evs1 fin where ing: "ingest env asm (ls_raw ls key i) = Ret (asm', evs)"
    and w: "key_of w = key" "v_slot w = fk_slot key" "v_fec_set_index w = fk_index key" "is_last_in_slot w \<longleftrightarrow> ls_last ls key i"
    and b: "length (shard_of w (ls_raw ls key i)) = 987"
    and s: "set_step (le_rs env) key (ls_root ls key) i (shard_of w (ls_raw ls key i)) ?st st' evs1"
    and fin: "settle (le_sha env) w st' ?asm = (asm', fin)" and evs: "evs = evs1 @ fin_events fin"
    and wfS: "asm_wf (settled w st' ?asm)" and wf': "asm_wf asm'" and res': "resolver asm' = s0"
    and sts: "states asm' = (states asm)(key \<mapsto> st')"
    by (rule delivers_step [OF wf s0(1) d rs(2) i]) blast
  let ?S = "settled w st' ?asm"
  have st': "set_tracks (ls_root ls key) (insert i (arrived h key)) st'"
    by (rule set_tracks_step [OF st(1) state_or_new_wf [OF wf] _ rs(1) i b s]) simp
  note after = tracks_settled [where key = key and i = i and s = s0, OF t w st' wfS]
  have S: "state_or_new asm' k = (if k = key then st' else state_or_new asm k)" for k
    by (simp add: state_or_new_def sts)
  have "st_reconstructed st'" if "complete ls ?h ?slot" "\<not> slot_done asm ?slot"
  proof -
    have "\<not> complete ls h ?slot" using that(2) fin0 by auto
    from completing_arrival [OF that(1) this] st' show ?thesis by (simp add: set_tracks_def)
  qed
  note settle = settle_tracks [OF after(1) fin, unfolded w(2) same, OF this]
  have last': "ss_last_index (slot_or_default asm' slot) = ss_last_index (slot_or_default ?S slot)" for slot
    by (rule similar_last_index [OF settle_similar [OF fin]])
  have "slot_done asm' slot \<longleftrightarrow> (\<exists>m \<le> length ?h. complete ls (take m ?h) slot)" for slot
    by (rule done_prefixes [OF fin0 settle(2)])
  then have "tracks serving ls ?h asm'"
    unfolding tracks_def using wf' res' s0(2) after(2-4) last' S by (simp add: sts)
  then show ?thesis using ing evs settle(1) set_step_no_slot_event [OF s] by blast
qed

section \<open>Runs\<close>

lemma first_complete_snoc:
  "first_complete ls (h @ [a]) slot n \<longleftrightarrow> first_complete ls h slot n
     \<or> n = Suc (length h) \<and> complete ls (h @ [a]) slot \<and> \<not> (\<exists>m \<le> length h. complete ls (take m h) slot)"
  by (cases "n \<le> length h") (auto simp: first_complete_def less_Suc_eq_le le_Suc_eq)

text \<open>The slot reports of a run over the arrivals \<open>h\<close>.\<close>

definition reports_tracked :: "(bytes \<Rightarrow> bytes) \<Rightarrow> leader_sets \<Rightarrow> arrivals \<Rightarrow> fec_event list \<Rightarrow> bool" where
  "reports_tracked sha ls h evs \<longleftrightarrow> (\<forall>s rts r n c. SlotFinalized s rts r n c \<in> set evs \<longleftrightarrow>
     (\<exists>k. first_complete ls h s k \<and> SlotFinalized s rts r n c = report_of sha ls (take k h) s))"

lemma reports_trackedD:
  assumes "reports_tracked sha ls h evs" and "first_complete ls h s k"
    and "report_of sha ls (take k h) s = SlotFinalized s rts r n c"
  shows "SlotFinalized s rts r n c \<in> set evs"
  using assms(2) assms(3) [symmetric] assms(1) [unfolded reports_tracked_def, rule_format, THEN iffD2] by blast

lemma report_slot: "SlotFinalized s rts r n c = report_of sha ls h slot \<Longrightarrow> s = slot"
  by (simp add: report_of_def Let_def)

lemma reports_step:
  assumes "reports_tracked sha ls h evs" and "\<forall>s rts r n c. SlotFinalized s rts r n c \<notin> set evs1"
    and "slot_done asm slot \<longleftrightarrow> (\<exists>m \<le> length h. complete ls (take m h) slot)" and "slot = fk_slot key"
    and fin: "fin = (if complete ls (h @ [(key, i)]) slot \<and> \<not> slot_done asm slot
              then Some (report_of sha ls (h @ [(key, i)]) slot) else None)"
  shows "reports_tracked sha ls (h @ [(key, i)]) (evs @ evs1 @ fin_events fin)"
  unfolding reports_tracked_def
proof (intro allI)
  fix s rts r n c
  let ?e = "SlotFinalized s rts r n c" and ?h = "h @ [(key, i)]"
  let ?new = "complete ls ?h s \<and> \<not> (\<exists>m \<le> length h. complete ls (take m h) s)"
  have late: "?e \<in> set (fin_events fin) \<longleftrightarrow> ?new \<and> ?e = report_of sha ls ?h s"
  proof (cases "s = slot")
    case True
    then show ?thesis using fin assms(3) by (auto simp: fin_events_def)
  next
    case False
    have "\<not> ?new"
    proof
      assume n: ?new
      then have "complete ls h s" using complete_other [of key s ls h i] False assms(4) by simp
      with n show False by (metis order_refl take_all)
    qed
    moreover have "?e \<notin> set (fin_events fin)" using fin False report_slot [of s rts r n c sha ls ?h slot] by (auto simp: fin_events_def)
    ultimately show ?thesis by blast
  qed
  have early: "?e \<in> set evs \<longleftrightarrow> (\<exists>k. first_complete ls h s k \<and> ?e = report_of sha ls (take k h) s)"
    using assms(1) unfolding reports_tracked_def by blast
  have same: "first_complete ls h s k \<Longrightarrow> take k ?h = take k h" for k by (simp add: first_complete_def)
  have now: "take (Suc (length h)) ?h = ?h" by simp
  have "(\<exists>k. first_complete ls ?h s k \<and> ?e = report_of sha ls (take k ?h) s) \<longleftrightarrow>
      (\<exists>k. first_complete ls h s k \<and> ?e = report_of sha ls (take k ?h) s)
      \<or> ?new \<and> ?e = report_of sha ls (take (Suc (length h)) ?h) s"
    unfolding first_complete_snoc by blast
  also have "(\<exists>k. first_complete ls h s k \<and> ?e = report_of sha ls (take k ?h) s) \<longleftrightarrow>
      (\<exists>k. first_complete ls h s k \<and> ?e = report_of sha ls (take k h) s)"
    by (rule ex_cong1) (use same in \<open>simp cong: conj_cong\<close>)
  finally have all: "(\<exists>k. first_complete ls ?h s k \<and> ?e = report_of sha ls (take k ?h) s) \<longleftrightarrow>
      (\<exists>k. first_complete ls h s k \<and> ?e = report_of sha ls (take k h) s) \<or> ?new \<and> ?e = report_of sha ls ?h s"
    unfolding now .
  show "?e \<in> set (evs @ evs1 @ fin_events fin) \<longleftrightarrow>
      (\<exists>k. first_complete ls ?h s k \<and> ?e = report_of sha ls (take k ?h) s)"
    using assms(2) unfolding all by (auto simp: early late)
qed

lemma ingest_all_snoc: 
  "ingest_all env raws asm = Ret (asm1, evs1) \<Longrightarrow> ingest env asm1 raw = Ret (asm2, evs2) \<Longrightarrow>
     ingest_all env (raws @ [raw]) asm = Ret (asm2, evs1 @ evs2)"
  by (simp add: ingest_all_append)

lemma arrivals_run:
  assumes "scheduled_resolver (le_resolve env) serving sched served" and "serving s0" and "fk_slot ` keys \<subseteq> served"
    and "honest env sched ls keys" and "rs_ok (le_rs env)" "rs_total (le_rs env)"
    and "set h \<subseteq> keys \<times> {..<64}"
  shows "\<exists>asm evs. ingest_all env (datagrams ls h) (with_resolver s0) = Ret (asm, evs)
     \<and> tracks serving ls h asm \<and> reports_tracked (le_sha env) ls h evs"
  using assms(7)
proof (induction h rule: rev_induct)
  case Nil
  have "reports_tracked (le_sha env) ls [] []"
    by (simp add: reports_tracked_def first_complete_def complete_iff)
  then show ?case using tracks_start [of serving s0 ls, OF assms(2)] by (simp add: datagrams_def)
next
  case (snoc a h)
  obtain key i where a: "a = (key, i)" by fastforce
  with snoc obtain asm evs where run: "ingest_all env (datagrams ls h) (with_resolver s0) = Ret (asm, evs)"
    and t: "tracks serving ls h asm" and r: "reports_tracked (le_sha env) ls h evs" by auto
  have d: "delivers env (sched (fk_slot key)) key (ls_root ls key) (ls_last ls key) (ls_raw ls key)" and i: "i < 64"
    and "fk_slot key \<in> served" using snoc.prems a assms(3,4) by (auto simp: honest_def)
  then have serve: "\<exists>s. le_resolve env (resolver asm) (fk_slot key) = Ret (s, Some (sched (fk_slot key))) \<and> serving s"
    using scheduled_resolver.serves [OF assms(1)] t by (simp add: tracks_def)
  from tracks_step [OF t d serve assms(5,6) i] obtain asm' evs1 fin where
    ing: "ingest env asm (ls_raw ls key i) = Ret (asm', evs1 @ fin_events fin)"
    and t': "tracks serving ls (h @ [(key, i)]) asm'" and no: "\<forall>s rts r n c. SlotFinalized s rts r n c \<notin> set evs1"
    and fin: "fin = (if complete ls (h @ [(key, i)]) (fk_slot key) \<and> \<not> slot_done asm (fk_slot key)
              then Some (report_of (le_sha env) ls (h @ [(key, i)]) (fk_slot key)) else None)" by blast
  have "slot_done asm (fk_slot key) \<longleftrightarrow> (\<exists>m \<le> length h. complete ls (take m h) (fk_slot key))"
    using t by (simp add: tracks_def)
  from reports_step [OF r no this refl fin] ingest_all_snoc [OF run ing] t' a show ?case
    by (simp add: datagrams_def)
qed

text \<open>Under a static key.\<close>

lemma static_arrivals_run:
  assumes "le_resolve env = static_leader" and "honest env (\<lambda>_. pk) ls keys" and "rs_ok (le_rs env)" "rs_total (le_rs env)"
    and "set h \<subseteq> keys \<times> {..<64}"
  shows "\<exists>asm evs. ingest_all env (datagrams ls h) (assembler_new pk) = Ret (asm, evs)
     \<and> tracks (\<lambda>s. s = pk) ls h asm \<and> reports_tracked (le_sha env) ls h evs"
  unfolding assembler_new_def
  by (rule arrivals_run [OF _ refl subset_UNIV assms(2-5)])
    (simp only: assms(1) static_schedule.scheduled_resolver_axioms)

lemma run_reconstructs:
  assumes "ingest_all env raws (with_resolver s) = Ret (asm, evs)" and "rs_total (le_rs env)"
  shows "Reconstructed key r c \<in> set evs \<longleftrightarrow> set_done asm key \<and> st_root (state_or_new asm key) = Some r \<and> c = 1"
proof
  assume "Reconstructed key r c \<in> set evs"
  from run_reconstructed [OF assms(1) with_resolver_wf assms(2) this]
  show "set_done asm key \<and> st_root (state_or_new asm key) = Some r \<and> c = 1"
    by (auto simp: set_done_def state_or_new_def)
next
  assume "set_done asm key \<and> st_root (state_or_new asm key) = Some r \<and> c = 1"
  with run_reported [OF assms] show "Reconstructed key r c \<in> set evs" by (auto simp: reported_def)
qed

lemma flagged_iff:
  "i \<in> set (flagged_sets ls h slot) \<longleftrightarrow> (\<exists>j. (fkey slot i, j) \<in> set h \<and> ls_last ls (fkey slot i) j)"
  unfolding flagged_sets_def seen_arrived by (auto simp: arrived_iff simp flip: ex_in_conv)

section \<open>One slot\<close>

lemma arrived_mono: "m \<le> n \<Longrightarrow> arrived (take m h) key \<subseteq> arrived (take n h) key"
  unfolding arrived_def by (auto dest: set_take_subset_set_take [THEN subsetD])

lemma seen_mono: "m \<le> n \<Longrightarrow> set (seen_sets (take m h) slot) \<subseteq> set (seen_sets (take n h) slot)"
  unfolding seen_sets_def by (auto dest: set_take_subset_set_take [THEN subsetD])

lemma complete_first:
  assumes "complete ls h slot"
  shows "\<exists>m. first_complete ls h slot m"
proof -
  let ?m = "LEAST m. complete ls (take m h) slot"
  have c: "complete ls (take (length h) h) slot" using assms by simp
  have "complete ls (take ?m h) slot" by (rule LeastI [of "\<lambda>m. complete ls (take m h) slot", OF c])
  moreover have "?m \<le> length h" by (rule Least_le [of "\<lambda>m. complete ls (take m h) slot", OF c])
  moreover have "\<forall>m < ?m. \<not> complete ls (take m h) slot" using not_less_Least by blast
  ultimately show ?thesis unfolding first_complete_def by blast
qed

text \<open>
  The arrivals of one slot with the sets \<open>idxs\<close> and, as the highest, \<open>l\<close>: these sets are seen and no other
  of the slot, 32 positions of each arrive, and exactly the set \<open>l\<close> shows a flagged shred.
\<close>

definition slot_sent :: "leader_sets \<Rightarrow> u64 \<Rightarrow> u32 list \<Rightarrow> u32 \<Rightarrow> arrivals \<Rightarrow> bool" where
  "slot_sent ls slot idxs l h \<longleftrightarrow> sorted_wrt (<) (idxs @ [l])
     \<and> set (seen_sets h slot) = set (idxs @ [l]) \<and> set (flagged_sets ls h slot) = {l}
     \<and> (\<forall>i \<in> set (idxs @ [l]). 32 \<le> card (arrived h (fkey slot i)))"

text \<open>The slot is not complete before every set has been seen.\<close>

definition none_missed :: "leader_sets \<Rightarrow> u64 \<Rightarrow> u32 list \<Rightarrow> u32 \<Rightarrow> arrivals \<Rightarrow> bool" where
  "none_missed ls slot idxs l h \<longleftrightarrow>
     (\<forall>m \<le> length h. complete ls (take m h) slot \<longrightarrow> set (seen_sets (take m h) slot) = set (idxs @ [l]))"

definition slot_arrives :: "leader_sets \<Rightarrow> u64 \<Rightarrow> u32 list \<Rightarrow> u32 \<Rightarrow> arrivals \<Rightarrow> bool" where
  "slot_arrives ls slot idxs l h \<longleftrightarrow> slot_sent ls slot idxs l h \<and> none_missed ls slot idxs l h"

text \<open>What is reported of a slot that has been sent, and the report that lists all of its sets.\<close>

definition full_report :: "(bytes \<Rightarrow> bytes) \<Rightarrow> leader_sets \<Rightarrow> u64 \<Rightarrow> u32 list \<Rightarrow> u32 \<Rightarrow> fec_event" where
  "full_report sha ls slot idxs l =
     SlotFinalized slot (map (\<lambda>i. ls_root ls (fkey slot i)) (idxs @ [l]))
       (aggregate_root sha (map (\<lambda>i. ls_root ls (fkey slot i)) (idxs @ [l]))) (32 * length (idxs @ [l])) 1"

lemma sent_flags:
  assumes "slot_sent ls slot idxs l h" and "complete ls (take m h) slot"
  shows "set (flagged_sets ls (take m h) slot) = {l}"
proof -
  have "set (flagged_sets ls (take m h) slot) \<subseteq> set (flagged_sets ls h slot)"
    by (auto simp: flagged_sets_def seen_sets_def dest: in_set_takeD)
  moreover have "set (flagged_sets ls (take m h) slot) \<noteq> {}" using assms(2) complete_iff [of ls "take m h" slot] by blast
  ultimately show ?thesis using assms(1) unfolding slot_sent_def by (metis subset_singletonD)
qed

lemma sent_covered:
  assumes "slot_sent ls slot idxs l h" and "complete ls (take m h) slot"
  shows "covered ls (take m h) slot = sorted_list_of_set (set (seen_sets (take m h) slot))"
    and "set (seen_sets (take m h) slot) \<subseteq> set (idxs @ [l])"
proof -
  have ord: "sorted_wrt (<) (idxs @ [l])" and seen: "set (seen_sets h slot) = set (idxs @ [l])"
    using assms(1) by (simp_all add: slot_sent_def)
  show sub: "set (seen_sets (take m h) slot) \<subseteq> set (idxs @ [l])"
    using seen by (auto simp: seen_sets_def dest: in_set_takeD)
  have "i \<le> l" if "i \<in> set (idxs @ [l])" for i using ord that by (auto simp: sorted_wrt_append)
  with sub have "set (filter (\<lambda>i. i \<le> l) (seen_sets (take m h) slot)) = set (seen_sets (take m h) slot)" by auto
  then show "covered ls (take m h) slot = sorted_list_of_set (set (seen_sets (take m h) slot))"
    by (simp only: covered_def sent_flags [OF assms] Max_singleton)
qed

text \<open>The report made when the slot is complete is the full one exactly if every set has been seen by then.\<close>

lemma sent_report:
  assumes "slot_sent ls slot idxs l h" and "complete ls (take m h) slot"
  shows "report_of sha ls (take m h) slot = full_report sha ls slot idxs l
     \<longleftrightarrow> set (seen_sets (take m h) slot) = set (idxs @ [l])"
proof
  have ord: "distinct (idxs @ [l])" "sorted (idxs @ [l])"
    using assms(1) by (simp_all only: slot_sent_def strict_sorted_iff)
  note c = sent_covered [OF assms]
  show "report_of sha ls (take m h) slot = full_report sha ls slot idxs l"
    if "set (seen_sets (take m h) slot) = set (idxs @ [l])"
  proof -
    have "covered ls (take m h) slot = idxs @ [l]"
      using ord unfolding c(1) that by (intro sorted_list_of_set.idem_if_sorted_distinct)
    then show ?thesis by (simp add: report_of_def full_report_def Let_def)
  qed
  assume "report_of sha ls (take m h) slot = full_report sha ls slot idxs l"
  then have "length (covered ls (take m h) slot) = length (idxs @ [l])"
    by (simp add: report_of_def full_report_def Let_def)
  then have "card (set (seen_sets (take m h) slot)) = card (set (idxs @ [l]))"
    using ord(1) unfolding c(1) by (simp only: sorted_list_of_set.length_sorted_key_list_of_set distinct_card)
  with c(2) show "set (seen_sets (take m h) slot) = set (idxs @ [l])"
    by (intro card_subset_eq) simp_all
qed

lemma first_complete_unique: "first_complete ls h slot m \<Longrightarrow> first_complete ls h slot n \<Longrightarrow> m = n"
  unfolding first_complete_def by (meson linorder_neqE_nat)

lemma sent_first:
  assumes "slot_sent ls slot idxs l h"
  shows "\<exists>m. first_complete ls h slot m
     \<and> (none_missed ls slot idxs l h \<longleftrightarrow> set (seen_sets (take m h) slot) = set (idxs @ [l]))"
proof -
  have "complete ls h slot" using assms by (simp add: complete_iff slot_sent_def)
  then obtain m where m: "first_complete ls h slot m" using complete_first by blast
  have "none_missed ls slot idxs l h" if all: "set (seen_sets (take m h) slot) = set (idxs @ [l])"
    unfolding none_missed_def
  proof (intro allI impI)
    fix k assume "k \<le> length h" and c: "complete ls (take k h) slot"
    then have "m \<le> k" using m unfolding first_complete_def by (metis not_le)
    with seen_mono [of m k h slot] all sent_covered(2) [OF assms c]
    show "set (seen_sets (take k h) slot) = set (idxs @ [l])" by blast
  qed
  moreover have "set (seen_sets (take m h) slot) = set (idxs @ [l])" if "none_missed ls slot idxs l h"
    using m that by (simp add: none_missed_def first_complete_def)
  ultimately show ?thesis using m by blast
qed

text \<open>Whether a run over the arrivals reports the slot with all of its sets.\<close>

lemma full_report_iff:
  assumes "reports_tracked sha ls h evs" and "slot_sent ls slot idxs l h"
  shows "full_report sha ls slot idxs l \<in> set evs \<longleftrightarrow> none_missed ls slot idxs l h"
    and "\<exists>rts r n c. SlotFinalized slot rts r n c \<in> set evs"
proof -
  obtain m where m: "first_complete ls h slot m"
    and none: "none_missed ls slot idxs l h \<longleftrightarrow> set (seen_sets (take m h) slot) = set (idxs @ [l])"
    using sent_first [OF assms(2)] by blast
  have c: "complete ls (take m h) slot" using m by (simp add: first_complete_def)
  obtain rts r n x where full: "full_report sha ls slot idxs l = SlotFinalized slot rts r n x"
    by (simp add: full_report_def)
  have "full_report sha ls slot idxs l \<in> set evs \<longleftrightarrow> full_report sha ls slot idxs l = report_of sha ls (take m h) slot"
    using assms(1) first_complete_unique [OF m] m unfolding reports_tracked_def full by metis
  with sent_report [OF assms(2) c, of sha] none
  show "full_report sha ls slot idxs l \<in> set evs \<longleftrightarrow> none_missed ls slot idxs l h" by metis
  obtain rts r n x where "report_of sha ls (take m h) slot = SlotFinalized slot rts r n x"
    by (simp add: report_of_def Let_def)
  from reports_trackedD [OF assms(1) m this] show "\<exists>rts r n c. SlotFinalized slot rts r n c \<in> set evs" by blast
qed

lemma slot_arrives_report:
  assumes "slot_arrives ls slot idxs l h"
  shows "\<exists>m. first_complete ls h slot m \<and> report_of sha ls (take m h) slot =
     SlotFinalized slot (map (\<lambda>i. ls_root ls (fkey slot i)) (idxs @ [l]))
       (aggregate_root sha (map (\<lambda>i. ls_root ls (fkey slot i)) (idxs @ [l]))) (32 * length (idxs @ [l])) 1"
proof -
  have sent: "slot_sent ls slot idxs l h" and "none_missed ls slot idxs l h" using assms by (simp_all add: slot_arrives_def)
  with sent_first [OF sent] obtain m where m: "first_complete ls h slot m"
    and "set (seen_sets (take m h) slot) = set (idxs @ [l])" by blast
  with sent_report [OF sent, of m sha] show ?thesis
    by (intro exI [of _ m]) (simp add: first_complete_def full_report_def)
qed

text \<open>It is enough that every set is seen before the last one has 32 positions.\<close>

lemma slot_arrivesI:
  assumes sent: "slot_sent ls slot idxs l h"
    and "\<exists>p \<le> length h. set (seen_sets (take p h) slot) = set (idxs @ [l]) \<and> card (arrived (take p h) (fkey slot l)) < 32"
  shows "slot_arrives ls slot idxs l h"
proof -
  obtain p where p: "set (seen_sets (take p h) slot) = set (idxs @ [l])" "card (arrived (take p h) (fkey slot l)) < 32"
    using assms(2) by blast
  have "set (seen_sets (take m h) slot) = set (idxs @ [l])" if c: "complete ls (take m h) slot" for m
  proof -
    have "32 \<le> card (arrived (take m h) (fkey slot l))"
      using c sent_flags [OF sent c] flagged_seen [of ls "take m h" slot] by (auto simp: complete_iff)
    with p(2) have "\<not> m \<le> p"
      using card_mono [OF arrived_finite arrived_mono, of m p h "fkey slot l"] by linarith
    then have "set (idxs @ [l]) \<subseteq> set (seen_sets (take m h) slot)"
      using seen_mono [of p m h slot] unfolding p(1) by simp
    with sent_covered(2) [OF sent c] show ?thesis by (rule equalityI)
  qed
  with sent show ?thesis by (simp add: slot_arrives_def none_missed_def)
qed

section \<open>One set alone, and a slot set by set\<close>

lemma delivery:
  assumes d: "delivers env pk key rt lst raw" and rs: "rs_ok (le_rs env)" "rs_total (le_rs env)"
    and "set is \<subseteq> {..<64}" and "32 \<le> card (set is)" and static: "le_resolve env = static_leader"
  shows "\<exists>asm evs. ingest_all env (map raw is) (assembler_new pk) = Ret (asm, evs) \<and> Reconstructed key rt 1 \<in> set evs
     \<and> ((\<exists>j \<in> set is. lst j) \<longrightarrow> SlotFinalized (fk_slot key) [rt] rt 32 1 \<in> set evs)"
proof -
  let ?ls = "\<lparr>ls_root = \<lambda>_. rt, ls_last = \<lambda>_. lst, ls_raw = \<lambda>_. raw\<rparr>" and ?h = "map (Pair key) is"
  have key: "fkey (fk_slot key) i = key \<longleftrightarrow> i = fk_index key" for i by (metis fec_key.select_convs(2) fec_key.surjective old.unit.exhaust)
  have arr: "arrived (map (Pair key) js) k = (if k = key then set js else {})" for k js
    by (auto simp: arrived_iff)
  have raws: "datagrams ?ls ?h = map raw is" by (simp add: datagrams_def o_def)
  have "honest env (\<lambda>_. pk) ?ls {key}" and "set ?h \<subseteq> {key} \<times> {..<64}" using d assms(4) by (auto simp: honest_def)
  from static_arrivals_run [OF static this(1) rs this(2)] obtain asm evs where
    run: "ingest_all env (map raw is) (assembler_new pk) = Ret (asm, evs)"
    and t: "tracks (\<lambda>s. s = pk) ?ls ?h asm" and r: "reports_tracked (le_sha env) ?ls ?h evs" by (auto simp: raws)
  have ne: "set is \<noteq> {}" using assms(5) by auto
  have "set_tracks (ls_root ?ls key) (arrived ?h key) (state_or_new asm key)" using t unfolding tracks_def by blast
  then have "set_tracks rt (set is) (state_or_new asm key)" by (simp add: arr)
  then have "Reconstructed key rt 1 \<in> set evs"
    using run_reconstructs [OF run [unfolded assembler_new_def] rs(2)] assms(5) ne by (simp add: set_done_def set_tracks_def)
  moreover have "SlotFinalized (fk_slot key) [rt] rt 32 1 \<in> set evs" if "\<exists>j \<in> set is. lst j"
  proof -
    have seen: "set (seen_sets (map (Pair key) js) (fk_slot key)) = (if js = [] then {} else {fk_index key})" for js
      by (auto simp: seen_arrived arr key)
    have "take 1 ?h = map (Pair key) [hd is]" using ne by (cases "is") simp_all
    with ne have "set (seen_sets (take 1 ?h) (fk_slot key)) = {fk_index key} \<and> card (arrived (take 1 ?h) (fkey (fk_slot key) (fk_index key))) < 32"
      by (simp only: seen arr) simp
    moreover have "1 \<le> length ?h" using ne by (cases "is") simp_all
    moreover have "set (flagged_sets ?ls ?h (fk_slot key)) = {fk_index key}" using that key by (force simp: flagged_iff)
    ultimately have "slot_arrives ?ls (fk_slot key) [] (fk_index key) ?h"
      using ne assms(5) seen [of "is"] by (intro slot_arrivesI) (auto simp: slot_sent_def arr)
    from slot_arrives_report [OF this, of "le_sha env"] r show ?thesis
      by (auto simp: reports_tracked_def aggregate_root_single)
  qed
  ultimately show ?thesis using run by blast
qed

text \<open>One set of a slot: its index, its root, which of its datagrams are flagged, its datagrams, and their order.\<close>

record set_delivery =
  ds_index :: u32
  ds_root :: bytes
  ds_last :: "nat \<Rightarrow> bool"
  ds_raw :: "nat \<Rightarrow> bytes"
  ds_order :: "nat list"

definition ds_ok :: "('r, 's) listener_env \<Rightarrow> bytes \<Rightarrow> u64 \<Rightarrow> set_delivery \<Rightarrow> bool" where
  "ds_ok env pk slot s \<longleftrightarrow> delivers env pk (fkey slot (ds_index s)) (ds_root s) (ds_last s) (ds_raw s)
     \<and> set (ds_order s) \<subseteq> {..<64} \<and> 32 \<le> card (set (ds_order s))"

definition ds_flagged :: "set_delivery \<Rightarrow> bool" where
  "ds_flagged s \<longleftrightarrow> (\<exists>j \<in> set (ds_order s). ds_last s j)"

definition ds_datagrams :: "set_delivery \<Rightarrow> bytes list" where
  "ds_datagrams s = map (ds_raw s) (ds_order s)"

text \<open>The sets of a slot as a leader's sets, and their deliveries as arrivals.\<close>

definition ds_sets :: "u64 \<Rightarrow> set_delivery list \<Rightarrow> leader_sets" where
  "ds_sets slot ds = (let pick = (\<lambda>key. the (map_of (map (\<lambda>s. (fkey slot (ds_index s), s)) ds) key)) in
     \<lparr>ls_root = ds_root \<circ> pick, ls_last = ds_last \<circ> pick, ls_raw = ds_raw \<circ> pick\<rparr>)"

definition ds_arrivals :: "u64 \<Rightarrow> set_delivery \<Rightarrow> arrivals" where
  "ds_arrivals slot s = map (Pair (fkey slot (ds_index s))) (ds_order s)"

lemma ds_sets_pick:
  assumes "distinct (map ds_index ds)" and "s \<in> set ds"
  shows "ls_root (ds_sets slot ds) (fkey slot (ds_index s)) = ds_root s"
    and "ls_last (ds_sets slot ds) (fkey slot (ds_index s)) = ds_last s"
    and "ls_raw (ds_sets slot ds) (fkey slot (ds_index s)) = ds_raw s"
proof -
  let ?kv = "map (\<lambda>s. (fkey slot (ds_index s), s)) ds"
  have "distinct (map fst ?kv)" using assms(1) by (simp add: o_def distinct_map inj_on_def)
  then have "map_of ?kv (fkey slot (ds_index s)) = Some s" using assms(2) by (intro map_of_is_SomeI) auto
  then show "ls_root (ds_sets slot ds) (fkey slot (ds_index s)) = ds_root s"
    and "ls_last (ds_sets slot ds) (fkey slot (ds_index s)) = ds_last s"
    and "ls_raw (ds_sets slot ds) (fkey slot (ds_index s)) = ds_raw s"
    by (simp_all add: ds_sets_def Let_def)
qed

lemma ds_arrivals_iff:
  "(key, j) \<in> set (concat (map (ds_arrivals slot) ds))
     \<longleftrightarrow> (\<exists>s \<in> set ds. key = fkey slot (ds_index s) \<and> j \<in> set (ds_order s))"
  by (auto simp: ds_arrivals_def)

lemma ds_arrived:
  assumes "distinct (map ds_index ds)" and "s \<in> set ds"
  shows "arrived (concat (map (ds_arrivals slot) ds)) (fkey slot (ds_index s)) = set (ds_order s)"
proof -
  have "t = s" if "t \<in> set ds" "ds_index t = ds_index s" for t
    using assms that by (auto simp: distinct_map inj_on_def)
  then show ?thesis using assms(2) by (auto simp: arrived_iff ds_arrivals_iff simp del: set_concat)
qed

lemma ds_seen:
  "set (seen_sets (concat (map (ds_arrivals slot) ds)) slot) = ds_index ` {s \<in> set ds. ds_order s \<noteq> []}"
proof (rule set_eqI)
  fix i
  have "i \<in> set (seen_sets (concat (map (ds_arrivals slot) ds)) slot)
      \<longleftrightarrow> (\<exists>j. \<exists>s \<in> set ds. i = ds_index s \<and> j \<in> set (ds_order s))"
    unfolding seen_arrived ex_in_conv [symmetric] arrived_iff ds_arrivals_iff by auto
  also have "\<dots> \<longleftrightarrow> (\<exists>s \<in> set ds. i = ds_index s \<and> ds_order s \<noteq> [])" by (metis empty_iff last_in_set list.set(1))
  also have "\<dots> \<longleftrightarrow> i \<in> ds_index ` {s \<in> set ds. ds_order s \<noteq> []}" by blast
  finally show "i \<in> set (seen_sets (concat (map (ds_arrivals slot) ds)) slot) \<longleftrightarrow> i \<in> ds_index ` {s \<in> set ds. ds_order s \<noteq> []}" .
qed

lemma ds_flagged_sets:
  assumes "distinct (map ds_index ds)"
  shows "set (flagged_sets (ds_sets slot ds) (concat (map (ds_arrivals slot) ds)) slot) = ds_index ` {s \<in> set ds. ds_flagged s}"
proof (rule set_eqI)
  fix i
  have "i \<in> set (flagged_sets (ds_sets slot ds) (concat (map (ds_arrivals slot) ds)) slot)
      \<longleftrightarrow> (\<exists>j. \<exists>s \<in> set ds. i = ds_index s \<and> j \<in> set (ds_order s) \<and> ls_last (ds_sets slot ds) (fkey slot i) j)"
    unfolding flagged_iff ds_arrivals_iff by auto
  also have "\<dots> \<longleftrightarrow> (\<exists>s \<in> set ds. i = ds_index s \<and> ds_flagged s)"
    unfolding ds_flagged_def using ds_sets_pick(2) [OF assms] by metis
  also have "\<dots> \<longleftrightarrow> i \<in> ds_index ` {s \<in> set ds. ds_flagged s}" by blast
  finally show "i \<in> set (flagged_sets (ds_sets slot ds) (concat (map (ds_arrivals slot) ds)) slot)
      \<longleftrightarrow> i \<in> ds_index ` {s \<in> set ds. ds_flagged s}" .
qed

lemma ds_datagrams_all:
  assumes "distinct (map ds_index ds)"
  shows "datagrams (ds_sets slot ds) (concat (map (ds_arrivals slot) ds)) = concat (map ds_datagrams ds)"
  unfolding datagrams_def map_concat map_map
  by (rule arg_cong [where f = concat], rule map_cong [OF refl])
    (simp add: ds_arrivals_def ds_datagrams_def ds_sets_pick(3) [OF assms] o_def)

lemma slot_delivery:
  assumes rs: "rs_ok (le_rs env)" "rs_total (le_rs env)"
    and unflagged: "\<forall>s \<in> set sets. ds_ok env pk slot s \<and> \<not> ds_flagged s" and l: "ds_ok env pk slot l" "ds_flagged l"
    and ord: "sorted_wrt (<) (map ds_index (sets @ [l]))" and static: "le_resolve env = static_leader"
  shows "\<exists>asm evs. ingest_all env (concat (map ds_datagrams (sets @ [l]))) (assembler_new pk) = Ret (asm, evs)
     \<and> SlotFinalized slot (map ds_root (sets @ [l])) (aggregate_root (le_sha env) (map ds_root (sets @ [l])))
          (32 * length (sets @ [l])) 1 \<in> set evs"
proof -
  let ?ds = "sets @ [l]" and ?A = "\<lambda>ds. concat (map (ds_arrivals slot) ds)"
  let ?ls = "ds_sets slot ?ds" and ?h = "?A ?ds" and ?p = "Suc (length (?A sets))"
  have dist: "distinct (map ds_index ?ds)" using ord by (simp only: strict_sorted_iff)
  have ok: "ds_ok env pk slot s" if "s \<in> set ?ds" for s using unflagged l that by auto
  then have ne: "ds_order s \<noteq> []" if "s \<in> set ?ds" for s using that by (fastforce simp: ds_ok_def)
  have "honest env (\<lambda>_. pk) ?ls ((\<lambda>s. fkey slot (ds_index s)) ` set ?ds)"
    using ok unfolding honest_def by (auto simp only: ds_sets_pick [OF dist] ds_ok_def)
  moreover have "set ?h \<subseteq> (\<lambda>s. fkey slot (ds_index s)) ` set ?ds \<times> {..<64}"
    using ok unfolding ds_ok_def by (auto simp only: ds_arrivals_iff) blast
  ultimately obtain asm evs where run: "ingest_all env (concat (map ds_datagrams ?ds)) (assembler_new pk) = Ret (asm, evs)"
    and r: "reports_tracked (le_sha env) ?ls ?h evs"
    using static_arrivals_run [OF static _ rs] by (metis ds_datagrams_all [OF dist])
  let ?l = "l\<lparr>ds_order := [hd (ds_order l)]\<rparr>"
  have seen: "set (seen_sets ?h slot) = set (map ds_index ?ds)" using ne unfolding ds_seen by auto
  have p: "take ?p ?h = ?A (sets @ [?l])" "?p \<le> length ?h"
    using ne [of l] by (cases "ds_order l"; simp add: ds_arrivals_def)+
  have "{s \<in> set (sets @ [?l]). ds_order s \<noteq> []} = insert ?l (set sets)" using ne by auto
  then have "set (seen_sets (take ?p ?h) slot) = set (map ds_index ?ds)" unfolding p(1) ds_seen by simp
  moreover have "card (arrived (take ?p ?h) (fkey slot (ds_index l))) < 32"
    using ds_arrived [of "sets @ [?l]" ?l slot] dist unfolding p(1) by simp
  ultimately have early: "\<exists>p \<le> length ?h. set (seen_sets (take p ?h) slot) = set (map ds_index ?ds)
      \<and> card (arrived (take p ?h) (fkey slot (ds_index l))) < 32" using p(2) by blast
  have idx: "map ds_index sets @ [ds_index l] = map ds_index ?ds" by simp
  have enough: "\<forall>i \<in> set (map ds_index ?ds). 32 \<le> card (arrived ?h (fkey slot i))"
    using ok unfolding ds_ok_def set_map ball_simps by (metis ds_arrived [OF dist])
  have "set (flagged_sets ?ls ?h slot) = {ds_index l}"
    using unflagged l(2) unfolding ds_flagged_sets [OF dist] by auto
  then have "slot_sent ?ls slot (map ds_index sets) (ds_index l) ?h"
    unfolding slot_sent_def idx using ord seen enough by blast
  then have "slot_arrives ?ls slot (map ds_index sets) (ds_index l) ?h"
    by (rule slot_arrivesI) (unfold idx, rule early)
  from slot_arrives_report [OF this, of "le_sha env"] obtain m where "first_complete ?ls ?h slot m"
    and "report_of (le_sha env) ?ls (take m ?h) slot = SlotFinalized slot (map ds_root ?ds)
      (aggregate_root (le_sha env) (map ds_root ?ds)) (32 * length ?ds) 1"
    by (auto simp: ds_sets_pick(1) [OF dist] o_def cong: map_cong)
  from reports_trackedD [OF r this] run show ?thesis by blast
qed

end
