(* ===== verification/Listener_Props.thy ===== *)
theory Listener_Props
  imports Arrivals
begin

text \<open>
  The properties of the assembler (\<open>crates/listener/src/lib.rs\<close>): invariant, panics, soundness and
  uniqueness of its events, delivery, equivocation, and the two computations it reports.
\<close>

section \<open>Reports of a run\<close>

text \<open>A slot report, traced back to the reports of its sets.\<close>

definition report_backed :: "(bytes \<Rightarrow> bytes) \<Rightarrow> u64 \<Rightarrow> bytes list \<Rightarrow> bytes \<Rightarrow> nat \<Rightarrow> rat \<Rightarrow> fec_event list \<Rightarrow> bool" where
  "report_backed sha slot rts r n c evs \<longleftrightarrow>
     c = 1 \<and> rts \<noteq> [] \<and> r = aggregate_root sha rts \<and> 32 * length rts \<le> n
     \<and> (\<exists>idxs. sorted idxs \<and> distinct idxs \<and> length idxs = length rts
          \<and> n = (\<Sum>j < length rts. accepted (fkey slot (idxs ! j)) evs)
          \<and> (\<forall>j < length rts. Reconstructed (fkey slot (idxs ! j)) (rts ! j) 1 \<in> set evs))"

lemma report_backed_mono:
  assumes "report_backed sha slot rts r n c evs"
    and "\<And>key rt. Reconstructed key rt 1 \<in> set evs \<Longrightarrow> accepted key evs' = 0"
  shows "report_backed sha slot rts r n c (evs @ evs')"
proof -
  from assms(1) obtain idxs where b: "c = 1" "rts \<noteq> []" "r = aggregate_root sha rts" "32 * length rts \<le> n"
    "sorted idxs" "distinct idxs" "length idxs = length rts"
    and n: "n = (\<Sum>j < length rts. accepted (fkey slot (idxs ! j)) evs)"
    and rec: "\<forall>j < length rts. Reconstructed (fkey slot (idxs ! j)) (rts ! j) 1 \<in> set evs"
    unfolding report_backed_def by blast
  have "accepted (fkey slot (idxs ! j)) evs' = 0" if "j < length rts" for j
    using assms(2) rec that by blast
  then have "n = (\<Sum>j < length rts. accepted (fkey slot (idxs ! j)) (evs @ evs'))" by (simp add: n)
  with b rec show ?thesis unfolding report_backed_def by (metis Un_iff set_append)
qed

lemma sum_at_least: "(\<And>i. i \<in> set is \<Longrightarrow> (k::nat) \<le> f i) \<Longrightarrow> k * length is \<le> (\<Sum>i \<leftarrow> is. f i)"
  by (induction "is") force+

lemma slot_report_backed:
  assumes "reported asm evs" and "asm_wf asm" and "is \<noteq> []" and "sorted is" and "distinct is"
    and "\<forall>i \<in> set is. set_done asm (fkey slot i)"
    and "slot_report sha asm slot is = SlotFinalized slot' rts r n c"
    and counts: "\<And>key. st_distinct (state_or_new asm key) = accepted key evs"
  shows "report_backed sha slot' rts r n c evs"
proof -
  let ?st = "\<lambda>i. state_or_new asm (fkey slot i)"
  from assms(7) have eq: "slot' = slot" "rts = map (\<lambda>i. the (st_root (?st i))) is" "c = 1"
    "r = aggregate_root sha rts" "n = (\<Sum>i \<leftarrow> is. st_distinct (?st i))"
    by (auto simp: slot_report_def Let_def)
  have "32 \<le> st_distinct (?st i)" if "i \<in> set is" for i
    using state_or_new_wf [OF assms(2), of "fkey slot i"] assms(6) that
    by (simp add: fec_wf_def set_done_def)
  then have "32 * length is \<le> n" unfolding eq(5) by (rule sum_at_least)
  moreover have "n = (\<Sum>j < length is. accepted (fkey slot (is ! j)) evs)"
    by (simp add: eq(5) counts sum_list_sum_nth atLeast0LessThan)
  moreover have "Reconstructed (fkey slot i) (the (st_root (?st i))) 1 \<in> set evs" if "i \<in> set is" for i
    using assms(1,6) that by (force simp: reported_def)
  ultimately show ?thesis
    using assms(3-5) eq by (auto simp: report_backed_def intro!: exI [of _ "is"])
qed

lemma ingest_finalized:
  assumes "ingest env asm1 raw = Ret (asm2, evs2)" and wf: "asm_wf asm1" and "rs_total (le_rs env)"
    and rep: "reported asm2 (evs1 @ evs2)"
    and counts: "\<And>key. st_distinct (state_or_new asm2 key) = accepted key (evs1 @ evs2)" and ev: "SlotFinalized slot rts r n c \<in> set evs2"
  shows "report_backed (le_sha env) slot rts r n c (evs1 @ evs2)"
proof -
  have wf2: "asm_wf asm2" by (rule ingest_wf [OF assms(1-3)])
  from assms(1-3) show ?thesis
  proof (cases rule: ingest_RetE)
    case Dropped
    with ev show ?thesis by simp
  next
    case (Taken s pk v st' es fin)
    let ?asm = "asm1\<lparr>resolver := s\<rparr>" and ?ss = "settled_slot v st' (asm1\<lparr>resolver := s\<rparr>)"
    have "SlotFinalized slot rts r n c \<notin> set es"
      using Taken(3) set_step_no_slot_event unfolding shred_steps_def by blast
    with ev Taken(5) have fin: "fin = Some (SlotFinalized slot rts r n c)"
      by (cases fin) (auto simp: fin_events_def)
    have wf': "asm_wf (settled v st' ?asm)" by (rule Taken_wf [OF wf Taken(3,2)])
    from settle_report [OF Taken(4) wf'] fin obtain l where l: "ready ?ss l"
      and f: "fin = Some (slot_report (le_sha env) asm2 (v_slot v) (checked_sets ?ss l))"
      and asm2: "asm2 = finalize_flag (v_slot v) ?ss (settled v st' ?asm)"
      by auto
    have slot: "slots (settled v st' ?asm) (v_slot v) = Some ?ss" by (simp add: settled_def)
    note c = finalize_content(2-5) [OF wf' slot l]
    have "set_done asm2 k = set_done (settled v st' ?asm) k" for k
      by (simp add: set_done_def state_or_new_def asm2)
    with c f fin show ?thesis
      by (intro slot_report_backed [OF rep wf2, of "checked_sets ?ss l" "v_slot v"] counts) auto
  qed
qed

lemma run_finalized:
  assumes "ingest_all env raws (with_resolver s) = Ret (asm, evs)" and "rs_total (le_rs env)"
    and "SlotFinalized slot rts r n c \<in> set evs"
  shows "report_backed (le_sha env) slot rts r n c evs"
  using assms(1,3)
proof (induction rule: run_induct)
  case Start
  then show ?case by simp
next
  case (Step raws raw asm1 evs1 asm2 evs2)
  then have run: "ingest_all env raws (with_resolver s) = Ret (asm1, evs1)"
    and i: "ingest env asm1 raw = Ret (asm2, evs2)" by auto
  have wf: "asm_wf asm1" by (rule run_wf [OF run with_resolver_wf assms(2)])
  show ?case
  proof (cases "SlotFinalized slot rts r n c \<in> set evs1")
    case True
    with Step have "report_backed (le_sha env) slot rts r n c evs1" by blast
    then show ?thesis by (rule report_backed_mono) (rule done_accepts_none [OF run assms(2) _ i])
  next
    case False
    with Step have ev: "SlotFinalized slot rts r n c \<in> set evs2" by auto
    have rep: "reported asm2 (evs1 @ evs2)"
      by (rule ingest_reported [OF i wf assms(2) run_reported [OF run assms(2)]])
    have "st_distinct (state_or_new asm2 key) = accepted key (evs1 @ evs2)" for key
      using ingest_accepted [OF i wf assms(2)] run_accepted [OF run assms(2)] by simp
    then show ?thesis by (rule ingest_finalized [OF i wf assms(2) rep _ ev])
  qed
qed

section \<open>Confidence and slot root\<close>

lemma agg_loop_eq: "agg_loop sha layer = last (build_levels sha layer)"
proof (induction sha layer rule: agg_loop.induct)
  case (1 sha layer)
  then show ?case
    using build_levels_nonempty [of sha "next_level sha layer"]
    by (cases "1 < length layer")
      (simp_all add: agg_loop.simps [of sha layer] build_levels.simps [of sha layer] agg_next_eq)
qed

section \<open>A sample run\<close>

definition sample_env :: "(unit, bytes) listener_env" where
  "sample_env =
     \<lparr>le_sha = zero_sha, le_ed = accept_all, le_rs = copy_rs, le_resolve = static_leader, le_oc = True\<rparr>"

text \<open>The parameters of a set whose data shreds carry the end-of-slot flag.\<close>

definition last_params :: "unit fec_set_params" where
  "last_params = sample_params\<lparr>fp_flags := SHRED_FLAG_LAST_IN_SLOT\<rparr>"

lemma copy_rs_total: "rs_total copy_rs"
  by (simp add: rs_total_def reconstruct_def copy_rs_def)

lemma sample_env_simps [simp]:
  "le_sha sample_env = zero_sha" "le_ed sample_env = accept_all" "le_rs sample_env = copy_rs"
  "le_resolve sample_env = static_leader" "le_oc sample_env = True"
  by (simp_all add: sample_env_def)

lemma last_params_ok:
  "no_overflow oc last_params" "length (fp_chained_root last_params) = 32"
  by (simp_all add: no_overflow_def last_params_def sample_params_def)

lemma sample_run:
  "\<exists>fs asm evs. build_fec_set zero_sha copy_rs zero_signer True [1, 2, 3] last_params = Ret fs
     \<and> ingest_all sample_env (map ((!) (shreds fs)) [0..<32]) (with_resolver (leader_pubkey fs))
         = Ret (asm, evs)
     \<and> Reconstructed (built_key last_params) (fs_merkle_root fs) 1 \<in> set evs
     \<and> SlotFinalized 7 [fs_merkle_root fs] (fs_merkle_root fs) 32 1 \<in> set evs"
proof -
  obtain fs where fs: "build_fec_set zero_sha copy_rs zero_signer True [1, 2, 3] last_params = Ret fs"
    using build_fec_set_eq [OF zero_sha_ok copy_rs_ok sample_signer_ok last_params_ok(2), of "[1, 2, 3]" True]
      last_params_ok(1) by fastforce
  have d: "delivers sample_env (leader_pubkey fs) (built_key last_params) (fs_merkle_root fs)
      (ends_slot last_params) ((!) (shreds fs))"
    using built_delivers [of sample_env copy_rs zero_signer last_params True "[1, 2, 3]" fs] fs
    by (simp add: copy_rs_ok sample_signer_ok last_params_ok)
  have "ends_slot last_params 0"
    by (simp add: ends_slot_def last_params_def SHRED_FLAG_LAST_IN_SLOT_def)
  then have last: "\<exists>j \<in> {0..<32}. ends_slot last_params j" by (intro bexI [of _ 0]) auto
  have slot: "fk_slot (built_key last_params) = 7"
    by (simp add: built_key_def last_params_def sample_params_def)
  have "{0..<32::nat} \<subseteq> {..<64}" by auto
  with delivery [OF d, of "[0..<32]"] last fs show ?thesis
    by (auto simp: copy_rs_ok copy_rs_total assembler_new_def slot)
qed

lemma sample_parse_run:
  "\<exists>asm evs. ingest_all sample_env (replicate n sample_raw) (with_resolver pk) = Ret (asm, evs)"
proof -
  have "\<exists>asm' evs. ingest_all sample_env (replicate n sample_raw) asm = Ret (asm', evs)" if "asm_wf asm" for asm
    using that
  proof (induction n arbitrary: asm)
    case (Suc n)
    have "parse_shred True sample_raw \<noteq> Panic" using sample_parse [of True "[]"] by simp
    then obtain asm1 evs1 where i: "ingest sample_env asm sample_raw = Ret (asm1, evs1)"
      using ingest_static_Ret [OF Suc.prems, of sample_env sample_raw] by (auto simp: copy_rs_total)
    have "asm_wf asm1" using ingest_wf [OF i Suc.prems] by (simp add: copy_rs_total)
    with Suc.IH i show ?case by fastforce
  qed simp
  from this [OF with_resolver_wf] show ?thesis .
qed

lemma static_answers: "answers_only static_leader (\<lambda>s. s = pk) (\<lambda>slot k. k = pk)"
  by (auto simp: answers_only_def static_leader_def)

lemma run_counts:
  assumes "ingest_all env raws (with_resolver s) = Ret (asm, evs)" and "rs_total (le_rs env)"
  shows "reconstructions key evs = (if set_done asm key then 1 else 0)
     \<and> finalizations slot evs = (if slot_done asm slot then 1 else 0)"
  using assms(1)
proof (induction rule: run_induct)
  case Start
  show ?case
    by (simp add: reconstructions_def finalizations_def set_done_def slot_done_def state_or_new_def
        slot_or_default_def with_resolver_def fec_state_new_def slot_state_default_def)
next
  case (Step raws raw asm1 evs1 asm2 evs2)
  then have run: "ingest_all env raws (with_resolver s) = Ret (asm1, evs1)"
    and i: "ingest env asm1 raw = Ret (asm2, evs2)" by auto
  have wf: "asm_wf asm1" by (rule run_wf [OF run with_resolver_wf assms(2)])
  from ingest_count [OF i wf assms(2), of key] ingest_finalize_count [OF i wf assms(2), of slot] Step
  show ?case by (auto split: if_splits)
qed

section \<open>A built slot\<close>

text \<open>One set of a slot: what it was built from, and which of its positions arrive, in which order.\<close>

record 'k built_set =
  bs_payload :: bytes
  bs_params :: "'k fec_set_params"
  bs_set :: fec_set
  bs_order :: "nat list"

definition built_ok ::
  "('r, 's) listener_env \<Rightarrow> 'q rs_api \<Rightarrow> 'k signer_api \<Rightarrow> bool \<Rightarrow> u64 \<Rightarrow> 'k \<Rightarrow> 'k built_set \<Rightarrow> bool" where
  "built_ok env rs sg oc slot k b \<longleftrightarrow>
     build_fec_set (le_sha env) rs sg oc (bs_payload b) (bs_params b) = Ret (bs_set b)
     \<and> fp_slot (bs_params b) = slot \<and> fp_signing_key (bs_params b) = k
     \<and> length (fp_chained_root (bs_params b)) = 32 \<and> no_overflow (le_oc env) (bs_params b)
     \<and> set (bs_order b) \<subseteq> {..<64} \<and> 32 \<le> card (set (bs_order b))"

definition marked :: "'k built_set \<Rightarrow> bool" where
  "marked b \<longleftrightarrow> (\<exists>j \<in> set (bs_order b). ends_slot (bs_params b) j)"

definition bs_datagrams :: "'k built_set \<Rightarrow> bytes list" where
  "bs_datagrams b = map ((!) (shreds (bs_set b))) (bs_order b)"

definition delivery_of :: "'k built_set \<Rightarrow> set_delivery" where
  "delivery_of b =
     \<lparr>ds_index = fp_fec_set_index (bs_params b), ds_root = fs_merkle_root (bs_set b),
      ds_last = ends_slot (bs_params b), ds_raw = (!) (shreds (bs_set b)), ds_order = bs_order b\<rparr>"

lemma delivery_of_simps [simp]:
  "ds_flagged (delivery_of b) = marked b" "ds_datagrams (delivery_of b) = bs_datagrams b"
  "ds_index (delivery_of b) = fp_fec_set_index (bs_params b)"
  "ds_root (delivery_of b) = fs_merkle_root (bs_set b)"
  by (simp_all add: delivery_of_def ds_flagged_def marked_def ds_datagrams_def bs_datagrams_def)

lemma built_delivery_ok:
  assumes "built_ok env rs sg oc slot k b" and "sha_ok (le_sha env)" and "rs_ok rs"
    and "signer_ok sg (le_ed env) k"
  shows "ds_ok env (sk_public sg k) slot (delivery_of b)"
proof -
  have build: "build_fec_set (le_sha env) rs sg oc (bs_payload b) (bs_params b) = Ret (bs_set b)"
    and ps: "fp_slot (bs_params b) = slot" "fp_signing_key (bs_params b) = k"
      "length (fp_chained_root (bs_params b)) = 32" "no_overflow (le_oc env) (bs_params b)"
    using assms(1) by (simp_all add: built_ok_def)
  have sg: "signer_ok sg (le_ed env) (fp_signing_key (bs_params b))" using assms(4) ps(2) by simp
  obtain qs where "bs_set b = finished_set (le_sha env) sg (bs_params b) (shred_bodies (bs_payload b) (bs_params b) qs)"
    by (rule build_fec_set_RetE [OF assms(2,3) sg ps(3) build])
  then have "leader_pubkey (bs_set b) = sk_public sg k"
    using ps(2) by (simp add: finished_set_def Let_def)
  with built_delivers [OF assms(2,3) sg ps(3,4) build] assms(1) ps show ?thesis
    by (simp add: ds_ok_def delivery_of_def built_key_def built_ok_def)
qed

lemma finalizations_pos: "SlotFinalized slot rts r n c \<in> set evs \<Longrightarrow> 0 < finalizations slot evs"
  by (induction evs) (auto simp: finalizations_def)

lemma built_slot_run:
  assumes "sha_ok (le_sha env)" and "rs_ok rs" and "signer_ok sg (le_ed env) k"
    and "le_resolve env = static_leader" and "rs_ok (le_rs env)" and "rs_total (le_rs env)"
    and "\<forall>b \<in> set bs. built_ok env rs sg oc slot k b \<and> \<not> marked b"
    and "built_ok env rs sg oc slot k l" and "marked l"
    and "sorted_wrt (<) (map (\<lambda>b. fp_fec_set_index (bs_params b)) (bs @ [l]))"
  shows "\<exists>asm evs. ingest_all env (concat (map bs_datagrams (bs @ [l]))) (assembler_new (sk_public sg k)) = Ret (asm, evs)
     \<and> SlotFinalized slot (map (\<lambda>b. fs_merkle_root (bs_set b)) (bs @ [l]))
          (aggregate_root (le_sha env) (map (\<lambda>b. fs_merkle_root (bs_set b)) (bs @ [l])))
          (32 * length (bs @ [l])) 1 \<in> set evs
     \<and> finalizations slot evs = 1"
proof -
  have all: "\<forall>s \<in> set (map delivery_of bs). ds_ok env (sk_public sg k) slot s \<and> \<not> ds_flagged s"
    using assms(7) built_delivery_ok [OF _ assms(1-3)] by auto
  have last: "ds_ok env (sk_public sg k) slot (delivery_of l)" "ds_flagged (delivery_of l)"
    using built_delivery_ok [OF assms(8,1-3)] assms(9) by simp_all
  have "sorted_wrt (<) (map ds_index (map delivery_of bs @ [delivery_of l]))"
    using assms(10) by (simp add: o_def)
  from slot_delivery [OF assms(5,6) all last this assms(4)] obtain asm evs where
    run: "ingest_all env (concat (map bs_datagrams (bs @ [l]))) (assembler_new (sk_public sg k)) = Ret (asm, evs)"
    and fin: "SlotFinalized slot (map (\<lambda>b. fs_merkle_root (bs_set b)) (bs @ [l]))
          (aggregate_root (le_sha env) (map (\<lambda>b. fs_merkle_root (bs_set b)) (bs @ [l])))
          (32 * length (bs @ [l])) 1 \<in> set evs"
    by (auto simp: o_def)
  have "0 < finalizations slot evs" using fin by (rule finalizations_pos)
  moreover have "finalizations slot evs \<le> 1"
    using run_counts [OF run [unfolded assembler_new_def] assms(6), of undefined slot] by simp
  ultimately have "finalizations slot evs = 1" by simp
  then show ?thesis using run fin by (intro exI conjI) simp_all
qed

lemma reconstructed_positions:
  assumes "ingest_all env raws (with_resolver s) = Ret (asm, evs)" and "rs_total (le_rs env)"
    and "answers_only (le_resolve env) good trusted" and "good s"
    and "Reconstructed key rt c \<in> set evs"
  shows "c = 1 \<and> (\<exists>P. P \<subseteq> {..<64} \<and> 32 \<le> card P
     \<and> (\<forall>i \<in> P. \<exists>raw \<in> set raws. \<exists>pk v. trusted (fk_slot key) pk
          \<and> verify_shred (le_sha env) (le_ed env) (le_oc env) raw pk = Ret v
          \<and> key_of v = key \<and> v_merkle_root v = rt \<and> v_erasure_shard_index v = i))"
proof -
  have new: "asm_wf (with_resolver s)" "good (resolver (with_resolver s))"
    using assms(4) by (simp_all add: with_resolver_wf) (simp add: with_resolver_def)
  from run_reconstructed [OF assms(1) new(1) assms(2,5)] obtain st where
    st: "states asm key = Some st" "st_reconstructed st" "st_root st = Some rt" and "c = 1"
    by blast
  from run_backed [OF assms(1) new(1) assms(2,3) new(2) with_resolver_backed]
  have wf: "asm_wf asm" and bk: "backed env trusted (set raws) asm" by blast+
  have f: "fec_wf st" using wf st(1) by (simp add: asm_wf_def)
  then have "32 \<le> card (positions st)" "positions st \<subseteq> {..<64}"
    using st(2) positions_bound by (simp_all add: card_positions fec_wf_def)
  moreover have "\<exists>raw \<in> set raws. \<exists>pk v. trusted (fk_slot key) pk
      \<and> verify_shred (le_sha env) (le_ed env) (le_oc env) raw pk = Ret v
      \<and> key_of v = key \<and> v_merkle_root v = rt \<and> v_erasure_shard_index v = i" if i: "i \<in> positions st" for i
  proof -
    obtain b where "st_shards st ! i = Some b" "i < 64"
      using i f by (auto simp: positions_def fec_wf_def)
    with bk st show ?thesis unfolding backed_def vouched_def by fastforce
  qed
  ultimately show ?thesis using \<open>c = 1\<close> by blast
qed

section \<open>Properties\<close>

text \<open>
  C9: The invariant. From a new assembler, whatever datagrams arrive, every FEC set stays well formed
  (64 slots, 987-byte shards, the count is the number of shards, a reconstructed set has 32 shards, a
  root and confidence 1) and every slot's bookkeeping agrees with its sets.
\<close>

theorem assembler_invariant:
  assumes "ingest_all env raws (with_resolver s) = Ret (asm, evs)" and "rs_total (le_rs env)"
  shows "asm_wf asm"
  by (rule run_wf [OF assms(1) with_resolver_wf assms(2)])

theorem assembler_invariant_witness:
  "\<exists>raws asm evs. length raws = 32
     \<and> ingest_all sample_env raws (with_resolver (replicate 32 0)) = Ret (asm, evs) \<and> asm_wf asm"
proof -
  obtain asm evs where run: "ingest_all sample_env (replicate 32 sample_raw) (with_resolver (replicate 32 0))
      = Ret (asm, evs)"
    using sample_parse_run by blast
  with assembler_invariant [OF run] show ?thesis
    by (intro exI [of _ "replicate 32 sample_raw"]) (simp add: copy_rs_total)
qed

text \<open>
  The only panics. On a well-formed assembler a datagram makes \<open>ingest\<close> panic exactly when the
  parser panics on it or the leader resolver panics for its slot; all slicing and indexing after
  verification is in range and the root is present when it is unwrapped.
\<close>

theorem ingest_panics_iff:
  assumes "asm_wf asm" and "rs_total (le_rs env)" and "\<And>s slot e. le_resolve env s slot \<noteq> Fail e"
  shows "ingest env asm raw = Panic \<longleftrightarrow> parse_shred (le_oc env) raw = Panic
     \<or> (\<exists>p. parse_shred (le_oc env) raw = Ret p
          \<and> le_resolve env (resolver asm) (hdr_slot (header p)) = Panic)"
proof
  assume panic: "ingest env asm raw = Panic"
  from ingest_cases [OF assms(1,2), of raw]
  show "parse_shred (le_oc env) raw = Panic
     \<or> (\<exists>p. parse_shred (le_oc env) raw = Ret p
          \<and> le_resolve env (resolver asm) (hdr_slot (header p)) = Panic)"
    by (elim disjE exE conjE) (simp_all add: panic assms(3))
qed (auto simp: ingest_def)

theorem ingest_panics_iff_witness:
  "(ingest sample_env (with_resolver []) sample_raw = Panic) = False"
proof -
  obtain p where p: "parse_shred True sample_raw = Ret p" using sample_parse [of True "[]"] by simp
  have "le_resolve sample_env st slot \<noteq> Fail e" for st slot e by (simp add: static_leader_def)
  from ingest_panics_iff [OF with_resolver_wf _ this, of "[]" sample_raw] p show ?thesis
    by (simp add: copy_rs_total static_leader_def)
qed

text \<open>
  C1: Soundness of reconstruction. Let every key the resolver names for a slot be trusted for it. If a
  run of a new assembler reports a reconstructed set, then at least 32 different positions of that set
  were received in datagrams that verify under trusted keys for the slot with exactly the reported
  root, and the reported confidence is 1.
\<close>

theorem reconstructed_sound:
  assumes "ingest_all env raws (with_resolver s) = Ret (asm, evs)" and "rs_total (le_rs env)"
    and "answers_only (le_resolve env) good trusted" and "good s"
    and "Reconstructed key rt c \<in> set evs"
  shows "c = 1 \<and> (\<exists>P. P \<subseteq> {..<64} \<and> 32 \<le> card P
     \<and> (\<forall>i \<in> P. \<exists>raw \<in> set raws. \<exists>pk v. trusted (fk_slot key) pk
          \<and> verify_shred (le_sha env) (le_ed env) (le_oc env) raw pk = Ret v
          \<and> key_of v = key \<and> v_merkle_root v = rt \<and> v_erasure_shard_index v = i))"
  by (rule reconstructed_positions [OF assms])

theorem reconstructed_sound_witness:
  "\<exists>raws pk rt P. P \<subseteq> {..<64} \<and> 32 \<le> card P
     \<and> (\<forall>i \<in> P. \<exists>raw \<in> set raws. \<exists>v. verify_shred zero_sha accept_all True raw pk = Ret v
          \<and> key_of v = built_key last_params \<and> v_merkle_root v = rt \<and> v_erasure_shard_index v = i)"
proof -
  obtain fs :: fec_set and asm evs where run: "ingest_all sample_env (map ((!) (shreds fs)) [0..<32])
      (with_resolver (leader_pubkey fs)) = Ret (asm, evs)"
    and rec: "Reconstructed (built_key last_params) (fs_merkle_root fs) 1 \<in> set evs"
    using sample_run by blast
  have total: "rs_total (le_rs sample_env)" by (simp add: copy_rs_total)
  have ans: "answers_only (le_resolve sample_env) (\<lambda>s. s = leader_pubkey fs) (\<lambda>slot k. k = leader_pubkey fs)"
    by (simp add: static_answers)
  from reconstructed_sound [OF run total ans refl rec] show ?thesis
    by (intro exI [of _ "map ((!) (shreds fs)) [0..<32]"] exI [of _ "leader_pubkey fs"]
        exI [of _ "fs_merkle_root fs"]) simp
qed

text \<open>
  C15: Each report is made once. In a run of a new assembler a FEC set is reported reconstructed at
  most once and a slot finalized at most once, whatever the order and repetition of datagrams.
\<close>

theorem reports_at_most_once:
  assumes "ingest_all env raws (with_resolver s) = Ret (asm, evs)" and "rs_total (le_rs env)"
  shows "reconstructions key evs \<le> 1 \<and> finalizations slot evs \<le> 1"
  using run_counts [OF assms, of key slot] by simp

theorem reports_at_most_once_witness:
  "\<exists>asm evs. ingest_all sample_env (replicate 3 sample_raw) (with_resolver (replicate 32 0)) = Ret (asm, evs)
     \<and> reconstructions (fkey 0 0) evs \<le> 1 \<and> finalizations 0 evs \<le> 1"
proof -
  obtain asm evs where run: "ingest_all sample_env (replicate 3 sample_raw) (with_resolver (replicate 32 0))
      = Ret (asm, evs)"
    using sample_parse_run by blast
  with reports_at_most_once [OF run] show ?thesis by (simp add: copy_rs_total)
qed

text \<open>
  Any 32 positions suffice. Feeding a new assembler, under the leader's key, shreds of a built set
  in any order and with any repetitions, as long as 32 different positions occur, reports the set
  reconstructed with the root the builder returned.
\<close>

theorem built_set_is_reconstructed:
  assumes "build_fec_set (le_sha env) rs sg oc payload ps = Ret fs"
    and "sha_ok (le_sha env)" and "rs_ok rs" and "signer_ok sg (le_ed env) (fp_signing_key ps)"
    and "length (fp_chained_root ps) = 32" and "no_overflow (le_oc env) ps"
    and "le_resolve env = static_leader" and "rs_ok (le_rs env)" and "rs_total (le_rs env)"
    and "set is \<subseteq> {..<64}" and "32 \<le> card (set is)"
  shows "\<exists>asm evs. ingest_all env (map ((!) (shreds fs)) is) (assembler_new (leader_pubkey fs)) = Ret (asm, evs)
     \<and> Reconstructed (built_key ps) (fs_merkle_root fs) 1 \<in> set evs"
  using delivery [OF built_delivers [OF assms(2-6,1)] assms(8-11,7)]
  by auto

theorem built_set_is_reconstructed_witness:
  "\<exists>fs asm evs. build_fec_set zero_sha copy_rs zero_signer True [9] sample_params = Ret fs
     \<and> ingest_all sample_env (map ((!) (shreds fs)) [32..<64]) (assembler_new (leader_pubkey fs)) = Ret (asm, evs)
     \<and> Reconstructed (built_key sample_params) (fs_merkle_root fs) 1 \<in> set evs"
proof -
  obtain fs where fs: "build_fec_set zero_sha copy_rs zero_signer True [9] sample_params = Ret fs"
    using sample_builds [of "[9]" True] by auto
  have "set [32..<64] \<subseteq> {..<64::nat}" by auto
  with built_set_is_reconstructed [of sample_env copy_rs zero_signer True "[9]" sample_params fs "[32..<64]"] fs
  show ?thesis by (simp add: copy_rs_ok copy_rs_total sample_signer_ok sample_build_ok)
qed

text \<open>
  C8: What a slot report means. When a run of a new assembler reports a slot finalized, the confidence
  is 1, the slot root is the aggregate of the listed roots, and the listed roots are, in ascending order
  of FEC set index, those of sets that the run reported reconstructed. The reported number of shreds is
  exactly the number of shreds of these sets that the run reported accepted, and at least 32 per listed set.
\<close>

theorem slot_report_sound:
  assumes "ingest_all env raws (with_resolver s) = Ret (asm, evs)" and "rs_total (le_rs env)"
    and "SlotFinalized slot rts r n c \<in> set evs"
  shows "c = 1 \<and> rts \<noteq> [] \<and> r = aggregate_root (le_sha env) rts \<and> 32 * length rts \<le> n
     \<and> (\<exists>idxs. sorted idxs \<and> distinct idxs \<and> length idxs = length rts
          \<and> n = (\<Sum>j < length rts. accepted (fkey slot (idxs ! j)) evs)
          \<and> (\<forall>j < length rts. Reconstructed (fkey slot (idxs ! j)) (rts ! j) 1 \<in> set evs))"
  using run_finalized [OF assms] by (simp add: report_backed_def)

theorem slot_report_sound_witness:
  "\<exists>pk raws rt asm evs idxs.
     ingest_all sample_env raws (with_resolver pk) = Ret (asm, evs)
     \<and> SlotFinalized 7 [rt] rt 32 1 \<in> set evs \<and> length idxs = 1
     \<and> Reconstructed (fkey 7 (idxs ! 0)) rt 1 \<in> set evs \<and> accepted (fkey 7 (idxs ! 0)) evs = 32"
proof -
  obtain fs :: fec_set and asm evs where run: "ingest_all sample_env (map ((!) (shreds fs)) [0..<32])
      (with_resolver (leader_pubkey fs)) = Ret (asm, evs)"
    and fin: "SlotFinalized 7 [fs_merkle_root fs] (fs_merkle_root fs) 32 1 \<in> set evs"
    using sample_run by blast
  have total: "rs_total (le_rs sample_env)" by (simp add: copy_rs_total)
  from slot_report_sound [OF run total fin] run fin show ?thesis
    by (intro exI [of _ "leader_pubkey fs"] exI [of _ "map ((!) (shreds fs)) [0..<32]"]
        exI [of _ "fs_merkle_root fs"] exI [of _ asm] exI [of _ evs]) auto
qed

text \<open>
  C34: Sets that were never seen are not missed. One set whose data shreds carry the end-of-slot flag,
  whatever its FEC set index, is enough to have its slot reported finalized with that single root:
  at least 32 different positions, one of them flagged, and none of the earlier sets of the slot.
\<close>

theorem lone_set_finalizes_slot:
  assumes "build_fec_set (le_sha env) rs sg oc payload ps = Ret fs"
    and "sha_ok (le_sha env)" and "rs_ok rs" and "signer_ok sg (le_ed env) (fp_signing_key ps)"
    and "length (fp_chained_root ps) = 32" and "no_overflow (le_oc env) ps"
    and "le_resolve env = static_leader" and "rs_ok (le_rs env)" and "rs_total (le_rs env)"
    and "set is \<subseteq> {..<64}" and "32 \<le> card (set is)" and "\<exists>j \<in> set is. ends_slot ps j"
  shows "\<exists>asm evs. ingest_all env (map ((!) (shreds fs)) is) (assembler_new (leader_pubkey fs)) = Ret (asm, evs)
     \<and> SlotFinalized (fp_slot ps) [fs_merkle_root fs] (fs_merkle_root fs) 32 1 \<in> set evs"
  using delivery [OF built_delivers [OF assms(2-6,1)] assms(8-11,7)] assms(12)
  by (auto simp: built_key_def)

theorem lone_set_finalizes_slot_witness:
  "\<exists>fs asm evs. build_fec_set zero_sha copy_rs zero_signer True [9] last_params = Ret fs
     \<and> ingest_all sample_env (map ((!) (shreds fs)) [31..<63]) (assembler_new (leader_pubkey fs)) = Ret (asm, evs)
     \<and> fp_fec_set_index last_params = 64
     \<and> SlotFinalized (fp_slot last_params) [fs_merkle_root fs] (fs_merkle_root fs) 32 1 \<in> set evs"
proof -
  obtain fs where fs: "build_fec_set zero_sha copy_rs zero_signer True [9] last_params = Ret fs"
    using build_fec_set_eq [OF zero_sha_ok copy_rs_ok sample_signer_ok last_params_ok(2), of "[9]" True]
      last_params_ok(1) by fastforce
  have "set [31..<63] \<subseteq> {..<64::nat}" "card (set [31..<63::nat]) = 32" by auto
  moreover have "\<exists>j \<in> set [31..<63]. ends_slot last_params j"
    by (intro bexI [of _ 31]) (simp_all add: ends_slot_def last_params_def SHRED_FLAG_LAST_IN_SLOT_def)
  ultimately show ?thesis
    using lone_set_finalizes_slot [of sample_env copy_rs zero_signer True "[9]" last_params fs "[31..<63]"] fs
    by (simp add: copy_rs_ok copy_rs_total sample_signer_ok last_params_ok)
      (simp add: last_params_def sample_params_def)
qed

text \<open>
  A slot is finalized. Let the sets of a slot be built by one leader with ascending FEC set
  indices, the flag of the last shred set on the last set only, and let at least 32 positions of each arrive,
  set by set, in any order inside a set and with repetitions. Then the run reports the slot exactly
  once, with the roots of all its sets in order, their aggregate root, 32 shreds per set and
  confidence 1.
\<close>

theorem built_slot_finalizes:
  assumes "sha_ok (le_sha env)" and "rs_ok rs" and "signer_ok sg (le_ed env) k"
    and "le_resolve env = static_leader" and "rs_ok (le_rs env)" and "rs_total (le_rs env)"
    and "\<forall>b \<in> set bs. built_ok env rs sg oc slot k b \<and> \<not> marked b"
    and "built_ok env rs sg oc slot k l" and "marked l"
    and "sorted_wrt (<) (map (\<lambda>b. fp_fec_set_index (bs_params b)) (bs @ [l]))"
  shows "\<exists>asm evs. ingest_all env (concat (map bs_datagrams (bs @ [l]))) (assembler_new (sk_public sg k)) = Ret (asm, evs)
     \<and> SlotFinalized slot (map (\<lambda>b. fs_merkle_root (bs_set b)) (bs @ [l]))
          (aggregate_root (le_sha env) (map (\<lambda>b. fs_merkle_root (bs_set b)) (bs @ [l])))
          (32 * length (bs @ [l])) 1 \<in> set evs
     \<and> finalizations slot evs = 1"
  by (rule built_slot_run [OF assms])

theorem built_slot_finalizes_witness:
  "\<exists>fa fl asm evs. build_fec_set zero_sha copy_rs zero_signer True [1] (sample_params\<lparr>fp_fec_set_index := 0\<rparr>) = Ret fa
     \<and> build_fec_set zero_sha copy_rs zero_signer True [2] last_params = Ret fl
     \<and> ingest_all sample_env (map ((!) (shreds fa)) [32..<64] @ map ((!) (shreds fl)) [0..<32])
         (assembler_new (sk_public zero_signer ())) = Ret (asm, evs)
     \<and> SlotFinalized 7 [fs_merkle_root fa, fs_merkle_root fl]
         (aggregate_root zero_sha [fs_merkle_root fa, fs_merkle_root fl]) 64 1 \<in> set evs"
proof -
  let ?pa = "sample_params\<lparr>fp_fec_set_index := 0\<rparr>"
  have pa: "length (fp_chained_root ?pa) = 32" "no_overflow oc ?pa" for oc
    by (simp_all add: no_overflow_def sample_params_def)
  obtain fa where fa: "build_fec_set zero_sha copy_rs zero_signer True [1] ?pa = Ret fa"
    using build_fec_set_eq [OF zero_sha_ok copy_rs_ok sample_signer_ok pa(1), of "[1]" True] pa(2)
    by fastforce
  obtain fl where fl: "build_fec_set zero_sha copy_rs zero_signer True [2] last_params = Ret fl"
    using build_fec_set_eq [OF zero_sha_ok copy_rs_ok sample_signer_ok last_params_ok(2), of "[2]" True]
      last_params_ok(1) by fastforce
  let ?a = "\<lparr>bs_payload = [1], bs_params = ?pa, bs_set = fa, bs_order = [32..<64]\<rparr>"
  let ?l = "\<lparr>bs_payload = [2], bs_params = last_params, bs_set = fl, bs_order = [0..<32]\<rparr>"
  have a: "\<forall>b \<in> set [?a]. built_ok sample_env copy_rs zero_signer True 7 () b \<and> \<not> marked b"
    using fa pa by (auto simp: built_ok_def marked_def ends_slot_def) (simp_all add: sample_params_def)
  have l: "built_ok sample_env copy_rs zero_signer True 7 () ?l"
    using fl last_params_ok by (auto simp: built_ok_def) (simp_all add: last_params_def sample_params_def)
  have m: "marked ?l"
    unfolding marked_def
    by (intro bexI [of _ 0]) (simp_all add: ends_slot_def last_params_def SHRED_FLAG_LAST_IN_SLOT_def)
  have "sorted_wrt (<) (map (\<lambda>b. fp_fec_set_index (bs_params b)) ([?a] @ [?l]))"
    by (simp add: last_params_def sample_params_def)
  from built_slot_finalizes [OF _ copy_rs_ok _ _ _ _ a l m this] fa fl show ?thesis
    by (auto simp: copy_rs_ok copy_rs_total sample_signer_ok bs_datagrams_def)
qed

text \<open>
  C37: A second root is refused. While a set is being collected under one root, a shred of it that
  verifies under another root is answered by one rejection and changes no set; but its end-of-slot
  flag is believed all the same.
\<close>

theorem equivocation_refused:
  assumes "le_resolve env (resolver asm) (v_slot v) = Ret (s, Some pk)"
    and "verify_shred (le_sha env) (le_ed env) (le_oc env) raw pk = Ret v"
    and "states asm (key_of v) = Some st" and "\<not> st_reconstructed st"
    and "st_root st = Some r" and "r \<noteq> v_merkle_root v"
  shows "\<exists>asm'. ingest env asm raw = Ret (asm', [Rejected RootDiverges]) \<and> states asm' = states asm
     \<and> (is_last_in_slot v \<longrightarrow> ss_last_seen (slot_or_default asm' (v_slot v)))"
proof -
  from assms(2) obtain p where p: "parse_shred (le_oc env) raw = Ret p"
    by (auto simp: verify_shred_Ret_iff)
  have slot: "hdr_slot (header p) = v_slot v" using verified_facts(3) [OF assms(2) p] .
  show ?thesis
    using assms by (auto simp: ingest_def p slot accept_def Let_def slot_or_default_def)
qed

theorem equivocation_refused_witness:
  "\<exists>asm'. ingest sample_env \<lparr>resolver = [], states = [fkey 0 0 \<mapsto> fec_state_new\<lparr>st_root := Some [1]\<rparr>],
        slots = Map.empty\<rparr> sample_raw = Ret (asm', [Rejected RootDiverges])"
proof -
  let ?v = "verified_of (parse_result sample_raw sample_variant) (replicate 32 0)"
    and ?asm = "\<lparr>resolver = [], states = [fkey 0 0 \<mapsto> fec_state_new\<lparr>st_root := Some [1]\<rparr>],
        slots = Map.empty\<rparr>"
  have "key_of ?v = fkey 0 0" "v_slot ?v = 0"
    by (simp_all add: verified_of_def key_of_def header_of_def sample_raw_def slice_def from_le_bytes_def)
  then have st: "states ?asm (key_of ?v) = Some (fec_state_new\<lparr>st_root := Some [1]\<rparr>)" by simp
  have l: "le_resolve sample_env (resolver ?asm) (v_slot ?v) = Ret ([], Some [])"
    by (simp add: static_leader_def)
  have v: "verify_shred (le_sha sample_env) (le_ed sample_env) (le_oc sample_env) sample_raw [] = Ret ?v"
    using sample_verify by simp
  have "[1] \<noteq> v_merkle_root ?v"
    by (auto simp: verified_of_def dest!: arg_cong [where f = length])
  from equivocation_refused [OF l v st _ _ this] show ?thesis
    by (simp add: fec_state_new_def) blast
qed

text \<open>
  The slot root is a Merkle root. The aggregation loop of the listener computes the root of the
  tree that the FEC set builder would build over the same leaves, so every FEC root of the slot has an
  inclusion proof that the shred verifier's path computation takes to the slot root.
\<close>

theorem slot_root_has_proofs:
  assumes "sha_ok sha" and "\<forall>r \<in> set roots. length r = 32" and "i < length roots"
  shows "\<exists>t. build_tree sha roots = (Ret t :: (shred_error, tree) outcome)
     \<and> aggregate_root sha roots = tree_root t
     \<and> compute_merkle_root sha i (roots ! i) (merkle_proof t i) = Ret (aggregate_root sha roots)"
proof -
  let ?t = "\<lparr>levels = build_levels sha roots, tree_root = last (build_levels sha roots) ! 0\<rparr>"
  have ne: "roots \<noteq> []" using assms(3) by auto
  then have agg: "aggregate_root sha roots = tree_root ?t"
    by (simp add: aggregate_root_def agg_loop_eq)
  have "\<forall>n \<in> set roots. 20 \<le> length n" using assms(2) by simp
  from climb_to_root [OF assms(1,3) this]
  have "compute_merkle_root sha i (roots ! i) (merkle_proof ?t i) = Ret (tree_root ?t)"
    by (simp add: merkle_proof_def compute_merkle_root_Ret_iff)
  with build_tree_Ret [OF ne, of sha] agg show ?thesis
    by (intro exI [of _ ?t]) simp
qed

theorem slot_root_has_proofs_witness:
  "\<exists>t. build_tree zero_sha [replicate 32 1, replicate 32 2] = (Ret t :: (shred_error, tree) outcome)
     \<and> aggregate_root zero_sha [replicate 32 1, replicate 32 2] = tree_root t
     \<and> compute_merkle_root zero_sha 1 (replicate 32 2) (merkle_proof t 1)
         = Ret (aggregate_root zero_sha [replicate 32 1, replicate 32 2])"
  using slot_root_has_proofs [of zero_sha "[replicate 32 1, replicate 32 2]" 1] by simp

text \<open>
  C10: Refinement of the set machine. On a well-formed assembler a datagram that returns either does
  not verify under the key its resolver names, is answered by one rejection and leaves all sets and
  slots as they were, or verifies and moves exactly the set of its key by one step of the abstract
  machine, with the step's events first and at most one slot report after them.
\<close>

theorem ingest_refines_set_machine:
  assumes "ingest env asm raw = Ret (asm', evs)" and "asm_wf asm" and "rs_total (le_rs env)"
  shows "(\<exists>r. states asm' = states asm \<and> slots asm' = slots asm \<and> evs = [Rejected r]
          \<and> (\<forall>s pk v. le_resolve env (resolver asm) (v_slot v) = Ret (s, Some pk) \<longrightarrow>
               verify_shred (le_sha env) (le_ed env) (le_oc env) raw pk \<noteq> Ret v))
     \<or> (\<exists>s pk v st' evs' fin. le_resolve env (resolver asm) (v_slot v) = Ret (s, Some pk)
          \<and> verify_shred (le_sha env) (le_ed env) (le_oc env) raw pk = Ret v
          \<and> set_step (le_rs env) (key_of v) (v_merkle_root v) (v_erasure_shard_index v) (shard_of v raw)
              (state_or_new asm (key_of v)) st' evs'
          \<and> states asm' = (states asm)(key_of v \<mapsto> st') \<and> evs = evs' @ fin_events fin)"
  using assms
proof (cases rule: ingest_RetE)
  case (Taken s pk v st' evs1 fin)
  from settle_states [OF Taken(4)] have "states asm' = (states asm)(key_of v \<mapsto> st')" by simp
  with Taken(1,2,3,5) show ?thesis unfolding shred_steps_def by blast
qed blast

theorem ingest_refines_set_machine_witness:
  "\<exists>v st' evs'. verify_shred zero_sha accept_all True sample_raw [] = Ret v
     \<and> set_step copy_rs (key_of v) (v_merkle_root v) (v_erasure_shard_index v) (shard_of v sample_raw)
         fec_state_new st' evs'"
proof -
  have "ingest sample_env (with_resolver []) sample_raw \<noteq> Panic"
    "\<And>e. ingest sample_env (with_resolver []) sample_raw \<noteq> Fail e"
    using ingest_static_Ret [OF with_resolver_wf, of sample_env sample_raw "[]"] sample_parse [of True "[]"]
    by (auto simp: copy_rs_total)
  then obtain asm' evs where i: "ingest sample_env (with_resolver []) sample_raw = Ret (asm', evs)"
    by (cases "ingest sample_env (with_resolver []) sample_raw") auto
  have total: "rs_total (le_rs sample_env)" by (simp add: copy_rs_total)
  have new: "state_or_new (with_resolver []) key = fec_state_new" for key
    by (simp add: state_or_new_def with_resolver_def)
  from ingest_refines_set_machine [OF i with_resolver_wf total]
  show ?thesis
    unfolding new using sample_verify [of True "[]"] by (auto simp: static_leader_def with_resolver_def)
qed

end
