(* ===== verification/Listener_Types.thy ===== *)
theory Listener_Types
  imports Listener_Props
begin

text \<open>
  The shape of the events of \<open>FecAssembler\<close> (\<open>crates/listener/src/lib.rs\<close>): array sizes, ranges of the
  counters and confidences that the Rust types leave open, for every event of every run.
\<close>

fun event_wf :: "fec_event \<Rightarrow> bool" where
  "event_wf (Started key r) \<longleftrightarrow> length r = 32"
| "event_wf (ShredAccepted key n i) \<longleftrightarrow> 1 \<le> n \<and> n \<le> 64 \<and> i < 64"
| "event_wf (Reconstructed key r c) \<longleftrightarrow> length r = 32 \<and> c = 1"
| "event_wf (SlotFinalized slot rts r n c) \<longleftrightarrow>
     rts \<noteq> [] \<and> (\<forall>x \<in> set rts. length x = 32) \<and> length r = 32 \<and> 32 * length rts \<le> n \<and> c = 1"
| "event_wf (Rejected reason) \<longleftrightarrow> True"

lemma climb_length:
  "sha_ok sha \<Longrightarrow> length x = 32 \<Longrightarrow> length (snd (fold (merkle_step sha) cs (i, x))) = 32"
proof (induction cs arbitrary: i x)
  case (Cons c cs)
  then show ?case by (simp add: merkle_step_def sha_ok_def)
qed simp

lemma verified_root_length:
  assumes "sha_ok sha" and "verify_shred sha ed oc raw pk = Ret v"
  shows "length (v_merkle_root v) = 32"
proof -
  obtain p r where "compute_merkle_root sha (p_erasure_shard_index p) (sha (leaf_input p)) (proof_bytes_of p) = Ret r"
    and v: "v = verified_of p r" using assms(2) by (auto simp: verify_shred_Ret_iff)
  then have "r = snd (fold (merkle_step sha) (chunks_exact 20 (proof_bytes_of p)) (p_erasure_shard_index p, sha (leaf_input p)))"
    by (simp add: compute_merkle_root_Ret_iff)
  then show ?thesis using climb_length [OF assms(1)] assms(1) v by (simp add: verified_of_def sha_ok_def)
qed

lemma agg_loop_lengths:
  "sha_ok sha \<Longrightarrow> layer \<noteq> [] \<Longrightarrow> \<forall>x \<in> set layer. length x = 32 \<Longrightarrow>
     agg_loop sha layer \<noteq> [] \<and> (\<forall>x \<in> set (agg_loop sha layer). length x = 32)"
proof (induction sha layer rule: agg_loop.induct)
  case (1 sha layer)
  show ?case
  proof (cases "1 < length layer")
    case True
    have "agg_next sha layer \<noteq> []" using 1(3) agg.up_nonempty by blast
    moreover have "\<forall>x \<in> set (agg_next sha layer). length x = 32"
      using next_level_lengths [OF 1(2)] by (simp add: agg_next_eq)
    ultimately show ?thesis using 1(1) [OF True 1(2)] True by (simp add: agg_loop.simps [of sha layer])
  next
    case False
    with 1(3,4) show ?thesis by (simp add: agg_loop.simps [of sha layer])
  qed
qed

lemma aggregate_root_length:
  assumes "sha_ok sha" and "\<forall>x \<in> set rts. length x = 32"
  shows "length (aggregate_root sha rts) = 32"
proof (cases "rts = []")
  case False
  from agg_loop_lengths [OF assms(1) False assms(2)] have
    "agg_loop sha rts ! 0 \<in> set (agg_loop sha rts)" "\<forall>x \<in> set (agg_loop sha rts). length x = 32"
    by simp_all
  with False show ?thesis by (simp add: aggregate_root_def)
qed (simp add: aggregate_root_def)

lemma room_left: "fec_wf st \<Longrightarrow> i < 64 \<Longrightarrow> st_shards st ! i = None \<Longrightarrow> st_distinct st < 64"
proof -
  assume wf: "fec_wf st" and i: "i < 64" "st_shards st ! i = None"
  then have "Suc (st_distinct st) = length (present ((st_shards st)[i := Some []]))"
    using present_update(1) [of i "st_shards st" "[]"] by (simp add: fec_wf_def)
  also have "\<dots> \<le> length ((st_shards st)[i := Some ([] :: bytes)])"
    by (simp add: present_def List.map_filter_def length_filter_le [THEN order_trans])
  finally show ?thesis using wf by (simp add: fec_wf_def)
qed

lemma set_step_events:
  assumes "set_step rs key rt i b st st' evs" and "fec_wf st" and "length rt = 32" and "e \<in> set evs"
  shows "event_wf e"
  using assms(1)
proof cases
  case Stored
  with assms(2-4) room_left show ?thesis by (auto simp: opened_ev_def Suc_le_eq split: if_splits)
next
  case Rebuilt
  with assms(2-4) room_left show ?thesis by (auto simp: opened_ev_def Suc_le_eq split: if_splits)
next
  case Failed
  with assms(2-4) room_left show ?thesis by (auto simp: opened_ev_def Suc_le_eq split: if_splits)
qed (use assms(3,4) in \<open>auto simp: opened_ev_def split: if_splits\<close>)

lemma ingest_events:
  assumes "ingest env asm raw = Ret (asm', evs)" and "asm_wf asm" and "rs_total (le_rs env)" and "sha_ok (le_sha env)"
    and "e \<in> set evs"
  shows "event_wf e \<or> (\<exists>s rts r n c. e = SlotFinalized s rts r n c)"
  using assms(1-3)
proof (cases rule: ingest_RetE)
  case (Taken s pk v st' evs1 fin)
  have root: "length (v_merkle_root v) = 32" by (rule verified_root_length [OF assms(4) Taken(2)])
  show ?thesis
  proof (cases "e \<in> set evs1")
    case True
    with Taken(3) root state_or_new_wf [OF assms(2)] show ?thesis
      unfolding shred_steps_def by (blast intro: set_step_events)
  next
    case False
    with assms(5) Taken(5) have "e \<in> set (fin_events fin)" by simp
    with Taken(4) show ?thesis by (cases fin) (auto simp: fin_events_def dest: settle_event)
  qed
qed (use assms(5) in auto)

lemma run_events:
  assumes "ingest_all env raws (with_resolver s) = Ret (asm, evs)" and "rs_total (le_rs env)" and "sha_ok (le_sha env)"
  shows "\<forall>e \<in> set evs. event_wf e \<or> (\<exists>s rts r n c. e = SlotFinalized s rts r n c)"
  using assms(1)
proof (induction rule: run_induct)
  case (Step raws raw asm1 evs1 asm2 evs2)
  then have run: "ingest_all env raws (with_resolver s) = Ret (asm1, evs1)"
    and i: "ingest env asm1 raw = Ret (asm2, evs2)" by auto
  have wf: "asm_wf asm1" by (rule run_wf [OF run with_resolver_wf assms(2)])
  from Step ingest_events [OF i wf assms(2,3)] show ?case by (simp only: set_append) blast
qed simp

text \<open>
  C11: Every event of a run is well formed: roots have 32 bytes, counts of accepted shreds lie between 1 and
  64 and positions below 64, a slot report lists at least one root and at least 32 shreds for each, and
  the confidence of every reconstruction and report is 1.
\<close>

theorem events_well_formed:
  assumes "ingest_all env raws (with_resolver s) = Ret (asm, evs)" and "rs_total (le_rs env)" and "sha_ok (le_sha env)"
  shows "\<forall>e \<in> set evs. event_wf e"
proof
  fix e assume e: "e \<in> set evs"
  note typed = bspec [OF run_events [OF assms]]
  show "event_wf e"
  proof (cases "\<exists>slot rts r n c. e = SlotFinalized slot rts r n c")
    case True
    then obtain slot rts r n c where fin: "e = SlotFinalized slot rts r n c" by blast
    from run_finalized [OF assms(1,2), of slot rts r n c] e fin obtain idxs where
      b: "c = 1" "rts \<noteq> []" "r = aggregate_root (le_sha env) rts" "32 * length rts \<le> n"
      and rec: "\<forall>j < length rts. Reconstructed (fkey slot (idxs ! j)) (rts ! j) 1 \<in> set evs"
      by (auto simp: report_backed_def)
    have "length x = 32" if x: "x \<in> set rts" for x
    proof -
      obtain j where "j < length rts" "x = rts ! j" using x by (auto simp: in_set_conv_nth)
      with rec typed [of "Reconstructed (fkey slot (idxs ! j)) x 1"] show ?thesis by auto
    qed
    with b fin aggregate_root_length [OF assms(3)] show ?thesis by simp
  next
    case False
    with typed [OF e] show ?thesis by blast
  qed
qed

theorem events_well_formed_witness:
  "\<exists>fs :: fec_set. \<exists>asm evs. ingest_all sample_env (map ((!) (shreds fs)) [0..<32]) (with_resolver (leader_pubkey fs)) = Ret (asm, evs)
     \<and> list_all event_wf evs \<and> evs \<noteq> []"
proof -
  obtain fs :: fec_set and asm evs where run: "ingest_all sample_env (map ((!) (shreds fs)) [0..<32])
      (with_resolver (leader_pubkey fs)) = Ret (asm, evs)"
    and fin: "SlotFinalized 7 [fs_merkle_root fs] (fs_merkle_root fs) 32 1 \<in> set evs"
    using sample_run by blast
  have "rs_total (le_rs sample_env)" "sha_ok (le_sha sample_env)" by (simp_all add: copy_rs_total)
  from events_well_formed [OF run this] have "list_all event_wf evs" by (simp add: list_all_iff)
  moreover have "evs \<noteq> []" using fin by auto
  ultimately show ?thesis using run by blast
qed

end
