(* ===== verification/Arrival_Props.thy ===== *)
theory Arrival_Props
  imports Listener_Props
begin

text \<open>
  \<open>Arrivals\<close> for the sets that \<open>build_fec_set\<close> returns, each slot signed with the key of its leader, under
  any resolver that serves the leaders' schedule: the reports of the assembler are exactly the function
  of the arrivals, and an interleaved slot is finalized.
\<close>

section \<open>Built sets\<close>

text \<open>The sets that the leaders have built, by key; \<open>ks slot\<close> is the signing key of the leader of \<open>slot\<close>.\<close>

record 'k leader_builder =
  lb_payload :: "fec_key \<Rightarrow> bytes"
  lb_params :: "fec_key \<Rightarrow> 'k fec_set_params"
  lb_set :: "fec_key \<Rightarrow> fec_set"

definition built_all ::
  "('r, 's) listener_env \<Rightarrow> 'q rs_api \<Rightarrow> 'k signer_api \<Rightarrow> bool \<Rightarrow> (u64 \<Rightarrow> 'k) \<Rightarrow> 'k leader_builder \<Rightarrow> fec_key set \<Rightarrow> bool" where
  "built_all env rs sg oc ks lb keys \<longleftrightarrow>
     (\<forall>key \<in> keys. build_fec_set (le_sha env) rs sg oc (lb_payload lb key) (lb_params lb key) = Ret (lb_set lb key)
        \<and> fp_slot (lb_params lb key) = fk_slot key \<and> fp_fec_set_index (lb_params lb key) = fk_index key
        \<and> fp_signing_key (lb_params lb key) = ks (fk_slot key) \<and> length (fp_chained_root (lb_params lb key)) = 32
        \<and> no_overflow (le_oc env) (lb_params lb key))"

definition sets_of :: "'k leader_builder \<Rightarrow> leader_sets" where
  "sets_of lb = \<lparr>ls_root = (\<lambda>key. fs_merkle_root (lb_set lb key)), ls_last = (\<lambda>key. ends_slot (lb_params lb key)),
     ls_raw = (\<lambda>key i. shreds (lb_set lb key) ! i)\<rparr>"

lemma built_honest:
  assumes "built_all env rs sg oc ks lb keys" and "sha_ok (le_sha env)" and "rs_ok rs"
    and "\<forall>key \<in> keys. signer_ok sg (le_ed env) (ks (fk_slot key))"
  shows "honest env (\<lambda>slot. sk_public sg (ks slot)) (sets_of lb) keys"
  unfolding honest_def
proof
  fix key assume "key \<in> keys"
  let ?ps = "lb_params lb key" and ?fs = "lb_set lb key" and ?k = "ks (fk_slot key)"
  have build: "build_fec_set (le_sha env) rs sg oc (lb_payload lb key) ?ps = Ret ?fs"
    and ps: "fp_slot ?ps = fk_slot key" "fp_fec_set_index ?ps = fk_index key" "fp_signing_key ?ps = ?k"
      "length (fp_chained_root ?ps) = 32" "no_overflow (le_oc env) ?ps"
    using assms(1) \<open>key \<in> keys\<close> by (simp_all add: built_all_def)
  have sg: "signer_ok sg (le_ed env) (fp_signing_key ?ps)" using assms(4) \<open>key \<in> keys\<close> ps(3) by simp
  have "leader_pubkey ?fs = sk_public sg ?k"
    using build_fec_set_RetE [OF assms(2,3) sg ps(4) build] ps(3) by (force simp: finished_set_def Let_def)
  moreover have "built_key ?ps = key" using ps(1,2) by (simp add: built_key_def)
  ultimately show "delivers env (sk_public sg ?k) key (ls_root (sets_of lb) key) (ls_last (sets_of lb) key) (ls_raw (sets_of lb) key)"
    using built_delivers [OF assms(2,3) sg ps(4,5) build] by (simp add: sets_of_def)
qed

lemma built_arrivals_run:
  assumes "sha_ok (le_sha env)" and "rs_ok rs" and "rs_ok (le_rs env)" and "rs_total (le_rs env)"
    and "scheduled_resolver (le_resolve env) serving (\<lambda>slot. sk_public sg (ks slot)) served" and "serving s"
    and "\<forall>slot \<in> served. signer_ok sg (le_ed env) (ks slot)" and "fk_slot ` keys \<subseteq> served"
    and "built_all env rs sg oc ks lb keys" and "set h \<subseteq> keys \<times> {..<64}"
  shows "\<exists>asm evs. ingest_all env (datagrams (sets_of lb) h) (with_resolver s) = Ret (asm, evs)
     \<and> (\<forall>key r c. Reconstructed key r c \<in> set evs \<longleftrightarrow>
          32 \<le> card (arrived h key) \<and> r = fs_merkle_root (lb_set lb key) \<and> c = 1)
     \<and> (\<forall>s rts r n c. SlotFinalized s rts r n c \<in> set evs \<longleftrightarrow>
          (\<exists>m. first_complete (sets_of lb) h s m
             \<and> SlotFinalized s rts r n c = report_of (le_sha env) (sets_of lb) (take m h) s))"
proof -
  have "\<forall>key \<in> keys. signer_ok sg (le_ed env) (ks (fk_slot key))" using assms(7,8) by blast
  from arrivals_run [OF assms(5,6,8) built_honest [OF assms(9,1,2) this] assms(3,4,10)] obtain asm evs where
    run: "ingest_all env (datagrams (sets_of lb) h) (with_resolver s) = Ret (asm, evs)"
    and t: "tracks serving (sets_of lb) h asm" and r: "reports_tracked (le_sha env) (sets_of lb) h evs" by blast
  have "Reconstructed key r c \<in> set evs \<longleftrightarrow> 32 \<le> card (arrived h key) \<and> r = fs_merkle_root (lb_set lb key) \<and> c = 1"
    for key r c
  proof -
    have "set_tracks (fs_merkle_root (lb_set lb key)) (arrived h key) (state_or_new asm key)"
      using t by (simp add: tracks_def sets_of_def)
    then show ?thesis
      using run_reconstructs [OF run assms(4)]
      by (cases "arrived h key = {}") (auto simp: set_done_def set_tracks_def)
  qed
  with run r show ?thesis by (auto simp: reports_tracked_def)
qed

lemma built_sent_run:
  assumes "sha_ok (le_sha env)" and "rs_ok rs" and "rs_ok (le_rs env)" and "rs_total (le_rs env)"
    and "scheduled_resolver (le_resolve env) serving (\<lambda>slot. sk_public sg (ks slot)) served" and "serving s"
    and "\<forall>slot \<in> served. signer_ok sg (le_ed env) (ks slot)" and "fk_slot ` keys \<subseteq> served"
    and "built_all env rs sg oc ks lb keys" and "set h \<subseteq> keys \<times> {..<64}"
    and "slot_sent (sets_of lb) slot idxs l h"
  shows "\<exists>asm evs. ingest_all env (datagrams (sets_of lb) h) (with_resolver s) = Ret (asm, evs)
     \<and> finalizations slot evs = 1
     \<and> (full_report (le_sha env) (sets_of lb) slot idxs l \<in> set evs \<longleftrightarrow> none_missed (sets_of lb) slot idxs l h)"
proof -
  from built_arrivals_run [OF assms(1-10)] obtain asm evs where
    run: "ingest_all env (datagrams (sets_of lb) h) (with_resolver s) = Ret (asm, evs)"
    and "reports_tracked (le_sha env) (sets_of lb) h evs" unfolding reports_tracked_def by blast
  note full = full_report_iff [OF this(2) assms(11)]
  obtain rts r n c where "SlotFinalized slot rts r n c \<in> set evs" using full(2) by blast
  from finalizations_pos [OF this] have "finalizations slot evs = 1"
    using run_counts [OF run assms(4), of undefined slot] by (simp split: if_splits)
  with run full(1) show ?thesis by blast
qed

lemma built_interleaved_run:
  assumes "sha_ok (le_sha env)" and "rs_ok rs" and "rs_ok (le_rs env)" and "rs_total (le_rs env)"
    and "scheduled_resolver (le_resolve env) serving (\<lambda>slot. sk_public sg (ks slot)) served" and "serving s"
    and "\<forall>slot \<in> served. signer_ok sg (le_ed env) (ks slot)" and "fk_slot ` keys \<subseteq> served"
    and "built_all env rs sg oc ks lb keys" and "set h \<subseteq> keys \<times> {..<64}"
    and "slot_arrives (sets_of lb) slot idxs l h"
  shows "\<exists>asm evs. ingest_all env (datagrams (sets_of lb) h) (with_resolver s) = Ret (asm, evs)
     \<and> SlotFinalized slot (map (\<lambda>i. fs_merkle_root (lb_set lb (fkey slot i))) (idxs @ [l]))
          (aggregate_root (le_sha env) (map (\<lambda>i. fs_merkle_root (lb_set lb (fkey slot i))) (idxs @ [l])))
          (32 * length (idxs @ [l])) 1 \<in> set evs
     \<and> finalizations slot evs = 1"
proof -
  have sent: "slot_sent (sets_of lb) slot idxs l h" "none_missed (sets_of lb) slot idxs l h"
    using assms(11) by (simp_all add: slot_arrives_def)
  have "full_report (le_sha env) (sets_of lb) slot idxs l =
      SlotFinalized slot (map (\<lambda>i. fs_merkle_root (lb_set lb (fkey slot i))) (idxs @ [l]))
        (aggregate_root (le_sha env) (map (\<lambda>i. fs_merkle_root (lb_set lb (fkey slot i))) (idxs @ [l])))
        (32 * length (idxs @ [l])) 1"
    by (simp add: full_report_def sets_of_def)
  with built_sent_run [OF assms(1-10) sent(1)] sent(2) show ?thesis by metis
qed

section \<open>Properties\<close>

text \<open>
  C2: Under the traffic of the scheduled leaders the assembler reports exactly what the arrivals say. Let
  the resolver serve the leader schedule for the slots at hand, and let shreds of sets that the leaders
  built arrive in any interleaving of sets and slots, with losses and repetitions. The run never fails; a
  set is reported reconstructed if and only if 32 distinct positions of it arrived, with the builder's
  root and confidence 1; and a slot is reported if and only if after some arrival a flagged shred was
  there and every set seen so far up to the last flagged one had 32 positions, with the roots of just
  these sets.
\<close>

theorem arrivals_decide_reports:
  assumes "sha_ok (le_sha env)" and "rs_ok rs" and "rs_ok (le_rs env)" and "rs_total (le_rs env)"
    and "scheduled_resolver (le_resolve env) serving (\<lambda>slot. sk_public sg (ks slot)) served" and "serving s"
    and "\<forall>slot \<in> served. signer_ok sg (le_ed env) (ks slot)" and "fk_slot ` keys \<subseteq> served"
    and "built_all env rs sg oc ks lb keys" and "set h \<subseteq> keys \<times> {..<64}"
  shows "\<exists>asm evs. ingest_all env (datagrams (sets_of lb) h) (with_resolver s) = Ret (asm, evs)
     \<and> (\<forall>key r c. Reconstructed key r c \<in> set evs \<longleftrightarrow>
          32 \<le> card (arrived h key) \<and> r = fs_merkle_root (lb_set lb key) \<and> c = 1)
     \<and> (\<forall>s rts r n c. SlotFinalized s rts r n c \<in> set evs \<longleftrightarrow>
          (\<exists>m. first_complete (sets_of lb) h s m
             \<and> SlotFinalized s rts r n c = report_of (le_sha env) (sets_of lb) (take m h) s))"
  by (rule built_arrivals_run [OF assms])

text \<open>
  C3: When an interleaved slot is reported with all of its sets. Let the resolver serve the leader
  schedule, and let 32 positions of each set of a slot arrive in any order and interleaving, with
  repetitions and shreds of other slots and leaders between them, a flagged one of the highest set, and
  only of it, among them. The run reports the slot exactly once. The report lists the roots of all the
  sets in order, with their aggregate root, 32 shreds per set and confidence 1, if and only if the slot is
  at no moment complete without some set: whenever a flagged shred is there and every set seen so far has
  32 positions, all sets have been seen.
\<close>

theorem interleaved_slot_finalizes:
  assumes "sha_ok (le_sha env)" and "rs_ok rs" and "rs_ok (le_rs env)" and "rs_total (le_rs env)"
    and "scheduled_resolver (le_resolve env) serving (\<lambda>slot. sk_public sg (ks slot)) served" and "serving s"
    and "\<forall>slot \<in> served. signer_ok sg (le_ed env) (ks slot)" and "fk_slot ` keys \<subseteq> served"
    and "built_all env rs sg oc ks lb keys" and "set h \<subseteq> keys \<times> {..<64}"
    and "slot_sent (sets_of lb) slot idxs l h"
  shows "\<exists>asm evs. ingest_all env (datagrams (sets_of lb) h) (with_resolver s) = Ret (asm, evs)
     \<and> finalizations slot evs = 1
     \<and> (SlotFinalized slot (map (\<lambda>i. fs_merkle_root (lb_set lb (fkey slot i))) (idxs @ [l]))
          (aggregate_root (le_sha env) (map (\<lambda>i. fs_merkle_root (lb_set lb (fkey slot i))) (idxs @ [l])))
          (32 * length (idxs @ [l])) 1 \<in> set evs
        \<longleftrightarrow> none_missed (sets_of lb) slot idxs l h)"
proof -
  have "full_report (le_sha env) (sets_of lb) slot idxs l =
      SlotFinalized slot (map (\<lambda>i. fs_merkle_root (lb_set lb (fkey slot i))) (idxs @ [l]))
        (aggregate_root (le_sha env) (map (\<lambda>i. fs_merkle_root (lb_set lb (fkey slot i))) (idxs @ [l])))
        (32 * length (idxs @ [l])) 1"
    by (simp add: full_report_def sets_of_def)
  with built_sent_run [OF assms] show ?thesis by metis
qed

section \<open>Two interleaved sets of one leader, and a set of another\<close>

text \<open>Signatures that name their signer, and a listener that asks a node for the leaders.\<close>

definition named_signer :: "byte signer_api" where
  "named_signer = \<lparr>sk_sign = (\<lambda>k _. replicate 64 k), sk_public = replicate 32\<rparr>"

definition named_ed :: ed_api where
  "named_ed = accept_all\<lparr>ed_verify := (\<lambda>pk _ sig. sig = replicate 64 (hd pk))\<rparr>"

definition schedule_env :: "(unit, helius \<times> unit) listener_env" where
  "schedule_env = \<lparr>le_sha = zero_sha, le_ed = named_ed, le_rs = copy_rs,
     le_resolve = leader_for_slot schedule_api True (\<lambda>h. h), le_oc = True\<rparr>"

lemma named_signer_ok: "signer_ok named_signer named_ed k"
  by (simp add: signer_ok_def named_signer_def named_ed_def accept_all_def)

lemma schedule_env_simps [simp]:
  "le_sha schedule_env = zero_sha" "le_ed schedule_env = named_ed" "le_rs schedule_env = copy_rs" "le_oc schedule_env = True"
  by (simp_all add: schedule_env_def)

lemma schedule_env_serves:
  "scheduled_resolver (le_resolve schedule_env) (in_service schedule_api (\<lambda>_. True) low_byte_key 0 1000)
     (\<lambda>slot. sk_public named_signer (ucast slot)) {0..<1000}"
proof -
  have "(\<lambda>slot. sk_public named_signer (ucast slot)) = low_byte_key" by (simp add: fun_eq_iff named_signer_def low_byte_key_def)
  then show ?thesis by (simp add: schedule_env_def helius_schedule.scheduled_resolver_axioms)
qed

definition pair_keys :: "fec_key set" where
  "pair_keys = {fkey 7 0, fkey 7 64, fkey 8 0}"

definition pair_params :: "fec_key \<Rightarrow> byte fec_set_params" where
  "pair_params key = \<lparr>fp_slot = fk_slot key, fp_fec_set_index = fk_index key, fp_version = 1, fp_parent_offset = 1,
     fp_flags = (if fk_index key = 64 then SHRED_FLAG_LAST_IN_SLOT else 0), fp_chained_root = replicate 32 0,
     fp_signing_key = ucast (fk_slot key)\<rparr>"

text \<open>The flagged set comes first, then they alternate.\<close>

definition pair_arrivals :: arrivals where
  "pair_arrivals = concat (map (\<lambda>i. [(fkey 7 64, i), (fkey 7 0, i), (fkey 8 0, i)]) [0..<32])"

lemma pair_built:
  "\<exists>lb. built_all schedule_env copy_rs named_signer True ucast lb pair_keys \<and> lb_params lb = pair_params"
proof -
  have ps: "length (fp_chained_root (pair_params key)) = 32" for key by (simp add: pair_params_def)
  have fit: "no_overflow oc (pair_params key)" if "key \<in> pair_keys" for oc key
    using that by (auto simp: pair_keys_def pair_params_def no_overflow_def)
  have "\<exists>fs. build_fec_set zero_sha copy_rs named_signer True [1] (pair_params key) = Ret fs" if "key \<in> pair_keys" for key
    using build_fec_set_eq [OF zero_sha_ok copy_rs_ok named_signer_ok ps [of key], of "[1]" True] fit [OF that] by fastforce
  then obtain f where f: "build_fec_set zero_sha copy_rs named_signer True [1] (pair_params key) = Ret (f key)"
    if "key \<in> pair_keys" for key by metis
  show ?thesis
    by (intro exI [of _ "\<lparr>lb_payload = (\<lambda>_. [1]), lb_params = pair_params, lb_set = f\<rparr>"])
      (simp add: built_all_def f ps fit, simp add: pair_params_def)
qed

lemma pair_members: "(key, j) \<in> set pair_arrivals \<longleftrightarrow> key \<in> pair_keys \<and> j < 32"
  by (auto simp: pair_arrivals_def pair_keys_def)

lemma pair_arrives:
  assumes "lb_params lb = pair_params"
  shows "slot_arrives (sets_of lb) 7 [0] 64 pair_arrivals"
proof -
  have arr: "arrived pair_arrivals key = (if key \<in> pair_keys then {..<32} else {})" for key
    by (auto simp: arrived_iff pair_members)
  have seen: "set (seen_sets h 7) = {i. arrived h (fkey 7 i) \<noteq> {}}" for h by (auto simp: seen_arrived)
  have "\<exists>j :: nat. j < 32" by (rule exI [of _ 0]) simp
  then have flags: "set (flagged_sets (sets_of lb) pair_arrivals 7) = {64}"
    by (auto simp: flagged_iff pair_members sets_of_def assms pair_keys_def pair_params_def ends_slot_def
        SHRED_FLAG_LAST_IN_SLOT_def)
  have three: "take 3 pair_arrivals = [(fkey 7 64, 0), (fkey 7 0, 0), (fkey 8 0, 0)]" "3 \<le> length pair_arrivals"
    by (simp_all add: pair_arrivals_def upt_conv_Cons numeral_3_eq_3)
  then have early: "arrived (take 3 pair_arrivals) key = (if key \<in> pair_keys then {0} else {})" for key
    by (auto simp: arrived_iff pair_keys_def)
  show ?thesis
    by (rule slot_arrivesI, unfold slot_sent_def, (intro conjI exI [of _ 3])+) (use three(2) in \<open>auto simp: seen arr early flags pair_keys_def lessThan_empty_iff\<close>)
qed

lemma pair_slots: "fk_slot ` pair_keys \<subseteq> {0..<1000}"
  by (auto simp: pair_keys_def word_less_nat_alt)

theorem interleaved_slot_finalizes_witness:
  "\<exists>lb asm evs. built_all schedule_env copy_rs named_signer True ucast lb pair_keys
     \<and> ingest_all schedule_env (datagrams (sets_of lb) pair_arrivals) (with_resolver (helius_new ''http'', ())) = Ret (asm, evs)
     \<and> finalizations 7 evs = 1
     \<and> SlotFinalized 7 (map (\<lambda>i. fs_merkle_root (lb_set lb (fkey 7 i))) [0, 64])
          (aggregate_root zero_sha (map (\<lambda>i. fs_merkle_root (lb_set lb (fkey 7 i))) [0, 64])) 64 1 \<in> set evs"
proof -
  obtain lb where lb: "built_all schedule_env copy_rs named_signer True ucast lb pair_keys" "lb_params lb = pair_params"
    using pair_built by blast
  have "set pair_arrivals \<subseteq> pair_keys \<times> {..<64}" by (auto simp: pair_members)
  moreover have sent: "slot_sent (sets_of lb) 7 [0] 64 pair_arrivals" "none_missed (sets_of lb) 7 [0] 64 pair_arrivals"
    using pair_arrives [OF lb(2)] by (simp_all add: slot_arrives_def)
  ultimately show ?thesis
    using interleaved_slot_finalizes [OF _ copy_rs_ok _ _ schedule_env_serves schedule_serves [of "''http''"] _ pair_slots lb(1) _ sent(1)] lb(1)
    by (auto simp: zero_sha_ok copy_rs_ok copy_rs_total named_signer_ok)
qed

theorem arrivals_decide_reports_witness:
  "\<exists>lb asm evs. built_all schedule_env copy_rs named_signer True ucast lb pair_keys
     \<and> ingest_all schedule_env (datagrams (sets_of lb) [(fkey 8 0, 5 :: nat), (fkey 7 0, 5), (fkey 8 0, 5)])
         (with_resolver (helius_new ''http'', ())) = Ret (asm, evs)
     \<and> (\<forall>key r c. Reconstructed key r c \<notin> set evs)"
proof -
  let ?h = "[(fkey 8 0, 5 :: nat), (fkey 7 0, 5), (fkey 8 0, 5)]"
  obtain lb where lb: "built_all schedule_env copy_rs named_signer True ucast lb pair_keys"
    using pair_built by blast
  have "set ?h \<subseteq> pair_keys \<times> {..<64}" by (simp add: pair_keys_def)
  moreover have "\<not> 32 \<le> card (arrived ?h key)" for key
    by (simp add: arrived_def)
  ultimately obtain asm evs where
    "ingest_all schedule_env (datagrams (sets_of lb) ?h) (with_resolver (helius_new ''http'', ())) = Ret (asm, evs)"
    "\<And>key r c. Reconstructed key r c \<notin> set evs"
    using arrivals_decide_reports [OF _ copy_rs_ok _ _ schedule_env_serves schedule_serves [of "''http''"] _ pair_slots lb, of ?h]
    by (auto simp: zero_sha_ok copy_rs_ok copy_rs_total named_signer_ok)
  with lb show ?thesis by blast
qed

end
