(* ===== verification/Das.thy ===== *)
theory Das
  imports Assembler
begin

text \<open>
  The sampling confidence \<open>das_confidence\<close> of \<open>crates/listener/src/lib.rs\<close> against its closed form. The exact
  ratio of the comment is the chance that \<open>n\<close> of 64 shreds all lie among the 31 an adversary published; the
  code multiplies doubles, and the last subtraction leaves an absolute error near \<open>2 ^ -53\<close>, which is more
  than the ratio itself from 30 samples on.
\<close>

section \<open>The exact ratio\<close>

definition undetected_ratio :: "nat \<Rightarrow> rat" where
  "undetected_ratio n = fold (\<lambda>k ratio. ratio * ((31 - rat_of_nat k) / (64 - rat_of_nat k))) [0..<n] 1"

lemma undetected_ratio_Suc:
  "undetected_ratio (Suc n) = undetected_ratio n * ((31 - rat_of_nat n) / (64 - rat_of_nat n))"
  by (simp add: undetected_ratio_def)

lemma undetected_ratio_binomial:
  "n \<le> 31 \<Longrightarrow> undetected_ratio n * of_nat (64 choose n) = of_nat (31 choose n)"
proof (induction n)
  case (Suc n)
  have step: "rat_of_nat (Suc n) * of_nat (m choose Suc n) = (of_nat m - of_nat n) * of_nat (m choose n)"
    if "n \<le> m" for m
  proof -
    have "Suc n * (m choose Suc n) = (m - n) * (m choose n)"
      by (metis binomial_absorb_comp binomial_absorption mult.commute)
    then have "rat_of_nat (Suc n * (m choose Suc n)) = rat_of_nat ((m - n) * (m choose n))" by simp
    with that show ?thesis by (simp add: of_nat_diff distrib_right del: binomial_Suc_Suc)
  qed
  let ?r = "undetected_ratio n" and ?c = "rat_of_nat (64 choose n)" and ?d = "rat_of_nat (31 choose n)"
  have n: "64 - rat_of_nat n \<noteq> 0" using Suc.prems by (simp add: of_nat_eq_iff [symmetric])
  have "rat_of_nat (Suc n) * (undetected_ratio (Suc n) * of_nat (64 choose Suc n))
      = ?r * ((31 - of_nat n) / (64 - of_nat n)) * (rat_of_nat (Suc n) * of_nat (64 choose Suc n))"
    by (simp only: undetected_ratio_Suc ac_simps)
  also have "\<dots> = ?r * ((31 - of_nat n) / (64 - of_nat n)) * ((64 - of_nat n) * ?c)"
    using step [of 64] Suc.prems by simp
  also have "\<dots> = (31 - of_nat n) * (?r * ?c)" using n by (simp add: field_simps)
  also have "\<dots> = (31 - of_nat n) * ?d" using Suc by simp
  also have "\<dots> = rat_of_nat (Suc n) * of_nat (31 choose Suc n)"
    using step [of 31] Suc.prems by simp
  finally show ?case
    by (simp only: mult_cancel_left of_nat_eq_0_iff) simp
qed (simp add: undetected_ratio_def)

lemma undetected_ratio_closed:
  "n \<le> 31 \<Longrightarrow> undetected_ratio n = of_nat (31 choose n) / of_nat (64 choose n)"
  using undetected_ratio_binomial [of n] by (simp add: field_simps binomial_eq_0_iff)

lemma undetected_ratio_pos: "n \<le> 31 \<Longrightarrow> 0 < undetected_ratio n"
  by (simp add: undetected_ratio_closed)

lemma undetected_ratio_half:
  "n \<le> 31 \<Longrightarrow> undetected_ratio n * 2 ^ n \<le> 1"
proof (induction n)
  case (Suc n)
  let ?a = "(31 - rat_of_nat n) / (64 - rat_of_nat n)"
  have n: "rat_of_nat n \<le> 30" using Suc.prems by simp
  then have "?a * 2 \<le> 1" by (simp add: field_simps)
  then have "undetected_ratio n * 2 ^ n * (?a * 2) \<le> 1 * 1"
    using Suc n undetected_ratio_pos [of n] by (intro mult_mono) (auto simp: less_imp_le)
  then show ?case by (simp only: undetected_ratio_Suc power_Suc mult_1 ac_simps)
qed (simp add: undetected_ratio_def)

lemma undetected_ratio_anti:
  assumes "m \<le> n" and "n \<le> 31"
  shows "undetected_ratio n \<le> undetected_ratio m"
  using assms
proof (induction n rule: dec_induct)
  case (step n)
  have "(31 - rat_of_nat n) / (64 - rat_of_nat n) \<le> 1" using step.prems by simp
  moreover have "0 \<le> undetected_ratio n" using step.prems undetected_ratio_pos [of n] by simp
  ultimately have "undetected_ratio (Suc n) \<le> undetected_ratio n"
    unfolding undetected_ratio_Suc by (rule mult_left_le)
  with step show ?case by simp
qed simp

text \<open>The ratios that decide.\<close>

lemma undetected_ratio_values:
  "undetected_ratio 1 = 31 / 64" "2 / 2 ^ 53 \<le> undetected_ratio 29" "undetected_ratio 30 \<le> 1 / 2 ^ 55"
  by code_simp+

section \<open>The computed ratio\<close>

definition f64_ratio :: "nat \<Rightarrow> f64" where
  "f64_ratio n = fold (\<lambda>k ratio. f64_mul ratio
     (f64_div (f64_sub 31 (f64_of_nat k)) (f64_sub 64 (f64_of_nat k)))) [0..<n] 1"

abbreviation unit_error :: rat where "unit_error \<equiv> 1 / 2 ^ 53"

lemma f64_ratio_Suc:
  assumes "n \<le> 31"
  shows "f64_ratio (Suc n) = f64_round (f64_ratio n * f64_round ((31 - rat_of_nat n) / (64 - rat_of_nat n)))"
proof -
  have "f64_sub (rat_of_nat m) (f64_of_nat n) = rat_of_nat (m - n)" if "n \<le> m" "m \<le> 64" for m
    using that assms f64_round_of_nat [of n] f64_round_of_nat [of "m - n"]
    by (simp add: f64_sub_def f64_of_nat_def of_nat_diff)
  from this [of 31] this [of 64] assms show ?thesis
    by (simp add: f64_ratio_def f64_mul_def f64_div_def of_nat_diff)
qed

lemma f64_ratio_error:
  "n \<le> 31 \<Longrightarrow> undetected_ratio n * (1 - unit_error) ^ (2 * n) \<le> f64_ratio n
     \<and> f64_ratio n \<le> undetected_ratio n * (1 + unit_error) ^ (2 * n)"
proof (induction n)
  case (Suc n)
  define d u a r R where "d = 1 - unit_error" and "u = 1 + unit_error"
    and "a = (31 - rat_of_nat n) / (64 - rat_of_nat n)" and "r = f64_ratio n" and "R = undetected_ratio n"
  have a: "0 \<le> a" using Suc.prems by (simp add: a_def)
  have pos: "0 \<le> d" "0 \<le> u" by (simp_all add: d_def u_def)
  have R: "0 \<le> R" using undetected_ratio_pos [of n] Suc.prems by (simp add: R_def)
  have ih: "R * d ^ (2 * n) \<le> r" "r \<le> R * u ^ (2 * n)" using Suc by (simp_all only: R_def d_def u_def r_def)
  have "0 \<le> R * d ^ (2 * n)" using R pos by simp
  with ih(1) have r: "0 \<le> r" by simp
  have fa: "a * d \<le> f64_round a" "f64_round a \<le> a * u" "0 \<le> f64_round a"
    unfolding d_def u_def using f64_round_between [OF a] f64_round_nonneg [OF a] by simp_all
  have step: "f64_ratio (Suc n) = f64_round (r * f64_round a)"
    using Suc.prems f64_ratio_Suc [of n] by (simp add: r_def a_def)
  have RS: "undetected_ratio (Suc n) = R * a" by (simp add: undetected_ratio_Suc R_def a_def)
  have "0 \<le> r * f64_round a" using r fa by simp
  note fr = f64_round_between [OF this, folded d_def u_def]
  have "R * d ^ (2 * n) * (a * d) * d \<le> r * f64_round a * d"
    using ih(1) fa(1) pos r R a by (intro mult_right_mono mult_mono) auto
  moreover have "r * f64_round a * u \<le> R * u ^ (2 * n) * (a * u) * u"
    using ih(2) fa(2,3) pos r R by (intro mult_right_mono mult_mono) auto
  ultimately show ?case
    using fr unfolding step RS d_def [symmetric] u_def [symmetric] by (simp add: ac_simps power2_eq_square)
qed (simp add: f64_ratio_def undetected_ratio_def)

lemma power_above_one:
  assumes "0 \<le> (u :: rat)" and "of_nat m * u \<le> 1 / 2"
  shows "(1 + u) ^ m \<le> 1 + 2 * of_nat m * u"
  using assms(2)
proof (induction m)
  case (Suc m)
  then have m: "of_nat m * u \<le> 1 / 2" using assms(1) by (simp add: distrib_right)
  have "(1 + u) ^ Suc m \<le> (1 + u) * (1 + 2 * of_nat m * u)"
    using Suc.IH [OF m] assms(1) by simp
  also have "\<dots> = 1 + 2 * of_nat m * u + u + 2 * (of_nat m * u) * u" by (simp add: algebra_simps)
  also have "\<dots> \<le> 1 + 2 * of_nat m * u + u + 2 * (1 / 2) * u"
    using m assms(1) by (intro add_left_mono mult_right_mono mult_left_mono) simp_all
  finally show ?case by (simp add: algebra_simps)
qed simp

lemma power_below_one:
  assumes "0 \<le> (u :: rat)" and "u \<le> 1"
  shows "1 - of_nat m * u \<le> (1 - u) ^ m"
proof (induction m)
  case (Suc m)
  have "1 - of_nat (Suc m) * u \<le> (1 - u) * (1 - of_nat m * u)" using assms by (simp add: algebra_simps)
  also have "\<dots> \<le> (1 - u) ^ Suc m" using Suc assms by (simp add: mult_left_mono)
  finally show ?case .
qed simp

lemma f64_ratio_near:
  assumes "n \<le> 31"
  shows "f64_ratio n \<le> undetected_ratio n * (1 + 4 * of_nat n * unit_error)"
    and "undetected_ratio n * (1 - 2 * of_nat n * unit_error) \<le> f64_ratio n"
proof -
  have R: "0 \<le> undetected_ratio n" using undetected_ratio_pos [OF assms] by simp
  have "rat_of_nat n \<le> 31" using assms by simp
  then have "(1 + unit_error) ^ (2 * n) \<le> 1 + 2 * of_nat (2 * n) * unit_error"
    by (intro power_above_one) simp_all
  from mult_left_mono [OF this R] f64_ratio_error [OF assms]
  show "f64_ratio n \<le> undetected_ratio n * (1 + 4 * of_nat n * unit_error)" by simp
  have "1 - of_nat (2 * n) * unit_error \<le> (1 - unit_error) ^ (2 * n)" by (rule power_below_one) simp_all
  from mult_left_mono [OF this R] f64_ratio_error [OF assms]
  show "undetected_ratio n * (1 - 2 * of_nat n * unit_error) \<le> f64_ratio n" by simp
qed

lemma das_confidence_below:
  "n < 32 \<Longrightarrow> das_confidence n = f64_round (1 - f64_ratio n)"
  by (simp add: das_confidence_def f64_ratio_def f64_sub_def)

lemma ratio_times_count: "n \<le> 31 \<Longrightarrow> undetected_ratio n * of_nat n \<le> 1 / 2"
proof -
  assume n: "n \<le> 31"
  have "2 * n \<le> 2 ^ n"
  proof (cases n)
    case (Suc m)
    have "Suc m \<le> 2 ^ m" by (simp add: Suc_leI)
    with Suc show ?thesis by simp
  qed simp
  then have "rat_of_nat (2 * n) \<le> rat_of_nat (2 ^ n)" by (rule of_nat_mono)
  then have "undetected_ratio n * rat_of_nat (2 * n) \<le> undetected_ratio n * 2 ^ n"
    using undetected_ratio_pos [OF n] by simp
  with undetected_ratio_half [OF n] show ?thesis by simp
qed

lemma f64_ratio_distance:
  assumes "n \<le> 31"
  shows "\<bar>f64_ratio n - undetected_ratio n\<bar> \<le> 2 * unit_error"
proof -
  have "4 * (undetected_ratio n * of_nat n) * unit_error \<le> 2 * unit_error"
    using ratio_times_count [OF assms] by simp
  moreover have "0 \<le> undetected_ratio n * of_nat n" using undetected_ratio_pos [OF assms] by simp
  ultimately show ?thesis using f64_ratio_near [OF assms] unfolding abs_le_iff by (simp add: algebra_simps)
qed

lemma f64_ratio_le_half:
  assumes "1 \<le> n" and "n \<le> 31"
  shows "f64_ratio n \<le> 1 / 2"
proof -
  have "undetected_ratio n \<le> 31 / 64" using undetected_ratio_anti [OF assms] undetected_ratio_values(1) by simp
  moreover have "f64_ratio n - undetected_ratio n \<le> 2 * unit_error"
    using f64_ratio_distance [OF assms(2)] by (simp only: abs_le_iff)
  ultimately have "f64_ratio n \<le> 31 / 64 + 2 * unit_error" by linarith
  also have "\<dots> \<le> 1 / 2" by simp
  finally show ?thesis .
qed

lemma f64_ratio_range:
  assumes "n \<le> 31"
  shows "0 \<le> f64_ratio n" and "f64_ratio n \<le> 1"
proof -
  have "0 \<le> undetected_ratio n * (1 - 2 * of_nat n * unit_error)"
    using undetected_ratio_pos [OF assms] assms by simp
  also note f64_ratio_near(2) [OF assms]
  finally show "0 \<le> f64_ratio n" .
  show "f64_ratio n \<le> 1"
    using f64_ratio_le_half [OF _ assms] by (cases "n = 0") (auto simp: f64_ratio_def)
qed

lemma das_confidence_near:
  assumes "n \<le> 31"
  shows "\<bar>das_confidence n - (1 - undetected_ratio n)\<bar> \<le> 1 / 2 ^ 51"
proof -
  note r = f64_ratio_range [OF assms]
  then have "\<bar>das_confidence n - (1 - f64_ratio n)\<bar> \<le> (1 - f64_ratio n) / 2 ^ 53"
    using das_confidence_below [of n] f64_round_error [of "1 - f64_ratio n"] assms by simp
  also have "\<dots> \<le> unit_error" using r by simp
  finally show ?thesis using f64_ratio_distance [OF assms] unfolding abs_le_iff by simp
qed

lemma das_confidence_one: "das_confidence n = 1 \<longleftrightarrow> 30 \<le> n"
proof (cases "n \<le> 31")
  case n: True
  note das = das_confidence_below [of n] and r = f64_ratio_range [OF n]
  show ?thesis
  proof (cases "30 \<le> n")
    case True
    have "undetected_ratio n \<le> 1 / 2 ^ 55"
      using undetected_ratio_anti [OF True n] undetected_ratio_values(3) by simp
    moreover have "1 + 4 * of_nat n * unit_error \<le> 2" using n by simp
    ultimately have "undetected_ratio n * (1 + 4 * of_nat n * unit_error) \<le> 1 / 2 ^ 55 * 2"
      by (intro mult_mono) simp_all
    with f64_ratio_near(1) [OF n] have "f64_ratio n \<le> 1 / 2 ^ 54" by simp
    then have "f64_round (1 - f64_ratio n) = 1" using r by (intro f64_round_to_one) simp_all
    with das n True show ?thesis by simp
  next
    case False
    have "f64_round (1 - f64_ratio n) \<noteq> 1"
    proof (cases "n = 0")
      case False
      have "2 / 2 ^ 53 \<le> undetected_ratio n"
        using undetected_ratio_anti [of n 29] undetected_ratio_values(2) \<open>\<not> 30 \<le> n\<close> by simp
      moreover have "1 / 2 \<le> 1 - 2 * of_nat n * unit_error" using n by simp
      ultimately have "2 / 2 ^ 53 * (1 / 2) \<le> undetected_ratio n * (1 - 2 * of_nat n * unit_error)"
        by (intro mult_mono) simp_all
      with f64_ratio_near(2) [OF n] have "1 - f64_ratio n \<le> 1 - 1 / 2 ^ 53" by simp
      moreover have "1 / 2 \<le> 1 - f64_ratio n" using f64_ratio_le_half [OF _ n] False by simp
      ultimately have "f64_round (1 - f64_ratio n) < 1" by (intro f64_round_not_one)
      then show ?thesis by simp
    qed (simp add: f64_ratio_def)
    with das n False show ?thesis by simp
  qed
qed (simp add: das_confidence_def)

text \<open>
  C32: The sampling confidence is right up to the precision of a double: for every number of samples it
  differs by at most \<open>2 ^ -51\<close> from one minus the share of \<open>n\<close>-subsets of 64 shreds that lie among the 31
  an adversary published. That is not enough at the end of the range: it is exactly 1 from 30 samples
  on, although up to 31 samples an adversary goes undetected with a chance that is not 0.
\<close>

theorem das_confidence_accuracy:
  "\<bar>das_confidence n - (1 - of_nat (31 choose n) / of_nat (64 choose n))\<bar> \<le> 1 / 2 ^ 51
   \<and> (das_confidence n = 1 \<longleftrightarrow> 30 \<le> n)
   \<and> (of_nat (31 choose n) / of_nat (64 choose n) = (0 :: rat) \<longleftrightarrow> 32 \<le> n)"
proof -
  have "\<bar>das_confidence n - (1 - of_nat (31 choose n) / of_nat (64 choose n))\<bar> \<le> 1 / 2 ^ 51"
  proof (cases "n \<le> 31")
    case True
    then show ?thesis using das_confidence_near undetected_ratio_closed by simp
  next
    case False
    then show ?thesis by (simp add: das_confidence_def binomial_eq_0)
  qed
  moreover have "of_nat (31 choose n) / of_nat (64 choose n) = (0 :: rat) \<longleftrightarrow> 32 \<le> n"
    by (cases "n \<le> 31") (auto simp: binomial_eq_0_iff)
  ultimately show ?thesis using das_confidence_one by blast
qed

end
