(* ===== verification/Udp_Listener.thy ===== *)
theory Udp_Listener
  imports Listener_Props Rust_Text
begin

text \<open>
  \<open>crates/listener/src/udp.rs\<close> and \<open>main.rs\<close>: the task that feeds datagrams to the assembler and sends
  its events to a consumer, and the daemon's resolver argument. The socket is the list of what
  \<open>recv_from\<close> returns; the channel is a parameter \<open>send\<close> that answers \<open>None\<close> once the consumer is gone.
\<close>

section \<open>The listener task\<close>

definition RECV_BUF :: nat where "RECV_BUF = 2048"

datatype recv_result = Datagram bytes | RecvError string

fun send_events ::
  "('c \<Rightarrow> fec_event \<Rightarrow> 'c option) \<Rightarrow> fec_event list \<Rightarrow> 'c \<Rightarrow> 'c \<times> bool" where
  "send_events send [] c = (c, True)"
| "send_events send (ev # evs) c =
     (case send c ev of None \<Rightarrow> (c, False) | Some c' \<Rightarrow> send_events send evs c')"

text \<open>
  One turn of the loop. \<open>recv_from\<close> puts at most \<open>RECV_BUF\<close> bytes of a datagram into the buffer. The
  result is the assembler, or \<open>None\<close> when the task has returned.
\<close>

definition listener_turn ::
  "('r, 's) listener_env \<Rightarrow> ('c \<Rightarrow> fec_event \<Rightarrow> 'c option) \<Rightarrow> recv_result \<Rightarrow> 's assembler \<Rightarrow> 'c
     \<Rightarrow> (unit, 's assembler option \<times> 'c) outcome" where
  "listener_turn env send r asm c =
     (case r of
        Datagram d \<Rightarrow>
          obind (ingest env asm (take RECV_BUF d)) (\<lambda>(asm', evs).
          let (c', alive) = send_events send evs c
          in Ret (if alive then Some asm' else None, c'))
      | RecvError e \<Rightarrow>
          Ret (Some asm, case send c (Rejected (RecvFailed e)) of None \<Rightarrow> c | Some c' \<Rightarrow> c'))"

fun listener_task ::
  "('r, 's) listener_env \<Rightarrow> ('c \<Rightarrow> fec_event \<Rightarrow> 'c option) \<Rightarrow> recv_result list \<Rightarrow> 's assembler \<Rightarrow> 'c
     \<Rightarrow> (unit, 's assembler option \<times> 'c) outcome" where
  "listener_task env send [] asm c = Ret (Some asm, c)"
| "listener_task env send (r # rs) asm c =
     obind (listener_turn env send r asm c) (\<lambda>(m, c').
       case m of None \<Rightarrow> Ret (None, c') | Some asm' \<Rightarrow> listener_task env send rs asm' c')"

text \<open>\<open>run_listener_with_resolver\<close>: nothing is read when the socket does not bind.\<close>

definition run_listener_with_resolver ::
  "('r, 's) listener_env \<Rightarrow> ('c \<Rightarrow> fec_event \<Rightarrow> 'c option) \<Rightarrow> string option \<Rightarrow> 's \<Rightarrow> recv_result list \<Rightarrow> 'c
     \<Rightarrow> (string, (unit, 's assembler option \<times> 'c) outcome) outcome" where
  "run_listener_with_resolver env send bind_error r recvs c =
     (case bind_error of
        Some e \<Rightarrow> Fail e
      | None \<Rightarrow> Ret (listener_task env send recvs (with_resolver r) c))"

definition run_listener ::
  "('r, bytes) listener_env \<Rightarrow> ('c \<Rightarrow> fec_event \<Rightarrow> 'c option) \<Rightarrow> string option \<Rightarrow> bytes \<Rightarrow> recv_result list \<Rightarrow> 'c
     \<Rightarrow> (string, (unit, bytes assembler option \<times> 'c) outcome) outcome" where
  "run_listener env send bind_error leader recvs c =
     run_listener_with_resolver (env\<lparr>le_resolve := static_leader\<rparr>) send bind_error leader recvs c"

section \<open>The resolver argument\<close>

text \<open>\<open>Box<dyn LeaderResolver>\<close>: the two resolvers behind one state; \<open>'w\<close> is the network's state.\<close>

datatype 'w dyn_resolver = StaticLeader bytes | HeliusLeader helius 'w

definition pubkey_from_b58 :: "(string \<Rightarrow> bytes option) \<Rightarrow> string \<Rightarrow> bytes option" where
  "pubkey_from_b58 b58_decode s =
     (case b58_decode s of None \<Rightarrow> None | Some v \<Rightarrow> if length v \<noteq> 32 then None else Some v)"

definition parse_resolver :: "(string \<Rightarrow> bytes option) \<Rightarrow> 'w \<Rightarrow> string \<Rightarrow> 'w dyn_resolver option" where
  "parse_resolver b58_decode w spec =
     (case strip_prefix ''static:'' spec of
        Some pk_str \<Rightarrow> map_option StaticLeader (pubkey_from_b58 b58_decode pk_str)
      | None \<Rightarrow>
          (case strip_prefix ''helius:'' spec of
             Some url \<Rightarrow> Some (HeliusLeader (helius_new url) w)
           | None \<Rightarrow>
               if length spec = 44 \<and> b58_decode spec \<noteq> None
               then map_option StaticLeader (pubkey_from_b58 b58_decode spec)
               else None))"

text \<open>The arguments of the daemon; \<open>parse_addr\<close> is \<open>SocketAddr\<close>'s parser.\<close>

datatype daemon_error = Usage | InvalidBindAddr | InvalidResolverSpec

definition daemon_args ::
  "(string \<Rightarrow> 'a option) \<Rightarrow> (string \<Rightarrow> bytes option) \<Rightarrow> 'w \<Rightarrow> string list
     \<Rightarrow> (daemon_error, 'a \<times> 'w dyn_resolver) outcome" where
  "daemon_args parse_addr b58_decode w args =
     (if length args \<noteq> 3 then Fail Usage
      else obind (ok_or InvalidBindAddr (parse_addr (args ! 1))) (\<lambda>addr.
           obind (ok_or InvalidResolverSpec (parse_resolver b58_decode w (args ! 2))) (\<lambda>r.
             Ret (addr, r))))"

definition dyn_leader :: "('w, 'j) rpc_api \<Rightarrow> bool \<Rightarrow> 'w dyn_resolver resolver" where
  "dyn_leader api oc r slot =
     (case r of
        StaticLeader pk \<Rightarrow>
          obind (static_leader pk slot) (\<lambda>(pk', a). Ret (StaticLeader pk', a))
      | HeliusLeader h w \<Rightarrow>
          obind (leader_for_slot api oc (\<lambda>h. h) (h, w) slot) (\<lambda>((h', w'), a). Ret (HeliusLeader h' w', a)))"

fun dyn_inv :: "'w dyn_resolver \<Rightarrow> bool" where
  "dyn_inv (StaticLeader pk) \<longleftrightarrow> length pk = 32"
| "dyn_inv (HeliusLeader h w) \<longleftrightarrow> helius_inv (h, w)"

lemma dyn_static: "dyn_leader api oc (StaticLeader pk) slot = Ret (StaticLeader pk, Some pk)"
  by (simp add: dyn_leader_def static_leader_def)

lemma dyn_helius:
  "dyn_leader api oc (HeliusLeader h w) slot = Ret (r', a) \<longleftrightarrow>
     (\<exists>h' w'. leader_for_slot api oc (\<lambda>h. h) (h, w) slot = Ret ((h', w'), a) \<and> r' = HeliusLeader h' w')"
  by (auto simp: dyn_leader_def obind_eq_Ret)

interpretation dyn: leader_resolver "dyn_leader api oc" dyn_inv for api oc
proof
  fix s s' :: "'a dyn_resolver" and slot pk r e
  show "dyn_inv s \<Longrightarrow> dyn_leader api oc s slot = Ret (s', Some pk) \<Longrightarrow> length pk = 32"
    by (cases s) (auto simp: dyn_static dyn_helius dest: helius.key_size)
  show "dyn_leader api oc s slot \<noteq> Fail e"
    by (cases s) (auto simp: dyn_leader_def static_leader_def obind_eq_Fail helius.no_error)
  show "dyn_inv s \<Longrightarrow> dyn_leader api oc s slot = Ret (s', r) \<Longrightarrow> dyn_inv s'"
    by (cases s) (auto simp: dyn_static dyn_helius dest: helius.inv_kept)
  show "dyn_inv s \<Longrightarrow> dyn_leader api oc s slot = Ret (s', Some pk) \<Longrightarrow>
      dyn_leader api oc s' slot = Ret (s', Some pk)"
    by (cases s) (auto simp: dyn_static dyn_helius dest: helius.stable)
qed

text \<open>
  Either resolver serves a schedule for the slots from \<open>lo\<close> up to \<open>hi\<close>: a static one if its key is the leader
  of all of them, the Helius one against an honest node.
\<close>

fun dyn_serves ::
  "('w, 'j) rpc_api \<Rightarrow> ('w \<Rightarrow> bool) \<Rightarrow> (u64 \<Rightarrow> bytes) \<Rightarrow> u64 \<Rightarrow> u64 \<Rightarrow> 'w dyn_resolver \<Rightarrow> bool" where
  "dyn_serves api up sched lo hi (StaticLeader pk) \<longleftrightarrow> (\<forall>slot \<in> {lo..<hi}. sched slot = pk)"
| "dyn_serves api up sched lo hi (HeliusLeader h w) \<longleftrightarrow> in_service api up sched lo hi (h, w)"

interpretation dyn_schedule: scheduled_resolver "dyn_leader api oc" "dyn_serves api up sched lo hi" sched "{lo..<hi}"
  for api oc up sched lo hi
proof
  fix s slot
  assume s: "dyn_serves api up sched lo hi s" "slot \<in> {lo..<hi}"
  show "\<exists>s'. dyn_leader api oc s slot = Ret (s', Some (sched slot)) \<and> dyn_serves api up sched lo hi s'"
  proof (cases s)
    case (StaticLeader pk)
    with s show ?thesis by (simp add: dyn_static)
  next
    case (HeliusLeader h w)
    then have "in_service api up sched lo hi (h, w)" using s(1) by simp
    from helius_schedule.serves [OF this s(2)] obtain h' w' where
      "leader_for_slot api oc (\<lambda>h. h) (h, w) slot = Ret ((h', w'), Some (sched slot))"
      and "in_service api up sched lo hi (h', w')" by fastforce
    then show ?thesis by (intro exI [of _ "HeliusLeader h' w'"]) (auto simp: HeliusLeader dyn_helius)
  qed
qed

lemma parse_resolver_inv: "parse_resolver b58_decode w spec = Some r \<Longrightarrow> dyn_inv r"
  by (auto simp: parse_resolver_def pubkey_from_b58_def helius_inv_def helius_new_def cache_wf_def
      split: option.splits if_splits)

section \<open>The receive buffer loses nothing\<close>

lemma rslice_append: "b \<le> length xs \<Longrightarrow> rslice a b (xs @ ys) = (rslice a b xs :: ('e, 'a list) outcome)"
  by (simp add: rslice_def slice_append)

lemma add_shard_trailing:
  assumes "1228 \<le> length raw" and "p_erasure_shard_index q = p_erasure_shard_index p"
  shows "add_shard env asm key st (raw @ extra) q v evs = add_shard env asm key st raw p v evs"
proof -
  have "shard_offset (v_kind v) + ERASURE_SHARD_SIZE \<le> length raw"
    using assms(1) by (cases "v_kind v") (simp_all add: shard_offset_def)
  then show ?thesis by (simp add: add_shard_def rslice_append assms(2))
qed

lemma ingest_trailing:
  assumes "1228 \<le> length raw"
  shows "ingest env asm (raw @ extra) = ingest env asm raw"
proof -
  have shard: "add_shard env a key st (raw @ extra) (p\<lparr>p_raw := x\<rparr>) v evs = add_shard env a key st raw p v evs"
    for a key st p x v evs
    by (rule add_shard_trailing [OF assms]) simp
  have acc: "accept env a (raw @ extra) (p\<lparr>p_raw := x\<rparr>) v = accept env a raw p v" for a p x v
    unfolding accept_def shard ..
  have hdr: "header (p\<lparr>p_raw := x\<rparr>) = header p" for p :: parsed_shred and x by simp
  show ?thesis
  proof (cases "parse_shred (le_oc env) raw")
    case (Ret p)
    show ?thesis
      unfolding ingest_def parse_trailing [OF assms] Ret obind.simps outcome.case
        verify_trailing [OF assms] acc hdr ..
  qed (simp_all add: ingest_def parse_trailing [OF assms])
qed

lemma ingest_truncated: "ingest env asm (take RECV_BUF d) = ingest env asm d"
proof (cases "length d \<le> RECV_BUF")
  case False
  then have "1228 \<le> length (take RECV_BUF d)" by (simp add: RECV_BUF_def)
  from ingest_trailing [OF this, of env asm "drop RECV_BUF d"] show ?thesis by simp
qed simp

section \<open>A consumer that takes a number of events\<close>

definition bounded :: "nat \<Rightarrow> fec_event list \<Rightarrow> fec_event \<Rightarrow> fec_event list option" where
  "bounded k q ev = (if length q < k then Some (q @ [ev]) else None)"

lemma send_bounded:
  "length q \<le> k \<Longrightarrow> send_events (bounded k) evs q = (take k (q @ evs), length (q @ evs) \<le> k)"
proof (induction evs arbitrary: q)
  case (Cons ev evs)
  show ?case
  proof (cases "length q < k")
    case True
    with Cons.IH [of "q @ [ev]"] show ?thesis by (simp add: bounded_def)
  next
    case False
    with Cons.prems show ?thesis by (simp add: bounded_def)
  qed
qed simp

lemma task_bounded:
  assumes "ingest_all env raws asm = Ret (asm', evs)" and "length q \<le> k"
  shows "listener_task env (bounded k) (map Datagram raws) asm q
     = Ret (if length (q @ evs) \<le> k then Some asm' else None, take k (q @ evs))"
  using assms
proof (induction raws arbitrary: asm q evs)
  case (Cons raw raws)
  from Cons.prems(1) obtain asm1 evs1 evs2 where
    i: "ingest env asm raw = Ret (asm1, evs1)" and r: "ingest_all env raws asm1 = Ret (asm', evs2)"
    and evs: "evs = evs1 @ evs2"
    by (auto simp: obind_eq_Ret)
  have turn: "listener_turn env (bounded k) (Datagram raw) asm q
      = Ret (if length (q @ evs1) \<le> k then Some asm1 else None, take k (q @ evs1))"
    by (simp add: listener_turn_def ingest_truncated i send_bounded [OF Cons.prems(2)])
  show ?case
  proof (cases "length (q @ evs1) \<le> k")
    case True
    with Cons.IH [OF r True] turn evs show ?thesis by simp
  next
    case False
    with turn evs show ?thesis by simp
  qed
qed simp

section \<open>Clients of a resolver\<close>

text \<open>A resolver that moreover never panics; the release build's resolvers are such.\<close>

locale total_resolver = leader_resolver +
  assumes no_panic: "inv s \<Longrightarrow> resolve s slot \<noteq> Panic"
begin

lemma answers: "answers_only resolve inv (\<lambda>slot pk. length pk = 32)"
  unfolding answers_only_def using inv_kept key_size by blast

lemma ingest_total:
  assumes "le_resolve env = resolve" and "\<not> le_oc env" and "rs_total (le_rs env)"
    and "asm_wf asm" and "inv (resolver asm)"
  shows "\<exists>asm' evs. ingest env asm raw = Ret (asm', evs) \<and> asm_wf asm' \<and> inv (resolver asm')"
proof -
  have "parse_shred (le_oc env) raw \<noteq> Panic" using assms(2) by (auto simp: parse_shred_eq obind_eq_Panic)
  moreover have "le_resolve env (resolver asm) slot \<noteq> Panic" "le_resolve env (resolver asm) slot \<noteq> Fail e" for slot e
    using assms(1,5) no_panic no_error by simp_all
  ultimately obtain asm' evs where i: "ingest env asm raw = Ret (asm', evs)"
    using ingest_cases [OF assms(4,3), of raw] by auto
  have "answers_only (le_resolve env) inv (\<lambda>slot pk. length pk = 32)" using answers assms(1) by simp
  from ingest_wf [OF i assms(4,3)] ingest_resolver_inv [OF i assms(4,3) this assms(5)] i
  show ?thesis by blast
qed

lemma task_total:
  assumes "le_resolve env = resolve" and "\<not> le_oc env" and "rs_total (le_rs env)"
    and "asm_wf asm" and "inv (resolver asm)"
  shows "\<exists>m c'. listener_task env send recvs asm c = Ret (m, c')"
  using assms(4,5)
proof (induction recvs arbitrary: asm c)
  case (Cons r recvs)
  have "\<exists>m c1. listener_turn env send r asm c = Ret (m, c1)
      \<and> (\<forall>asm1. m = Some asm1 \<longrightarrow> asm_wf asm1 \<and> inv (resolver asm1))"
  proof (cases r)
    case (Datagram d)
    from ingest_total [OF assms(1-3) Cons.prems, of "take RECV_BUF d"] obtain asm1 evs where
      "ingest env asm (take RECV_BUF d) = Ret (asm1, evs)" "asm_wf asm1" "inv (resolver asm1)" by blast
    then show ?thesis
      by (cases "send_events send evs c") (simp add: listener_turn_def Datagram)
  qed (use Cons.prems in \<open>simp add: listener_turn_def\<close>)
  then obtain m c1 where t: "listener_turn env send r asm c = Ret (m, c1)"
    and m: "\<forall>asm1. m = Some asm1 \<longrightarrow> asm_wf asm1 \<and> inv (resolver asm1)" by blast
  show ?case
  proof (cases m)
    case (Some asm1)
    with m Cons.IH [of asm1 c1] t show ?thesis by simp
  qed (simp add: t)
qed simp

end

lemma decode_leader_quiet: "decode_leader api v \<noteq> Panic"
  by (auto simp: decode_leader_def obind_eq_Panic)

lemma omap_quiet: "(\<And>x. f x \<noteq> Panic) \<Longrightarrow> omap f xs \<noteq> Panic"
  by (induction xs) (auto simp: obind_eq_Panic)

lemma fetch_window_quiet: "snd (fetch_window api w url start n) \<noteq> Panic"
  by (auto simp: fetch_window_def obind_eq_Panic omap_quiet decode_leader_quiet
      split: prod.splits http_reply.splits option.splits)

lemma ofold_quiet: "(\<And>x s. f x s \<noteq> Panic) \<Longrightarrow> ofold f xs s \<noteq> Panic"
  by (induction xs arbitrary: s) (auto simp: obind_eq_Panic)

lemma insert_leaders_quiet: "insert_leaders False start leaders cache \<noteq> Panic"
  unfolding insert_leaders_def by (rule ofold_quiet) (simp add: rust_add_def split: prod.split)

lemma fill_window_quiet: "snd (fill_window api False s start) \<noteq> Panic"
  using fetch_window_quiet [of api "snd s" "hr_url (fst s)" start BATCH_SIZE] insert_leaders_quiet
  by (auto simp: fill_window_def split: prod.splits outcome.splits)

lemma leader_for_slot_quiet: "leader_for_slot api False others s slot \<noteq> Panic"
  using fill_window_quiet [of api "(others (fst s), snd s)" slot]
  by (auto simp: leader_for_slot_def Let_def split: prod.splits option.splits outcome.splits)

interpretation quiet: total_resolver "dyn_leader api False" dyn_inv for api
proof
  fix s :: "'a dyn_resolver" and slot
  show "dyn_leader api False s slot \<noteq> Panic"
    by (cases s) (auto simp: dyn_leader_def static_leader_def obind_eq_Panic leader_for_slot_quiet)
qed

section \<open>Properties\<close>

text \<open>
  The task is the assembler. When a run of the assembler over the received datagrams yields the
  events \<open>evs\<close>, the task delivers to a consumer that takes \<open>k\<close> events exactly the first \<open>k\<close> of them, in
  order, and returns exactly when there were more; cutting datagrams to the receive buffer loses
  nothing.
\<close>

theorem listener_forwards:
  assumes "ingest_all env raws (with_resolver r) = Ret (asm, evs)"
  shows "run_listener_with_resolver env (bounded k) None r (map Datagram raws) []
     = Ret (Ret (if length evs \<le> k then Some asm else None, take k evs))"
  using task_bounded [OF assms, of "[]" k] by (simp add: run_listener_with_resolver_def)

theorem listener_forwards_witness:
  "\<exists>(fs :: fec_set) asm evs. run_listener_with_resolver sample_env (bounded 0) None (leader_pubkey fs)
       (map Datagram (map ((!) (shreds fs)) [0..<32])) [] = Ret (Ret (None, []))
     \<and> ingest_all sample_env (map ((!) (shreds fs)) [0..<32]) (with_resolver (leader_pubkey fs)) = Ret (asm, evs)"
proof -
  obtain fs :: fec_set and asm evs where
    run: "ingest_all sample_env (map ((!) (shreds fs)) [0..<32]) (with_resolver (leader_pubkey fs)) = Ret (asm, evs)"
    and "Reconstructed (built_key last_params) (fs_merkle_root fs) 1 \<in> set evs"
    using sample_run by blast
  then have "evs \<noteq> []" by auto
  with listener_forwards [OF run, of 0] run show ?thesis
    by (intro exI [of _ fs] exI [of _ asm] exI [of _ evs]) simp
qed

text \<open>
  C25: The release daemon keeps running. With overflow checks off and any resolver that the resolver
  argument can name, no sequence of datagrams, receive errors, replies of the RPC node and decisions of
  the consumer makes the task panic.
\<close>

theorem release_daemon_survives:
  assumes "daemon_args parse_addr b58_decode w args = Ret (addr, r)"
    and "le_resolve env = dyn_leader api False" and "\<not> le_oc env" and "rs_total (le_rs env)"
  shows "\<exists>m c'. run_listener_with_resolver env send None r recvs c = Ret (Ret (m, c'))"
proof -
  have "parse_resolver b58_decode w (args ! 2) = Some r"
    using assms(1) by (auto simp: daemon_args_def obind_eq_Ret ok_or_eq_Ret split: if_splits)
  then have "dyn_inv (resolver (with_resolver r))"
    by (simp add: with_resolver_def parse_resolver_inv)
  from quiet.task_total [OF assms(2-4) with_resolver_wf this] show ?thesis
    by (simp add: run_listener_with_resolver_def)
qed

theorem release_daemon_survives_witness:
  "\<exists>m c'. run_listener_with_resolver
      \<lparr>le_sha = zero_sha, le_ed = accept_all, le_rs = copy_rs, le_resolve = dyn_leader one_leader_api False,
       le_oc = False\<rparr> (bounded 5) None (StaticLeader (replicate 32 7))
      [Datagram sample_raw, RecvError ''closed'', Datagram [1]] [] = Ret (Ret (m, c'))"
  by (rule release_daemon_survives [where parse_addr = "\<lambda>s. Some ()" and b58_decode = "\<lambda>s. Some (replicate 32 7)"
        and w = "()" and args = "[[], [], ''static:x'']" and addr = "()"])
    (simp_all add: daemon_args_def parse_resolver_def strip_prefix_def pubkey_from_b58_def copy_rs_total)

end
