(* ===== verification/Daemon.thy ===== *)
theory Daemon
  imports Udp_Listener Arrival_Props
begin

text \<open>
  The daemon \<open>lattica-listen\<close> as a whole (\<open>crates/listener/src/main.rs\<close>): arguments, listener task, the loop
  that prints its events, the exit status. Lines on stdout and stderr are one sequence, in the order in
  which the loop writes them. Base58 and hex are parameters, numbers are printed as in \<open>Rust_F64\<close>.
  The listener task writes lines of its own to the error stream when a lookup of a leader fails
  (\<open>resolver_stderr\<close> in \<open>Leader\<close>); they are not among these.
\<close>

section \<open>Message texts\<close>

definition hex_digit :: "nat \<Rightarrow> char" where
  "hex_digit n = (if n < 10 then char_of (48 + n) else char_of (87 + n))"

text \<open>\<open>{:02x}\<close> of a byte.\<close>

definition show_hex2 :: "byte \<Rightarrow> string" where
  "show_hex2 b = [hex_digit (unat b div 16), hex_digit (unat b mod 16)]"

fun shred_error_text :: "shred_error \<Rightarrow> string" where
  "shred_error_text (PayloadTooSmall n) = ''payload too small: '' @ show_nat n @ '' bytes''"
| "shred_error_text (UnknownVariant b) = ''unknown shred variant byte: 0x'' @ show_hex2 b"
| "shred_error_text InvalidSignatureBytes = ''invalid signature encoding''"
| "shred_error_text InvalidPubkeyBytes = ''invalid pubkey encoding''"
| "shred_error_text MerkleRootMismatch = ''invalid merkle proof (root mismatch)''"
| "shred_error_text SignatureVerifyFailed = ''ed25519 signature verification failed''"
| "shred_error_text (ProofSizeOverflow b) = ''proof_size '' @ show_nat (unat b) @ '' would overflow shred buffer''"

fun reed_sol_error_text :: "reed_sol_error \<Rightarrow> string" where
  "reed_sol_error_text (Inner e) = ''reed-solomon: '' @ e"
| "reed_sol_error_text (InsufficientShards h n) =
     ''not enough shards present: have '' @ show_nat h @ '', need at least '' @ show_nat n"
| "reed_sol_error_text (ShardLenMismatch e g) =
     ''shard length mismatch: expected '' @ show_nat e @ '', got '' @ show_nat g"

text \<open>The \<open>reason\<close> of a rejection, as \<open>ingest\<close> and the receive loop format it.\<close>

fun reason_text :: "reject_reason \<Rightarrow> string" where
  "reason_text (ParseFailed e) = ''parse: '' @ shred_error_text e"
| "reason_text (NoLeader slot) = ''no leader for slot '' @ show_nat (unat slot)"
| "reason_text (VerifyFailed e) = ''verify: '' @ shred_error_text e"
| "reason_text RootDiverges = ''merkle root diverges within FEC set (leader equivocation?)''"
| "reason_text (IndexOutOfRange i) = ''erasure_shard_index out of range: '' @ show_nat i"
| "reason_text (RsFailed e) = ''rs reconstruct: '' @ reed_sol_error_text e"
| "reason_text (RecvFailed e) = ''recv_from: '' @ e"

section \<open>The event loop of main\<close>

datatype line = Out string | Err string | Part string \<comment> \<open>\<open>Part\<close>: on stdout without a newline\<close>

definition slot_set :: "fec_key \<Rightarrow> string" where
  "slot_set key = ''slot='' @ show_nat (unat (fk_slot key)) @ '' fec_set='' @ show_nat (unat (fk_index key))"

fun event_line :: "(bytes \<Rightarrow> string) \<Rightarrow> fec_event \<Rightarrow> line" where
  "event_line hex (Started key rt) = Out (''[start] '' @ slot_set key @ '' root='' @ hex rt)"
| "event_line hex (ShredAccepted key n i) =
     Out (''[shred] '' @ slot_set key @ '' have='' @ show_nat n @ ''/64 idx='' @ show_nat i)"
| "event_line hex (Reconstructed key rt das) =
     Out (''[done!] '' @ slot_set key @ '' root='' @ hex rt @ '' das_conf='' @ show_fixed 6 das)"
| "event_line hex (SlotFinalized slot rts rt n das) =
     Out (''[SLOT!] slot='' @ show_nat (unat slot) @ '' n_fec_sets='' @ show_nat (length rts)
          @ '' shreds_observed='' @ show_nat n @ '' slot_das_conf='' @ show_fixed 9 das
          @ '' slot_root='' @ hex rt)"
| "event_line hex (Rejected reason) = Err (''[rej] '' @ reason_text reason)"

datatype daemon_status = Serving | ExitSuccess | ExitFailure

definition print_event :: "(bytes \<Rightarrow> string) \<Rightarrow> line list \<Rightarrow> fec_event \<Rightarrow> line list option" where
  "print_event hex out ev = Some (out @ [event_line hex ev])"

text \<open>
  The task sends, \<open>main\<close> prints; \<open>main\<close> keeps its end of the channel, so sending does not fail. A panic
  ends the task and drops its end; \<open>main\<close> then prints what is left in the channel, leaves its loop and
  returns success. While the task waits for a datagram the daemon is serving.
\<close>

fun daemon_loop ::
  "('r, 's) listener_env \<Rightarrow> (bytes \<Rightarrow> string) \<Rightarrow> recv_result list \<Rightarrow> 's assembler \<Rightarrow> line list
     \<Rightarrow> line list \<times> daemon_status" where
  "daemon_loop env hex [] asm out = (out, Serving)"
| "daemon_loop env hex (r # rs) asm out =
     (case listener_turn env (print_event hex) r asm out of
        Ret (Some asm', out') \<Rightarrow> daemon_loop env hex rs asm' out'
      | Ret (None, out') \<Rightarrow> (out', ExitSuccess)
      | _ \<Rightarrow> (out, ExitSuccess))"

definition nl :: string where "nl = [CHR 0x0A]"

definition usage_text :: string where
  "usage_text =
     ''usage:'' @ nl
     @ ''  lattica-listen <bind-addr> static:<leader-pubkey-base58>'' @ nl
     @ ''  lattica-listen <bind-addr> helius:<rpc-url>'' @ nl
     @ ''  lattica-listen <bind-addr> <leader-pubkey-base58>   # shorthand for static:''"

text \<open>What the daemon is given: parsers, the RPC node, and whether the socket binds.\<close>

record ('a, 'w, 'j) daemon_host =
  dh_parse_addr :: "string \<Rightarrow> 'a option"
  dh_addr_error :: "string \<Rightarrow> string"
  dh_show_addr :: "'a \<Rightarrow> string"
  dh_b58 :: "string \<Rightarrow> bytes option"
  dh_hex :: "bytes \<Rightarrow> string"
  dh_api :: "('w, 'j) rpc_api"
  dh_world :: 'w
  dh_bind_error :: "'a \<Rightarrow> string option"

definition daemon_env ::
  "('a, 'w, 'j) daemon_host \<Rightarrow> ('r, 'w dyn_resolver) listener_env \<Rightarrow> ('r, 'w dyn_resolver) listener_env" where
  "daemon_env h env = env\<lparr>le_resolve := dyn_leader (dh_api h) (le_oc env)\<rparr>"

definition daemon_main ::
  "('a, 'w, 'j) daemon_host \<Rightarrow> ('r, 'w dyn_resolver) listener_env \<Rightarrow> string list \<Rightarrow> recv_result list
     \<Rightarrow> line list \<times> daemon_status" where
  "daemon_main h env args recvs =
     (case daemon_args (dh_parse_addr h) (dh_b58 h) (dh_world h) args of
        Ret (addr, r) \<Rightarrow>
          let banner = Err (''[lattica-listen] binding '' @ dh_show_addr h addr @ '', resolver = '' @ args ! 2)
          in (case dh_bind_error h addr of
                Some e \<Rightarrow> ([banner, Err (''bind failed: '' @ e)], ExitFailure)
              | None \<Rightarrow> daemon_loop (daemon_env h env) (dh_hex h) recvs (with_resolver r) [banner])
      | Fail Usage \<Rightarrow> ([Err usage_text], ExitFailure)
      | Fail InvalidBindAddr \<Rightarrow> ([Err (''invalid bind addr: '' @ dh_addr_error h (args ! 1))], ExitFailure)
      | Fail InvalidResolverSpec \<Rightarrow> ([Err ''invalid resolver spec'', Err usage_text], ExitFailure)
      | Panic \<Rightarrow> ([], ExitFailure))"

section \<open>The events of a run\<close>

text \<open>The specification: what the results of the socket make the assembler report.\<close>

fun socket_run ::
  "('r, 's) listener_env \<Rightarrow> recv_result list \<Rightarrow> 's assembler \<Rightarrow> (unit, 's assembler \<times> fec_event list) outcome" where
  "socket_run env [] asm = Ret (asm, [])"
| "socket_run env (Datagram d # rs) asm =
     obind (ingest env asm d) (\<lambda>(asm, evs).
     obind (socket_run env rs asm) (\<lambda>(asm, evs'). Ret (asm, evs @ evs')))"
| "socket_run env (RecvError e # rs) asm =
     obind (socket_run env rs asm) (\<lambda>(asm, evs). Ret (asm, Rejected (RecvFailed e) # evs))"

lemma socket_run_datagrams: "socket_run env (map Datagram raws) asm = ingest_all env raws asm"
  by (induction raws arbitrary: asm) auto

lemma checked_not_Fail: "rslice i j xs \<noteq> Fail e" "rindex xs i \<noteq> Fail e" "unwrap m \<noteq> Fail e"
  by (simp_all add: rslice_def rindex_def) (cases m; simp)

lemma omap_not_Fail: "(\<And>x. f x \<noteq> Fail e) \<Longrightarrow> omap f xs \<noteq> Fail e"
  by (induction xs) (auto simp: obind_eq_Fail)

lemma try_reconstruct_not_Fail: "try_reconstruct env asm key st evs \<noteq> Fail e"
  by (auto simp: try_reconstruct_def Let_def obind_eq_Fail checked_not_Fail omap_not_Fail
      split: outcome.split prod.split)

lemma add_shard_not_Fail: "add_shard env asm key st raw p v evs \<noteq> Fail e"
  by (auto simp: add_shard_def Let_def obind_eq_Fail checked_not_Fail try_reconstruct_not_Fail
      split: option.split)

lemma accept_not_Fail: "accept env asm raw p v \<noteq> Fail e"
  by (auto simp: accept_def Let_def add_shard_not_Fail split: option.split prod.split)

lemma ingest_not_Fail:
  "(\<And>s slot e. le_resolve env s slot \<noteq> Fail e) \<Longrightarrow> ingest env asm raw \<noteq> Fail e"
  by (auto simp: ingest_def Let_def obind_eq_Fail accept_not_Fail split: outcome.splits option.splits)

lemma send_print: "send_events (print_event hex) evs out = (out @ map (event_line hex) evs, True)"
  by (induction evs arbitrary: out) (simp_all add: print_event_def)

lemma turn_print:
  "listener_turn env (print_event hex) (Datagram d) asm out =
     obind (ingest env asm d) (\<lambda>(asm', evs). Ret (Some asm', out @ map (event_line hex) evs))"
  "listener_turn env (print_event hex) (RecvError e) asm out =
     Ret (Some asm, out @ [event_line hex (Rejected (RecvFailed e))])"
  by (simp_all add: listener_turn_def ingest_truncated send_print) (simp add: print_event_def)

text \<open>As long as nothing panics, the daemon prints one line for each event.\<close>

lemma loop_serves:
  "socket_run env pre asm = Ret (asm', evs) \<Longrightarrow>
     daemon_loop env hex (pre @ later) asm out = daemon_loop env hex later asm' (out @ map (event_line hex) evs)"
proof (induction env pre asm arbitrary: evs out rule: socket_run.induct)
  case (2 env d rs asm)
  then obtain asm1 evs1 evs2 where "ingest env asm d = Ret (asm1, evs1)"
    "socket_run env rs asm1 = Ret (asm', evs2)" "evs = evs1 @ evs2"
    by (auto simp: obind_eq_Ret)
  with "2.IH" show ?case by (simp add: turn_print)
next
  case (3 env e rs asm)
  then obtain evs1 where "socket_run env rs asm = Ret (asm', evs1)" "evs = Rejected (RecvFailed e) # evs1"
    by (auto simp: obind_eq_Ret)
  with "3.IH" show ?case by (simp add: turn_print)
qed simp

lemma loop_panics:
  "ingest env asm d = Panic \<Longrightarrow> daemon_loop env hex (Datagram d # later) asm out = (out, ExitSuccess)"
  by (simp add: turn_print)

text \<open>A run of the assembler either goes through or has a first datagram that makes it panic.\<close>

lemma socket_run_cases:
  assumes "\<And>s slot e. le_resolve env s slot \<noteq> Fail e"
  shows "(\<exists>asm' evs. socket_run env rs asm = Ret (asm', evs))
     \<or> (\<exists>pre d later asm' evs. rs = pre @ Datagram d # later \<and> socket_run env pre asm = Ret (asm', evs)
          \<and> ingest env asm' d = Panic)"
proof (induction rs arbitrary: asm)
  case (Cons r rs)
  show ?case
  proof (cases r)
    case (Datagram d)
    show ?thesis
    proof (cases "ingest env asm d")
      case (Ret x)
      obtain asm1 evs1 where x: "x = (asm1, evs1)" by fastforce
      from Cons.IH [of asm1] show ?thesis
      proof (elim disjE exE conjE)
        fix asm' evs assume "socket_run env rs asm1 = Ret (asm', evs)"
        with Ret x Datagram show ?thesis by simp
      next
        fix pre e later asm' evs
        assume "rs = pre @ Datagram e # later" "socket_run env pre asm1 = Ret (asm', evs)" "ingest env asm' e = Panic"
        with Ret x Datagram show ?thesis
          by (intro disjI2 exI [of _ "Datagram d # pre"] exI [of _ e] exI [of _ later] exI [of _ asm']) simp
      qed
    next
      case Panic
      with Datagram show ?thesis
        by (intro disjI2 exI [of _ "[]"] exI [of _ d] exI [of _ rs] exI [of _ asm]) simp
    qed (use ingest_not_Fail [OF assms] in blast)
  next
    case (RecvError e)
    from Cons.IH [of asm] show ?thesis
    proof (elim disjE exE conjE)
      fix asm' evs assume "socket_run env rs asm = Ret (asm', evs)"
      with RecvError show ?thesis by simp
    next
      fix pre d later asm' evs
      assume "rs = pre @ Datagram d # later" "socket_run env pre asm = Ret (asm', evs)" "ingest env asm' d = Panic"
      with RecvError show ?thesis
        by (intro disjI2 exI [of _ "RecvError e # pre"] exI [of _ d] exI [of _ later] exI [of _ asm']) simp
    qed
  qed
qed simp

section \<open>A static key behind the dynamic resolver\<close>

text \<open>An assembler and its environment differ from another in the resolver only.\<close>

definition with_state :: "'t \<Rightarrow> 's assembler \<Rightarrow> 't assembler" where
  "with_state t asm = \<lparr>resolver = t, states = states asm, slots = slots asm\<rparr>"

definition same_env :: "('r, 's) listener_env \<Rightarrow> ('r, 't) listener_env \<Rightarrow> bool" where
  "same_env env env' \<longleftrightarrow> le_sha env' = le_sha env \<and> le_ed env' = le_ed env \<and> le_rs env' = le_rs env
     \<and> le_oc env' = le_oc env"

definition carried :: "'t \<Rightarrow> ('e, 's assembler \<times> 'a) outcome \<Rightarrow> ('e, 't assembler \<times> 'a) outcome" where
  "carried t m = obind m (\<lambda>(asm, x). Ret (with_state t asm, x))"

lemma carried_simps [simp]:
  "carried t (Ret (asm, x)) = Ret (with_state t asm, x)" "carried t (Fail e) = Fail e" "carried t Panic = Panic"
  by (simp_all add: carried_def)

lemma carried_obind: "carried t (obind m f) = obind m (\<lambda>x. carried t (f x))"
  by (cases m) (simp_all add: carried_def)

lemma with_state_simps [simp]:
  "states (with_state t asm) = states asm" "slots (with_state t asm) = slots asm"
  "resolver (with_state t asm) = t"
  "with_state t (asm\<lparr>resolver := s\<rparr>) = with_state t asm"
  "(with_state t asm)\<lparr>resolver := u\<rparr> = with_state u asm"
  "(with_state t asm)\<lparr>states := m\<rparr> = with_state t (asm\<lparr>states := m\<rparr>)"
  "(with_state t asm)\<lparr>slots := n\<rparr> = with_state t (asm\<lparr>slots := n\<rparr>)"
  by (simp_all add: with_state_def)

lemma put_with_state [simp]: "put_state key st (with_state t asm) = with_state t (put_state key st asm)"
  by (simp add: put_state_def)

lemma slot_with_state [simp]: "slot_or_default (with_state t asm) slot = slot_or_default asm slot"
  by (simp add: slot_or_default_def)

lemma finalize_with_state:
  "try_finalize_slot sha (with_state t asm) slot =
     (with_state t (fst (try_finalize_slot sha asm slot)), snd (try_finalize_slot sha asm slot))"
  by (simp add: try_finalize_slot_def Let_def split: option.split)

lemma reconstruct_with_state:
  assumes "same_env env env'"
  shows "try_reconstruct env' (with_state t asm) key st evs = carried t (try_reconstruct env asm key st evs)"
  using assms
  by (auto simp: try_reconstruct_def carried_obind same_env_def finalize_with_state Let_def split_beta
      intro!: obind_cong split: outcome.split)

lemma add_shard_with_state:
  assumes "same_env env env'"
  shows "add_shard env' (with_state t asm) key st raw p v evs = carried t (add_shard env asm key st raw p v evs)"
  by (auto simp: add_shard_def carried_obind reconstruct_with_state [OF assms] Let_def
      intro!: obind_cong split: option.split)

lemma accept_with_state:
  assumes "same_env env env'"
  shows "accept env' (with_state t asm) raw p v = carried t (accept env asm raw p v)"
  using assms
  by (auto simp: accept_def Let_def finalize_with_state add_shard_with_state split_beta same_env_def
      split: option.split)

lemma ingest_static:
  assumes "same_env env env'" and "le_resolve env = static_leader" and "le_resolve env' = dyn_leader api oc"
    and "resolver asm = pk"
  shows "ingest env' (with_state (StaticLeader pk) asm) raw = carried (StaticLeader pk) (ingest env asm raw)"
proof -
  have "asm\<lparr>resolver := pk\<rparr> = asm" using assms(4) by simp
  then show ?thesis
    using assms accept_with_state [OF assms(1)]
    by (auto simp: ingest_def static_leader_def dyn_static same_env_def Let_def split: outcome.split)
qed

lemma accept_resolver: "accept env asm raw p v = Ret (asm', evs) \<Longrightarrow> resolver asm' = resolver asm"
proof -
  assume a: "accept env asm raw p v = Ret (asm', evs)"
  have "with_state (resolver asm) asm = asm" by (simp add: with_state_def)
  moreover have "same_env env env" by (simp add: same_env_def)
  ultimately have "carried (resolver asm) (accept env asm raw p v) = accept env asm raw p v"
    using accept_with_state [of env env "resolver asm" asm raw p v] by metis
  with a have "with_state (resolver asm) asm' = asm'" by simp
  then show ?thesis by (metis with_state_simps(3))
qed

lemma static_keeps:
  "le_resolve env = static_leader \<Longrightarrow> ingest env asm raw = Ret (asm', evs) \<Longrightarrow> resolver asm' = resolver asm"
  by (auto simp: ingest_def static_leader_def Let_def dest: accept_resolver split: outcome.splits)

lemma run_static:
  assumes "same_env env env'" and "le_resolve env = static_leader" and "le_resolve env' = dyn_leader api oc"
  shows "ingest_all env raws asm = Ret (asm', evs) \<Longrightarrow> resolver asm = pk \<Longrightarrow>
     ingest_all env' raws (with_state (StaticLeader pk) asm) = Ret (with_state (StaticLeader pk) asm', evs)"
proof (induction raws arbitrary: asm evs)
  case (Cons raw raws)
  then obtain asm1 evs1 evs2 where i: "ingest env asm raw = Ret (asm1, evs1)"
    and r: "ingest_all env raws asm1 = Ret (asm', evs2)" and evs: "evs = evs1 @ evs2"
    by (auto simp: obind_eq_Ret)
  have "resolver asm1 = pk" using static_keeps [OF assms(2) i] Cons.prems(2) by simp
  from Cons.IH [OF r this] ingest_static [OF assms Cons.prems(2), of raw] i evs show ?case by simp
qed simp

section \<open>Properties\<close>

definition banner :: "('a, 'w, 'j) daemon_host \<Rightarrow> 'a \<Rightarrow> string list \<Rightarrow> line" where
  "banner h addr args =
     Err (''[lattica-listen] binding '' @ dh_show_addr h addr @ '', resolver = '' @ args ! 2)"

lemma daemon_main_starts:
  assumes "daemon_args (dh_parse_addr h) (dh_b58 h) (dh_world h) args = Ret (addr, r)"
    and "dh_bind_error h addr = None"
  shows "daemon_main h env args recvs
     = daemon_loop (daemon_env h env) (dh_hex h) recvs (with_resolver r) [banner h addr args]"
  using assms by (simp add: daemon_main_def banner_def)

lemma daemon_env_quiet: "le_resolve (daemon_env h env) s slot \<noteq> Fail e"
  by (simp add: daemon_env_def dyn.no_error)

text \<open>
  C23: How the daemon ends. Once it is bound, it prints one line for each event that the assembler reports
  for what the socket delivers, in order. It goes on serving unless a datagram makes the assembler panic;
  then it stops at that datagram, reads nothing more, and its exit status is success.
\<close>

theorem daemon_outcome:
  assumes "daemon_args (dh_parse_addr h) (dh_b58 h) (dh_world h) args = Ret (addr, r)"
    and "dh_bind_error h addr = None"
  shows "\<exists>pre asm evs. socket_run (daemon_env h env) pre (with_resolver r) = Ret (asm, evs)
     \<and> fst (daemon_main h env args recvs) = banner h addr args # map (event_line (dh_hex h)) evs
     \<and> (snd (daemon_main h env args recvs) = Serving \<and> recvs = pre
        \<or> snd (daemon_main h env args recvs) = ExitSuccess
          \<and> (\<exists>d later. recvs = pre @ Datagram d # later \<and> ingest (daemon_env h env) asm d = Panic))"
proof -
  note start = daemon_main_starts [OF assms, of env recvs]
  from socket_run_cases [OF daemon_env_quiet, of h env recvs "with_resolver r"] show ?thesis
  proof (elim disjE exE conjE)
    fix asm evs assume run: "socket_run (daemon_env h env) recvs (with_resolver r) = Ret (asm, evs)"
    from loop_serves [OF run, of "dh_hex h" "[]" "[banner h addr args]"] run start show ?thesis
      by (intro exI [of _ recvs] exI [of _ asm] exI [of _ evs]) simp
  next
    fix pre d later asm evs
    assume recvs: "recvs = pre @ Datagram d # later"
      and run: "socket_run (daemon_env h env) pre (with_resolver r) = Ret (asm, evs)"
      and p: "ingest (daemon_env h env) asm d = Panic"
    from loop_serves [OF run, of "dh_hex h" "Datagram d # later" "[banner h addr args]"] run start recvs
      loop_panics [OF p] p
    show ?thesis by (intro exI [of _ pre] exI [of _ asm] exI [of _ evs]) simp
  qed
qed

text \<open>
  C24: One forged datagram stops a checked daemon. In a build with overflow checks, whatever was received
  before, a datagram of at least 1203 bytes with a data variant byte and an \<open>index\<close> below its
  \<open>fec_set_index\<close> ends the daemon, with exit status success; it needs no valid signature.
\<close>

theorem one_datagram_ends_daemon:
  assumes "daemon_args (dh_parse_addr h) (dh_b58 h) (dh_world h) args = Ret (addr, r)"
    and "dh_bind_error h addr = None" and "le_oc env"
    and "socket_run (daemon_env h env) before (with_resolver r) = Ret (asm, evs)"
    and "1203 \<le> length d" and "(d ! 64) AND 0xf0 \<in> {0x90, 0xb0}"
    and "(from_le_bytes (slice 73 77 d) :: u32) < from_le_bytes (slice 79 83 d)"
  shows "daemon_main h env args (before @ Datagram d # later)
     = (banner h addr args # map (event_line (dh_hex h)) evs, ExitSuccess)"
proof -
  have "ingest (daemon_env h env) asm d = Panic"
    using forged_index_panics [OF assms(5-7)] assms(3) by (simp add: ingest_def daemon_env_def)
  from loop_serves [OF assms(4), of "dh_hex h" "Datagram d # later" "[banner h addr args]"] loop_panics [OF this]
  show ?thesis by (simp add: daemon_main_starts [OF assms(1,2)])
qed

text \<open>
  C22: From the leader's builder to the operator's screen. Let the daemon run with a resolver that serves
  the leader schedule: the static key of the one leader, or a node that knows the schedule. Let 32
  datagrams of each set of a slot arrive, with repetitions and shreds of other slots and leaders between
  them, a flagged one of the highest set, and only of it, among them, and let the slot at no moment be
  complete without some set: whenever a flagged shred is there and every set seen so far has 32 positions,
  all sets have been seen. Then the daemon keeps serving and prints the line that reports the slot, with
  the number of its sets, 32 shreds for each, confidence 1 and the aggregate of the builder's roots.
\<close>

theorem daemon_prints_slot:
  assumes "daemon_args (dh_parse_addr h) (dh_b58 h) (dh_world h) args = Ret (addr, r)"
    and "dh_bind_error h addr = None"
    and "dyn_serves (dh_api h) up (\<lambda>slot. sk_public sg (ks slot)) lo hi r"
    and "sha_ok (le_sha env)" and "rs_ok rs" and "rs_ok (le_rs env)" and "rs_total (le_rs env)"
    and "\<forall>slot \<in> {lo..<hi}. signer_ok sg (le_ed env) (ks slot)" and "fk_slot ` keys \<subseteq> {lo..<hi}"
    and "built_all env rs sg oc ks lb keys" and "set arr \<subseteq> keys \<times> {..<64}"
    and "slot_arrives (sets_of lb) slot idxs l arr"
  shows "\<exists>out. daemon_main h env args (map Datagram (datagrams (sets_of lb) arr)) = (out, Serving)
     \<and> event_line (dh_hex h) (SlotFinalized slot (map (\<lambda>i. fs_merkle_root (lb_set lb (fkey slot i))) (idxs @ [l]))
          (aggregate_root (le_sha env) (map (\<lambda>i. fs_merkle_root (lb_set lb (fkey slot i))) (idxs @ [l])))
          (32 * length (idxs @ [l])) 1) \<in> set out"
proof -
  let ?raws = "datagrams (sets_of lb) arr" and ?env = "daemon_env h env"
  let ?ev = "SlotFinalized slot (map (\<lambda>i. fs_merkle_root (lb_set lb (fkey slot i))) (idxs @ [l]))
      (aggregate_root (le_sha env) (map (\<lambda>i. fs_merkle_root (lb_set lb (fkey slot i))) (idxs @ [l])))
      (32 * length (idxs @ [l])) 1"
  have env: "le_sha ?env = le_sha env" "le_ed ?env = le_ed env" "le_rs ?env = le_rs env" "le_oc ?env = le_oc env"
    by (simp_all add: daemon_env_def)
  have serve: "scheduled_resolver (le_resolve ?env) (dyn_serves (dh_api h) up (\<lambda>slot. sk_public sg (ks slot)) lo hi)
      (\<lambda>slot. sk_public sg (ks slot)) {lo..<hi}"
    by (simp add: daemon_env_def dyn_schedule.scheduled_resolver_axioms)
  have "built_all ?env rs sg oc ks lb keys" using assms(10) by (simp add: built_all_def env)
  from built_interleaved_run [OF _ assms(5) _ _ serve assms(3) _ assms(9) this assms(11,12), unfolded env] assms(4,6-8)
  obtain asm evs where run: "ingest_all ?env ?raws (with_resolver r) = Ret (asm, evs)" and fin: "?ev \<in> set evs" by blast
  from run have "socket_run ?env (map Datagram ?raws) (with_resolver r) = Ret (asm, evs)"
    unfolding socket_run_datagrams .
  from loop_serves [OF this, of "dh_hex h" "[]" "[banner h addr args]"]
  have "daemon_main h env args (map Datagram ?raws) = (banner h addr args # map (event_line (dh_hex h)) evs, Serving)"
    by (simp add: daemon_main_starts [OF assms(1,2)])
  moreover have "event_line (dh_hex h) ?ev \<in> set (map (event_line (dh_hex h)) evs)"
    unfolding set_map using fin by (rule imageI)
  ultimately show ?thesis by (metis list.set_intros(2))
qed

section \<open>A concrete daemon\<close>

definition sample_host :: "(unit, unit, unit) daemon_host" where
  "sample_host = \<lparr>dh_parse_addr = (\<lambda>s. if s = ''0.0.0.0:9999'' then Some () else None), dh_addr_error = (\<lambda>s. s),
     dh_show_addr = (\<lambda>_. ''0.0.0.0:9999''), dh_b58 = (\<lambda>s. if s = ''111'' then Some (replicate 32 0) else None),
     dh_hex = (\<lambda>bs. concat (map show_hex2 bs)), dh_api = one_leader_api, dh_world = (), dh_bind_error = (\<lambda>_. None)\<rparr>"

definition sample_args :: "string list" where
  "sample_args = [''lattica-listen'', ''0.0.0.0:9999'', ''static:111'']"

definition sample_listener :: "bool \<Rightarrow> (unit, unit dyn_resolver) listener_env" where
  "sample_listener oc = \<lparr>le_sha = zero_sha, le_ed = accept_all, le_rs = copy_rs,
     le_resolve = (\<lambda>s slot. Ret (s, None)), le_oc = oc\<rparr>"

lemma sample_host_args:
  "daemon_args (dh_parse_addr sample_host) (dh_b58 sample_host) (dh_world sample_host) sample_args
     = Ret ((), StaticLeader (replicate 32 0))"
  "dh_bind_error sample_host () = None"
  by (simp_all add: daemon_args_def sample_args_def sample_host_def parse_resolver_def strip_prefix_def
      pubkey_from_b58_def)

definition forged_raw :: bytes where
  "forged_raw = (replicate 1228 0)[64 := 0x96, 79 := 1]"

lemma forged_raw_fields:
  "1203 \<le> length forged_raw" "(forged_raw ! 64) AND 0xf0 \<in> {0x90, 0xb0}"
  "(from_le_bytes (slice 73 77 forged_raw) :: u32) < from_le_bytes (slice 79 83 forged_raw)"
  by code_simp+

lemma shown_numbers: "show_nat 0 = ''0''" "show_nat 1 = ''1''" "show_nat 7 = ''7''" "show_nat 64 = ''64''" "show_nat 2 = ''2''"
  by code_simp+

lemma shown_certainty: "show_fixed 9 1 = ''1.000000000''"
proof -
  have "round_even (1 * 10 ^ 9) = 10 ^ 9" using round_even_of_nat [of "10 ^ 9"] by simp
  moreover have "pad_zeros 9 ''0'' = ''000000000''" by code_simp
  ultimately show ?thesis
    unfolding show_fixed_def Let_def by (simp only: mod_self shown_numbers) (simp add: shown_numbers [simplified])
qed

lemma slot_line:
  "event_line hex (SlotFinalized 7 [a, b] rt 64 1) =
     Out (''[SLOT!] slot=7 n_fec_sets=2 shreds_observed=64 slot_das_conf=1.000000000 slot_root='' @ hex rt)"
proof -
  have "unat (7 :: u64) = 7" "length [a, b] = 2" by simp_all
  then show ?thesis by (simp only: event_line.simps shown_numbers shown_certainty) simp
qed

theorem one_datagram_ends_daemon_witness:
  "snd (daemon_main sample_host (sample_listener True) sample_args [Datagram forged_raw, RecvError ''x'']) = ExitSuccess"
  using one_datagram_ends_daemon [OF sample_host_args, of "sample_listener True" "[]" "with_resolver (StaticLeader (replicate 32 0))"
      "[]" forged_raw "[RecvError ''x'']"] forged_raw_fields
  by (simp add: sample_listener_def)

theorem daemon_outcome_witness:
  "\<exists>asm evs. fst (daemon_main sample_host (sample_listener True) sample_args [RecvError ''x''])
       = banner sample_host () sample_args # map (event_line (dh_hex sample_host)) evs
     \<and> socket_run (daemon_env sample_host (sample_listener True)) [RecvError ''x''] (with_resolver (StaticLeader (replicate 32 0)))
       = Ret (asm, evs)"
proof -
  have no: "[RecvError ''x''] \<noteq> pre @ Datagram d # later" for pre d later
    by (auto simp: Cons_eq_append_conv)
  from daemon_outcome [OF sample_host_args, of "sample_listener True" "[RecvError ''x'']"] no
  show ?thesis by blast
qed

text \<open>The same host with a node that knows the schedule.\<close>

definition schedule_host :: "(unit, unit, u64 list) daemon_host" where
  "schedule_host = \<lparr>dh_parse_addr = dh_parse_addr sample_host, dh_addr_error = dh_addr_error sample_host,
     dh_show_addr = dh_show_addr sample_host, dh_b58 = dh_b58 sample_host, dh_hex = dh_hex sample_host,
     dh_api = schedule_api, dh_world = (), dh_bind_error = (\<lambda>_. None)\<rparr>"

definition schedule_args :: "string list" where
  "schedule_args = [''lattica-listen'', ''0.0.0.0:9999'', ''helius:http'']"

definition schedule_listener :: "(unit, unit dyn_resolver) listener_env" where
  "schedule_listener = \<lparr>le_sha = zero_sha, le_ed = named_ed, le_rs = copy_rs,
     le_resolve = (\<lambda>s slot. Ret (s, None)), le_oc = True\<rparr>"

lemma schedule_host_args:
  "daemon_args (dh_parse_addr schedule_host) (dh_b58 schedule_host) (dh_world schedule_host) schedule_args
     = Ret ((), HeliusLeader (helius_new ''http'') ())"
  "dh_bind_error schedule_host () = None"
  by (simp_all add: daemon_args_def schedule_args_def schedule_host_def sample_host_def parse_resolver_def strip_prefix_def)

lemma schedule_host_serves:
  "dyn_serves (dh_api schedule_host) (\<lambda>_. True) (\<lambda>slot. sk_public named_signer (ucast slot)) 0 1000
     (HeliusLeader (helius_new ''http'') ())"
  using schedule_serves by (simp add: schedule_host_def low_byte_key_def [abs_def] named_signer_def)

theorem daemon_prints_slot_witness:
  "\<exists>(lb :: byte leader_builder) out t. daemon_main schedule_host schedule_listener schedule_args
        (map Datagram (datagrams (sets_of lb) pair_arrivals)) = (out, Serving)
     \<and> Out (''[SLOT!] slot=7 n_fec_sets=2 shreds_observed=64 slot_das_conf=1.000000000 slot_root='' @ t) \<in> set out"
proof -
  obtain lb where lb: "built_all schedule_env copy_rs named_signer True ucast lb pair_keys" "lb_params lb = pair_params"
    using pair_built by blast
  then have built: "built_all schedule_listener copy_rs named_signer True ucast lb pair_keys"
    by (simp add: built_all_def schedule_listener_def)
  have sub: "set pair_arrivals \<subseteq> pair_keys \<times> {..<64}" by (auto simp: pair_members)
  have ok: "sha_ok (le_sha schedule_listener)" "rs_ok (le_rs schedule_listener)" "rs_total (le_rs schedule_listener)"
    "\<forall>slot \<in> {0..<1000}. signer_ok named_signer (le_ed schedule_listener) (ucast slot)"
    by (simp_all add: schedule_listener_def zero_sha_ok copy_rs_ok copy_rs_total named_signer_ok)
  let ?r = "\<lambda>i. fs_merkle_root (lb_set lb (fkey 7 i))"
  have ev: "SlotFinalized 7 (map ?r ([0] @ [64])) rt (32 * length ([0 :: u32] @ [64])) 1
      = SlotFinalized 7 [?r 0, ?r 64] rt 64 1" for rt by simp
  from daemon_prints_slot [OF schedule_host_args schedule_host_serves ok(1) copy_rs_ok ok(2-4) pair_slots
      built sub pair_arrives [OF lb(2)], unfolded ev slot_line]
  show ?thesis by blast
qed

end
