(* ===== verification/Wasm_Verify.thy ===== *)
theory Wasm_Verify
  imports Attest Rust_Text
begin

text \<open>
  \<open>crates/wasm-verify/src/lib.rs\<close>: the slot verifier as JavaScript sees it. The bridge
  (\<open>serde_wasm_bindgen\<close>, derived deserializers, \<open>hex\<close>) is the parameter \<open>wasm_api\<close>; the hand-written
  conversions are modelled. A \<open>JsValue\<close> error is its string, \<open>JsValue::NULL\<close> is \<open>()\<close>.
\<close>

section \<open>Values from JavaScript\<close>

text \<open>A \<open>serde_json::Value\<close> as the code looks at it; a number carries the answer of \<open>as_u64()\<close>.\<close>

datatype lamports_value = Number "u64 option" | String string | OtherValue

definition lamports_deserialize :: "lamports_value \<Rightarrow> (string, u64) outcome" where
  "lamports_deserialize v =
     (case v of
        Number n \<Rightarrow> ok_or ''lamports number out of u64 range'' n
      | String s \<Rightarrow> ok_or ''lamports string not u64'' (parse_u64 s)
      | OtherValue \<Rightarrow> Fail ''lamports must be number or string'')"

record js_account =
  ja_lamports :: u64
  ja_data :: bytes
  ja_executable :: bool
  ja_owner :: bytes
  ja_pubkey :: bytes

record js_transition =
  jt_old :: "js_account option"
  jt_new :: "js_account option"

text \<open>
  An account as the bridge hands it over: the lamports are still a JSON value. The derived deserializers
  decode them on the way, so when the bridge gives up they have already looked at some: its failure
  carries the lamports it met before, in order.
\<close>

record raw_account =
  rj_lamports :: lamports_value
  rj_data :: bytes
  rj_executable :: bool
  rj_owner :: bytes
  rj_pubkey :: bytes

record 'j wasm_api =
  from_attestation :: "'j \<Rightarrow> (string, attestation) outcome"
  from_transitions :: "'j \<Rightarrow> (lamports_value list \<times> string, (raw_account option \<times> raw_account option) list) outcome"
  hex_encode :: "bytes \<Rightarrow> string"

definition opt_outcome :: "('a \<Rightarrow> ('e, 'b) outcome) \<Rightarrow> 'a option \<Rightarrow> ('e, 'b option) outcome" where
  "opt_outcome f m = (case m of None \<Rightarrow> Ret None | Some x \<Rightarrow> obind (f x) (\<lambda>y. Ret (Some y)))"

definition de_account :: "raw_account \<Rightarrow> (string, js_account) outcome" where
  "de_account r =
     obind (lamports_deserialize (rj_lamports r)) (\<lambda>l.
       Ret \<lparr>ja_lamports = l, ja_data = rj_data r, ja_executable = rj_executable r,
            ja_owner = rj_owner r, ja_pubkey = rj_pubkey r\<rparr>)"

definition de_transition :: "raw_account option \<times> raw_account option \<Rightarrow> (string, js_transition) outcome" where
  "de_transition t =
     obind (opt_outcome de_account (fst t)) (\<lambda>a.
     obind (opt_outcome de_account (snd t)) (\<lambda>b. Ret \<lparr>jt_old = a, jt_new = b\<rparr>))"

definition de_transitions :: "'j wasm_api \<Rightarrow> 'j \<Rightarrow> (string, js_transition list) outcome" where
  "de_transitions api v =
     (case from_transitions api v of
        Fail (seen, e) \<Rightarrow> obind (omap lamports_deserialize seen) (\<lambda>_. Fail e)
      | Panic \<Rightarrow> Panic
      | Ret raws \<Rightarrow> omap de_transition raws)"

section \<open>The entry point\<close>

definition js_account_for_hash :: "js_account \<Rightarrow> (string, account_for_hash) outcome" where
  "js_account_for_hash a =
     (if length (ja_owner a) \<noteq> 32
      then Fail (''owner must be 32 bytes, got '' @ show_nat (length (ja_owner a)))
      else if length (ja_pubkey a) \<noteq> 32
      then Fail (''pubkey must be 32 bytes, got '' @ show_nat (length (ja_pubkey a)))
      else Ret \<lparr>lamports = ja_lamports a, data = ja_data a, executable = ja_executable a,
                owner = ja_owner a, pubkey = ja_pubkey a\<rparr>)"

definition hash_transition :: "js_account option \<times> js_account option \<Rightarrow> (string, account_transition) outcome" where
  "hash_transition t =
     obind (opt_outcome js_account_for_hash (fst t)) (\<lambda>a.
     obind (opt_outcome js_account_for_hash (snd t)) (\<lambda>b. Ret \<lparr>t_old = a, t_new = b\<rparr>))"

text \<open>The error strings of the final match.\<close>

fun js_error :: "'j wasm_api \<Rightarrow> verify_error \<Rightarrow> string" where
  "js_error api EmptyTransition = ''empty_transition''"
| "js_error api MalformedDelta = ''malformed_delta''"
| "js_error api (DeltaMismatch a r) = ''mismatch: '' @ hex_encode api a @ '' != '' @ hex_encode api r"

definition verify_slot_delta_js ::
  "'j wasm_api \<Rightarrow> (bytes \<Rightarrow> nat \<Rightarrow> bytes) \<Rightarrow> (bytes \<Rightarrow> bytes) \<Rightarrow> 'j \<Rightarrow> 'j \<Rightarrow> (string, unit) outcome" where
  "verify_slot_delta_js api xof b3 attestation transitions =
     obind (map_fail (\<lambda>e. ''attestation parse: '' @ e) (from_attestation api attestation)) (\<lambda>att.
     obind (map_fail (\<lambda>e. ''transitions parse: '' @ e) (de_transitions api transitions)) (\<lambda>js_transitions.
     let backing = map (\<lambda>t. (jt_old t, jt_new t)) js_transitions in
     obind (omap hash_transition backing) (\<lambda>ts.
     map_fail (js_error api) (verify_slot_delta xof b3 att ts))))"

definition lthash_limb_count :: u32 where
  "lthash_limb_count = word_of_nat N_LIMBS"

section \<open>What the conversions do\<close>

definition lamports_of :: "lamports_value \<Rightarrow> u64 option" where
  "lamports_of v = (case v of Number n \<Rightarrow> n | String s \<Rightarrow> parse_u64 s | OtherValue \<Rightarrow> None)"

definition account_of :: "raw_account \<Rightarrow> account_for_hash option" where
  "account_of r =
     (if length (rj_owner r) = 32 \<and> length (rj_pubkey r) = 32
      then map_option (\<lambda>l. \<lparr>lamports = l, data = rj_data r, executable = rj_executable r,
                             owner = rj_owner r, pubkey = rj_pubkey r\<rparr>) (lamports_of (rj_lamports r))
      else None)"

text \<open>A transition as the verifier should see it.\<close>

definition sees :: "raw_account option \<times> raw_account option \<Rightarrow> account_transition \<Rightarrow> bool" where
  "sees t x \<longleftrightarrow> map_option account_of (fst t) = map_option Some (t_old x)
     \<and> map_option account_of (snd t) = map_option Some (t_new x)"

lemma lamports_Ret: "lamports_deserialize v = Ret l \<longleftrightarrow> lamports_of v = Some l"
  by (cases v; cases "lamports_of v") (auto simp: lamports_deserialize_def lamports_of_def)

lemma opt_outcome_Ret:
  "opt_outcome f m = Ret y \<longleftrightarrow> (case m of None \<Rightarrow> y = None | Some x \<Rightarrow> \<exists>z. f x = Ret z \<and> y = Some z)"
  by (auto simp: opt_outcome_def obind_eq_Ret split: option.splits)

lemma convert_account: "obind (de_account r) js_account_for_hash = Ret a \<longleftrightarrow> account_of r = Some a"
proof (cases "lamports_of (rj_lamports r)")
  case None
  then have "lamports_deserialize (rj_lamports r) \<noteq> Ret l" for l by (simp add: lamports_Ret)
  with None show ?thesis
    by (auto simp: de_account_def account_of_def obind_eq_Ret)
next
  case (Some l)
  then have "lamports_deserialize (rj_lamports r) = Ret l" by (simp add: lamports_Ret)
  with Some show ?thesis
    by (auto simp: de_account_def js_account_for_hash_def account_of_def)
qed

lemma opt_outcome_comp:
  "obind (opt_outcome f m) (opt_outcome g) = opt_outcome (\<lambda>x. obind (f x) g) m"
proof (cases m)
  case (Some x)
  then show ?thesis by (cases "f x") (simp_all add: opt_outcome_def)
qed (simp add: opt_outcome_def)

lemma convert_option:
  "(\<exists>j. opt_outcome de_account m = Ret j \<and> opt_outcome js_account_for_hash j = Ret a)
     \<longleftrightarrow> map_option account_of m = map_option Some a"
proof -
  have "(\<exists>j. opt_outcome de_account m = Ret j \<and> opt_outcome js_account_for_hash j = Ret a)
      \<longleftrightarrow> opt_outcome (\<lambda>r. obind (de_account r) js_account_for_hash) m = Ret a"
    by (simp add: opt_outcome_comp [symmetric] obind_eq_Ret)
  also have "\<dots> \<longleftrightarrow> map_option account_of m = map_option Some a"
    by (cases m; cases a) (auto simp: opt_outcome_Ret convert_account)
  finally show ?thesis .
qed

lemma convert_transition:
  "(\<exists>j. de_transition t = Ret j \<and> hash_transition (jt_old j, jt_new j) = Ret x) \<longleftrightarrow> sees t x"
proof -
  have "(\<exists>j. de_transition t = Ret j \<and> hash_transition (jt_old j, jt_new j) = Ret x) \<longleftrightarrow>
      (\<exists>j. opt_outcome de_account (fst t) = Ret j \<and> opt_outcome js_account_for_hash j = Ret (t_old x))
      \<and> (\<exists>j. opt_outcome de_account (snd t) = Ret j \<and> opt_outcome js_account_for_hash j = Ret (t_new x))"
    by (fastforce simp: de_transition_def hash_transition_def obind_eq_Ret)
  then show ?thesis by (simp add: convert_option sees_def)
qed

lemma omap_list_all2: "omap f xs = Ret ys \<longleftrightarrow> list_all2 (\<lambda>x y. f x = Ret y) xs ys"
  by (auto simp: omap_eq_Ret list_all2_conv_all_nth)

lemma convert_transitions:
  "(\<exists>js. omap de_transition raws = Ret js \<and> omap hash_transition (map (\<lambda>t. (jt_old t, jt_new t)) js) = Ret ts)
     \<longleftrightarrow> list_all2 sees raws ts"
proof -
  have "(\<lambda>t j. de_transition t = Ret j) OO (\<lambda>j x. hash_transition (jt_old j, jt_new j) = Ret x) = sees"
    by (intro ext) (simp add: relcompp_apply convert_transition)
  then show ?thesis
    by (simp add: omap_list_all2 list_all2_map1 relcompp_apply [symmetric] list.rel_compp [symmetric])
qed

lemma map_fail_Ret: "map_fail g m = Ret x \<longleftrightarrow> m = Ret x"
  by (cases m) auto

lemma account_of_wf: "account_of r = Some a \<Longrightarrow> account_wf a"
  by (auto simp: account_of_def account_wf_def split: if_splits)

lemma sees_option_wf: "map_option account_of m = map_option Some a \<Longrightarrow> x \<in> set_option a \<Longrightarrow> account_wf x"
  by (cases m; cases a) (auto intro: account_of_wf)

lemma sees_wf: "sees t x \<Longrightarrow> m \<in> set_option (t_old x) \<union> set_option (t_new x) \<Longrightarrow> account_wf m"
  unfolding sees_def by (blast intro: sees_option_wf)

lemma sees_all_wf:
  "list_all2 sees raws ts \<Longrightarrow> x \<in> set ts \<Longrightarrow> m \<in> set_option (t_old x) \<union> set_option (t_new x) \<Longrightarrow> account_wf m"
  by (induction rule: list_all2_induct) (use sees_wf in auto)

lemma de_transitions_Ret:
  "de_transitions api v = Ret ts \<longleftrightarrow> (\<exists>raws. from_transitions api v = Ret raws \<and> omap de_transition raws = Ret ts)"
  by (auto simp: de_transitions_def obind_eq_Ret split: outcome.split)

section \<open>Properties\<close>

text \<open>
  C21: The JavaScript entry point answers null exactly when both arguments parse, every account has
  64-bit lamports (as a number or a decimal string), a 32-byte owner and a 32-byte key, no transition
  is empty, and the limbs of the attested delta are those of the sum of the hash differences of these very accounts. All
  accounts that reach the hash are well formed.
\<close>

theorem verify_js_decides:
  "verify_slot_delta_js api xof b3 a t = Ret () \<longleftrightarrow>
     (\<exists>att raws ts. from_attestation api a = Ret att \<and> from_transitions api t = Ret raws
        \<and> list_all2 sees raws ts \<and> \<not> (\<exists>x \<in> set ts. t_old x = None \<and> t_new x = None)
        \<and> (\<forall>x \<in> set ts. \<forall>m \<in> set_option (t_old x) \<union> set_option (t_new x). account_wf m)
        \<and> att_delta_lthash att = limbs (transitions_delta xof ts))"
proof -
  have "verify_slot_delta_js api xof b3 a t = Ret () \<longleftrightarrow>
      (\<exists>att raws ts. from_attestation api a = Ret att \<and> from_transitions api t = Ret raws
        \<and> list_all2 sees raws ts \<and> verify_slot_delta xof b3 att ts = Ret ())"
    unfolding convert_transitions [symmetric]
    by (auto simp: verify_slot_delta_js_def obind_eq_Ret map_fail_Ret Let_def de_transitions_Ret)
  also have "\<dots> \<longleftrightarrow> (\<exists>att raws ts. from_attestation api a = Ret att \<and> from_transitions api t = Ret raws
        \<and> list_all2 sees raws ts \<and> \<not> (\<exists>x \<in> set ts. t_old x = None \<and> t_new x = None)
        \<and> (\<forall>x \<in> set ts. \<forall>m \<in> set_option (t_old x) \<union> set_option (t_new x). account_wf m)
        \<and> att_delta_lthash att = limbs (transitions_delta xof ts))"
    using sees_all_wf by (intro ex_cong1) (auto simp: verify_Ret_iff list_ex_iff empty_transition_def delta_as_lthash_Some)
  finally show ?thesis .
qed

theorem verify_js_decides_witness:
  "verify_slot_delta_js
     \<lparr>from_attestation = (\<lambda>_. Ret \<lparr>att_slot = 1, att_fec_set_index = 0, att_leader_pubkey = [],
        att_fec_merkle_root = [], att_leader_sig = [], att_delta_lthash = limbs 0\<rparr>),
      from_transitions = (\<lambda>_. Ret [(Some \<lparr>rj_lamports = String ''70'', rj_data = [1], rj_executable = False,
          rj_owner = replicate 32 1, rj_pubkey = replicate 32 2\<rparr>,
        Some \<lparr>rj_lamports = Number (Some 70), rj_data = [1], rj_executable = False,
          rj_owner = replicate 32 1, rj_pubkey = replicate 32 2\<rparr>)]),
      hex_encode = (\<lambda>_. [])\<rparr> (\<lambda>m n. replicate n 0) (\<lambda>m. []) () () = Ret ()"
proof -
  let ?a = "\<lparr>lamports = 70, data = [1], executable = False, owner = replicate 32 1, pubkey = replicate 32 2\<rparr>"
  have "parse_u64 ''70'' = Some 70"
    by (simp add: parse_u64_def char_digit_def)
  then show ?thesis
    unfolding verify_js_decides
    by (intro exI [of _ "[\<lparr>t_old = Some ?a, t_new = Some ?a\<rparr>]"] exI conjI)
      (auto simp: sees_def account_of_def lamports_of_def account_wf_def transition_delta_def
        delta_as_lthash_Some)
qed

end
