(* ===== verification/Liq_Ix.thy ===== *)
theory Liq_Ix
  imports Rust_Prelude Rust_BTree
begin

text \<open>
  The liquidator's market cache (\<open>crates/liquidator/src/markets.rs\<close>) and instruction builder
  (\<open>crates/liquidator/src/ix.rs\<close>). Public keys are any linearly ordered type \<open>'pk\<close>. The Solana SDK and
  drift-rs are parameters: program-derived addresses, \<open>AccountMeta\<close>'s constructors, the RPC account
  fetch and the account decoders.
\<close>

section \<open>The Solana SDK\<close>

record 'pk account_meta =
  am_pubkey :: 'pk
  am_is_signer :: bool
  am_is_writable :: bool

record 'pk sdk_api =
  find_pda :: "bytes list \<Rightarrow> 'pk" \<comment> \<open>\<open>Pubkey::find_program_address(seeds, &PROGRAM_ID).0\<close>\<close>
  program_id :: 'pk
  key_bytes :: "'pk \<Rightarrow> bytes"
  meta_new :: "'pk \<Rightarrow> bool \<Rightarrow> 'pk account_meta"
  meta_new_readonly :: "'pk \<Rightarrow> bool \<Rightarrow> 'pk account_meta"

section \<open>The market cache\<close>

record 'pk market_info =
  mi_pubkey :: 'pk
  mi_oracle :: 'pk

record 'pk markets =
  mk_perps :: "u16 \<rightharpoonup> 'pk market_info"
  mk_spots :: "u16 \<rightharpoonup> 'pk market_info"

text \<open>What the code reads of a decoded \<open>PerpMarket\<close> or \<open>SpotMarket\<close>.\<close>

record 'pk market_account =
  ma_index :: u16
  ma_oracle :: 'pk

definition perp :: "'pk markets \<Rightarrow> u16 \<Rightarrow> ('e, 'pk market_info) outcome" where
  "perp m i = unwrap (mk_perps m i)"

definition spot :: "'pk markets \<Rightarrow> u16 \<Rightarrow> ('e, 'pk market_info) outcome" where
  "spot m i = unwrap (mk_spots m i)"

definition derive_pda :: "'pk sdk_api \<Rightarrow> bytes \<Rightarrow> u16 \<Rightarrow> 'pk" where
  "derive_pda sdk seed i = find_pda sdk [seed, to_le_bytes i]"

text \<open>
  \<open>scan_markets\<close>: \<open>get_account\<close> answers \<open>None\<close> for every RPC error. \<open>decode\<close> is \<open>T::try_deserialize\<close>, of
  drift-rs: it may panic, and nothing here checks the size of the account or catches the panic. The
  error is the index whose account did not decode.
\<close>

type_synonym 'm market_decoder = "bytes \<Rightarrow> (unit, 'm) outcome"

fun scan_loop ::
  "('pk \<Rightarrow> bytes option) \<Rightarrow> 'm market_decoder \<Rightarrow> ('m \<Rightarrow> 'pk market_info) \<Rightarrow> (u16 \<Rightarrow> 'pk) \<Rightarrow> nat list
     \<Rightarrow> (u16 \<rightharpoonup> 'pk market_info) \<Rightarrow> (nat, u16 \<rightharpoonup> 'pk market_info) outcome" where
  "scan_loop get_account decode extract pda [] out = Ret out"
| "scan_loop get_account decode extract pda (i # is) out =
     (case get_account (pda (word_of_nat i)) of
        None \<Rightarrow> Ret out
      | Some data \<Rightarrow>
          (case decode data of
             Fail _ \<Rightarrow> Fail i
           | Panic \<Rightarrow> Panic
           | Ret market \<Rightarrow>
               scan_loop get_account decode extract pda is (out(word_of_nat i \<mapsto> extract market))))"

definition scan_markets ::
  "'pk sdk_api \<Rightarrow> ('pk \<Rightarrow> bytes option) \<Rightarrow> 'm market_decoder \<Rightarrow> bytes \<Rightarrow> nat \<Rightarrow> ('m \<Rightarrow> 'pk market_info)
     \<Rightarrow> (nat, u16 \<rightharpoonup> 'pk market_info) outcome" where
  "scan_markets sdk get_account decode seed n extract =
     scan_loop get_account decode extract (derive_pda sdk seed) [0..<n] Map.empty"

datatype load_error = ScanPerpMarkets nat | ScanSpotMarkets nat

definition perp_seed :: bytes where "perp_seed = map of_char ''perp_market''"
definition spot_seed :: bytes where "spot_seed = map of_char ''spot_market''"

definition load ::
  "'pk sdk_api \<Rightarrow> ('pk \<Rightarrow> bytes option) \<Rightarrow> 'pk market_account market_decoder
     \<Rightarrow> 'pk market_account market_decoder \<Rightarrow> (load_error, 'pk markets) outcome" where
  "load sdk get_account decode_perp decode_spot =
     (let extract = (\<lambda>seed m. \<lparr>mi_pubkey = derive_pda sdk seed (ma_index m), mi_oracle = ma_oracle m\<rparr>)
      in
      obind (map_fail ScanPerpMarkets
               (scan_markets sdk get_account decode_perp perp_seed 64 (extract perp_seed))) (\<lambda>perps.
      obind (map_fail ScanSpotMarkets
               (scan_markets sdk get_account decode_spot spot_seed 64 (extract spot_seed))) (\<lambda>spots.
        Ret \<lparr>mk_perps = perps, mk_spots = spots\<rparr>)))"

section \<open>Remaining accounts\<close>

datatype 'pk remaining_account = Oracle 'pk | Spot 'pk bool | Perp 'pk bool

fun discriminant :: "'pk remaining_account \<Rightarrow> byte" where
  "discriminant (Oracle _) = 0"
| "discriminant (Spot _ _) = 1"
| "discriminant (Perp _ _) = 2"

fun ra_pubkey :: "'pk remaining_account \<Rightarrow> 'pk" where
  "ra_pubkey (Oracle k) = k"
| "ra_pubkey (Spot k _) = k"
| "ra_pubkey (Perp k _) = k"

fun into_meta :: "'pk remaining_account \<Rightarrow> 'pk account_meta" where
  "into_meta (Oracle k) = \<lparr>am_pubkey = k, am_is_signer = False, am_is_writable = False\<rparr>"
| "into_meta (Spot k w) = \<lparr>am_pubkey = k, am_is_signer = False, am_is_writable = w\<rparr>"
| "into_meta (Perp k w) = \<lparr>am_pubkey = k, am_is_signer = False, am_is_writable = w\<rparr>"

definition ra_eq :: "'pk remaining_account \<Rightarrow> 'pk remaining_account \<Rightarrow> bool" where
  "ra_eq a b \<longleftrightarrow> discriminant a = discriminant b \<and> ra_pubkey a = ra_pubkey b"

definition ra_cmp :: "'pk::linorder remaining_account \<Rightarrow> 'pk remaining_account \<Rightarrow> ordering" where
  "ra_cmp a b =
     (case prim_cmp (discriminant a) (discriminant b) of
        Equal \<Rightarrow> prim_cmp (ra_pubkey a) (ra_pubkey b)
      | ord \<Rightarrow> ord)"

lemma ra_cmp_Equal: "ra_cmp a b = Equal \<longleftrightarrow> ra_eq a b"
  by (auto simp: ra_cmp_def ra_eq_def split: ordering.splits)

lemma ra_cmp_Less:
  "ra_cmp a b = Less \<longleftrightarrow> discriminant a < discriminant b
     \<or> discriminant a = discriminant b \<and> ra_pubkey a < ra_pubkey b"
  by (auto simp: ra_cmp_def split: ordering.splits)

lemma ra_cmp_Greater:
  "ra_cmp a b = Greater \<longleftrightarrow> discriminant b < discriminant a
     \<or> discriminant a = discriminant b \<and> ra_pubkey b < ra_pubkey a"
  by (auto simp: ra_cmp_def split: ordering.splits)

interpretation ra: rust_ord "ra_cmp :: 'pk::linorder remaining_account \<Rightarrow> _"
proof
  fix a b c :: "'pk remaining_account"
  show "ra_cmp a a = Equal" by (simp add: ra_cmp_Equal ra_eq_def)
  show "ra_cmp a b = Less \<longleftrightarrow> ra_cmp b a = Greater" by (auto simp: ra_cmp_Less ra_cmp_Greater)
  show "ra_cmp a b = Less \<Longrightarrow> ra_cmp b c = Less \<Longrightarrow> ra_cmp a c = Less" by (auto simp: ra_cmp_Less)
  show "ra_cmp a b = Equal \<Longrightarrow> ra_cmp a c = ra_cmp b c"
    by (simp only: ra_cmp_Equal ra_eq_def) (auto simp: ra_cmp_def split: ordering.splits)
qed


section \<open>The instruction\<close>

text \<open>What the code reads of a drift-rs \<open>User\<close>; \<open>pos_available\<close> is the answer of \<open>is_available()\<close>.\<close>

record position =
  pos_index :: u16
  pos_available :: bool

record 'pk user =
  u_authority :: 'pk
  u_spots :: "position list"
  u_perps :: "position list"

record 'pk instruction =
  ix_program_id :: 'pk
  ix_accounts :: "'pk account_meta list"
  ix_data :: bytes

definition LIQUIDATE_PERP_DISCRIMINATOR :: bytes where
  "LIQUIDATE_PERP_DISCRIMINATOR = [75, 35, 119, 247, 191, 18, 139, 2]"

definition state_pda :: "'pk sdk_api \<Rightarrow> 'pk" where
  "state_pda sdk = find_pda sdk [map of_char ''drift_state'']"

definition user_stats_pda :: "'pk sdk_api \<Rightarrow> 'pk \<Rightarrow> 'pk" where
  "user_stats_pda sdk authority = find_pda sdk [map of_char ''user_stats'', key_bytes sdk authority]"

definition user_pda :: "'pk sdk_api \<Rightarrow> 'pk \<Rightarrow> u16 \<Rightarrow> 'pk" where
  "user_pda sdk authority sub_account_id =
     find_pda sdk [map of_char ''user'', key_bytes sdk authority, to_le_bytes sub_account_id]"

type_synonym 'pk accounts = "'pk remaining_account list"

definition insert_spot ::
  "'pk::linorder markets \<Rightarrow> u16 \<Rightarrow> 'pk accounts \<Rightarrow> (unit, 'pk accounts) outcome" where
  "insert_spot m i ra =
     obind (spot m i) (\<lambda>sm.
       Ret (bt_insert ra_cmp (Oracle (mi_oracle sm)) (bt_insert ra_cmp (Spot (mi_pubkey sm) False) ra)))"

definition insert_perp ::
  "'pk::linorder markets \<Rightarrow> bool \<Rightarrow> u16 \<Rightarrow> 'pk accounts \<Rightarrow> (unit, 'pk accounts) outcome" where
  "insert_perp m writable i ra =
     obind (perp m i) (\<lambda>pm.
       Ret (bt_insert ra_cmp (Oracle (mi_oracle pm)) (bt_insert ra_cmp (Perp (mi_pubkey pm) writable) ra)))"

definition active :: "position list \<Rightarrow> u16 list" where
  "active ps = map pos_index (filter (\<lambda>p. \<not> pos_available p) ps)"

definition insert_user ::
  "'pk::linorder markets \<Rightarrow> 'pk user \<Rightarrow> 'pk accounts \<Rightarrow> (unit, 'pk accounts) outcome" where
  "insert_user m u ra =
     obind (ofold (insert_spot m) (active (u_spots u)) ra)
       (ofold (insert_perp m False) (active (u_perps u)))"

definition remaining_accounts ::
  "'pk::linorder markets \<Rightarrow> 'pk user \<Rightarrow> 'pk user \<Rightarrow> u16 \<Rightarrow> (unit, 'pk accounts) outcome" where
  "remaining_accounts m liquidator liquidatee market_index =
     obind (insert_perp m True market_index []) (\<lambda>ra.
     obind (ofold (insert_user m) [liquidator, liquidatee] ra)
       (insert_spot m 0))"

definition encode_ix :: "u16 \<Rightarrow> u64 \<Rightarrow> u64 option \<Rightarrow> bytes" where
  "encode_ix market_index max_base limit_price =
     LIQUIDATE_PERP_DISCRIMINATOR @ to_le_bytes market_index @ to_le_bytes max_base
     @ (case limit_price of None \<Rightarrow> [0] | Some p \<Rightarrow> 1 # to_le_bytes p)"

definition build_liquidate_perp_ix ::
  "'pk::linorder sdk_api \<Rightarrow> 'pk \<Rightarrow> 'pk \<Rightarrow> 'pk user \<Rightarrow> 'pk \<Rightarrow> 'pk user \<Rightarrow> u16 \<Rightarrow> u64 \<Rightarrow> u64 option
     \<Rightarrow> 'pk markets \<Rightarrow> (unit, 'pk instruction) outcome" where
  "build_liquidate_perp_ix sdk liquidator_authority liquidator_user liquidator_data
       liquidatee_user liquidatee_data market_index max_base limit_price m =
     (let metas =
        [meta_new_readonly sdk (state_pda sdk) False,
         meta_new_readonly sdk liquidator_authority True,
         meta_new sdk liquidator_user False,
         meta_new sdk (user_stats_pda sdk liquidator_authority) False,
         meta_new sdk liquidatee_user False,
         meta_new sdk (user_stats_pda sdk (u_authority liquidatee_data)) False]
      in
      obind (remaining_accounts m liquidator_data liquidatee_data market_index) (\<lambda>ra.
        Ret \<lparr>ix_program_id = program_id sdk, ix_accounts = metas @ map into_meta ra,
             ix_data = encode_ix market_index max_base limit_price\<rparr>))"

section \<open>The account set, as one list of insertions\<close>

definition spot_pair :: "'pk market_info \<Rightarrow> 'pk accounts" where
  "spot_pair sm = [Spot (mi_pubkey sm) False, Oracle (mi_oracle sm)]"

definition perp_pair :: "bool \<Rightarrow> 'pk market_info \<Rightarrow> 'pk accounts" where
  "perp_pair w pm = [Perp (mi_pubkey pm) w, Oracle (mi_oracle pm)]"

text \<open>The markets the instruction needs, beside the target: in the order of insertion.\<close>

definition needed_spots :: "'pk user \<Rightarrow> 'pk user \<Rightarrow> u16 set" where
  "needed_spots a b = insert 0 (set (active (u_spots a)) \<union> set (active (u_spots b)))"

definition needed_perps :: "'pk user \<Rightarrow> 'pk user \<Rightarrow> u16 \<Rightarrow> u16 set" where
  "needed_perps a b i = insert i (set (active (u_perps a)) \<union> set (active (u_perps b)))"

definition all_cached :: "'pk markets \<Rightarrow> u16 set \<Rightarrow> u16 set \<Rightarrow> bool" where
  "all_cached m ss ps \<longleftrightarrow> ss \<subseteq> dom (mk_spots m) \<and> ps \<subseteq> dom (mk_perps m)"

text \<open>A loop that looks each index up, panics on a miss, and inserts what the entry gives.\<close>

lemma lookup_insert_loop:
  assumes "\<And>i ra. f i ra = (case lk i of None \<Rightarrow> Panic | Some x \<Rightarrow> Ret (bt_insert_all cmp (g x) ra))"
  shows "ofold f is ra =
     (if set is \<subseteq> dom lk then Ret (bt_insert_all cmp (concat (map (\<lambda>i. g (the (lk i))) is)) ra)
      else Panic)"
proof (induction "is" arbitrary: ra)
  case (Cons i "is")
  show ?case
    using Cons.IH by (cases "lk i") (auto simp: assms [of i ra] bt_insert_all_def domIff)
qed (simp add: bt_insert_all_def)

lemma insert_spot_eq:
  "insert_spot m i ra =
     (case mk_spots m i of None \<Rightarrow> Panic | Some sm \<Rightarrow> Ret (bt_insert_all ra_cmp (spot_pair sm) ra))"
  by (simp add: insert_spot_def spot_def spot_pair_def split: option.splits)

lemma insert_perp_eq:
  "insert_perp m w i ra =
     (case mk_perps m i of None \<Rightarrow> Panic | Some pm \<Rightarrow> Ret (bt_insert_all ra_cmp (perp_pair w pm) ra))"
  by (simp add: insert_perp_def perp_def perp_pair_def split: option.splits)

lemmas insert_loops =
  lookup_insert_loop [where f = "insert_spot m" and lk = "mk_spots m" and g = spot_pair for m, OF insert_spot_eq]
  lookup_insert_loop [where f = "insert_perp m w" and lk = "mk_perps m" and g = "perp_pair w" for m w,
    OF insert_perp_eq]

text \<open>The insertions of one user, and of the whole instruction.\<close>

definition user_inserts :: "'pk markets \<Rightarrow> 'pk user \<Rightarrow> 'pk accounts" where
  "user_inserts m u =
     concat (map (\<lambda>i. spot_pair (the (mk_spots m i))) (active (u_spots u)))
     @ concat (map (\<lambda>i. perp_pair False (the (mk_perps m i))) (active (u_perps u)))"

definition all_inserts :: "'pk markets \<Rightarrow> 'pk user \<Rightarrow> 'pk user \<Rightarrow> u16 \<Rightarrow> 'pk accounts" where
  "all_inserts m a b i =
     perp_pair True (the (mk_perps m i)) @ user_inserts m a @ user_inserts m b
     @ spot_pair (the (mk_spots m 0))"

lemma insert_user_eq:
  "insert_user m u ra =
     (if all_cached m (set (active (u_spots u))) (set (active (u_perps u)))
      then Ret (bt_insert_all ra_cmp (user_inserts m u) ra) else Panic)"
  by (simp add: insert_user_def insert_loops all_cached_def user_inserts_def ra.insert_all_append)

lemma remaining_accounts_eq:
  "remaining_accounts m a b i =
     (if all_cached m (needed_spots a b) (needed_perps a b i)
      then Ret (bt_insert_all ra_cmp (all_inserts m a b i) []) else Panic)"
proof (cases "mk_perps m i")
  case None
  then show ?thesis
    by (auto simp: remaining_accounts_def insert_perp_eq all_cached_def needed_perps_def)
next
  case (Some pm)
  show ?thesis
    by (cases "mk_spots m 0")
      (auto simp: remaining_accounts_def insert_perp_eq insert_spot_eq insert_user_eq all_cached_def
        needed_perps_def needed_spots_def all_inserts_def ra.insert_all_append Some)
qed


lemma build_ix_eq:
  "build_liquidate_perp_ix sdk auth lu ld tu td i mx lp m =
     (if all_cached m (needed_spots ld td) (needed_perps ld td i)
      then Ret \<lparr>ix_program_id = program_id sdk,
                ix_accounts =
                  [meta_new_readonly sdk (state_pda sdk) False, meta_new_readonly sdk auth True,
                   meta_new sdk lu False, meta_new sdk (user_stats_pda sdk auth) False,
                   meta_new sdk tu False, meta_new sdk (user_stats_pda sdk (u_authority td)) False]
                  @ map into_meta (bt_insert_all ra_cmp (all_inserts m ld td i) []),
                ix_data = encode_ix i mx lp\<rparr>
      else Panic)"
  by (simp add: build_liquidate_perp_ix_def remaining_accounts_eq)

section \<open>The account set: its members\<close>

definition spot_of :: "'pk markets \<Rightarrow> u16 \<Rightarrow> 'pk market_info" where
  "spot_of m i = the (mk_spots m i)"

definition perp_of :: "'pk markets \<Rightarrow> u16 \<Rightarrow> 'pk market_info" where
  "perp_of m i = the (mk_perps m i)"

lemma all_inserts_members:
  "set (all_inserts m a b i) =
     {Perp (mi_pubkey (perp_of m i)) True}
     \<union> (\<lambda>j. Perp (mi_pubkey (perp_of m j)) False) ` (set (active (u_perps a)) \<union> set (active (u_perps b)))
     \<union> (\<lambda>j. Spot (mi_pubkey (spot_of m j)) False) ` needed_spots a b
     \<union> (\<lambda>j. Oracle (mi_oracle (perp_of m j))) ` needed_perps a b i
     \<union> (\<lambda>j. Oracle (mi_oracle (spot_of m j))) ` needed_spots a b"
  by (auto simp: all_inserts_def user_inserts_def spot_pair_def perp_pair_def spot_of_def perp_of_def
      needed_spots_def needed_perps_def)

definition account_set :: "'pk::linorder markets \<Rightarrow> 'pk user \<Rightarrow> 'pk user \<Rightarrow> u16 \<Rightarrow> 'pk accounts" where
  "account_set m a b i = bt_insert_all ra_cmp (all_inserts m a b i) []"

lemma account_set_ordered: "bt_ordered ra_cmp (account_set m a b i)"
  unfolding account_set_def by (rule ra.insert_all_ordered) (simp add: bt_ordered_def)

lemma account_set_members: "set (account_set m a b i) \<subseteq> set (all_inserts m a b i)"
  using ra.insert_all_members [of "all_inserts m a b i" "[]"] by (simp add: account_set_def)

lemma account_set_has:
  "x \<in> set (all_inserts m a b i) \<Longrightarrow> \<exists>y \<in> set (account_set m a b i). ra_eq x y"
  using ra.contains_insert_all [of x "all_inserts m a b i" "[]"]
  unfolding account_set_def ra.contains_iff by (auto simp: ra_cmp_Equal ra_eq_def)

lemma account_set_unique:
  "x \<in> set (account_set m a b i) \<Longrightarrow> y \<in> set (account_set m a b i) \<Longrightarrow> ra_eq x y \<Longrightarrow> x = y"
  using ra.ordered_unique [OF account_set_ordered] by (simp add: ra_cmp_Equal)

lemma target_in_set: "Perp (mi_pubkey (perp_of m i)) True \<in> set (account_set m a b i)"
proof -
  have "\<exists>xs. all_inserts m a b i = Perp (mi_pubkey (perp_of m i)) True # xs"
    by (simp add: all_inserts_def perp_pair_def perp_of_def)
  then obtain xs where "all_inserts m a b i = Perp (mi_pubkey (perp_of m i)) True # xs" by blast
  then show ?thesis
    unfolding account_set_def
    using ra.first_insert_wins [of "Perp (mi_pubkey (perp_of m i)) True" "[]" xs]
    by (simp add: bt_contains_def)
qed

lemma ra_eq_cases:
  "ra_eq (Oracle k) y \<longleftrightarrow> y = Oracle k"
  "ra_eq (Spot k w) y \<longleftrightarrow> (\<exists>w'. y = Spot k w')"
  "ra_eq (Perp k w) y \<longleftrightarrow> (\<exists>w'. y = Perp k w')"
  by (cases y; auto simp: ra_eq_def)+

lemma oracle_in_set:
  "Oracle k \<in> set (account_set m a b i) \<longleftrightarrow>
     k \<in> (\<lambda>j. mi_oracle (perp_of m j)) ` needed_perps a b i \<union> (\<lambda>j. mi_oracle (spot_of m j)) ` needed_spots a b"
proof -
  have "Oracle k \<in> set (account_set m a b i) \<longleftrightarrow> Oracle k \<in> set (all_inserts m a b i)"
    using account_set_members [of m a b i] account_set_has [of "Oracle k" m a b i]
    by (auto simp: ra_eq_cases)
  then show ?thesis by (auto simp: all_inserts_members)
qed

lemma spot_in_set:
  "Spot k w \<in> set (account_set m a b i) \<longleftrightarrow> \<not> w \<and> k \<in> (\<lambda>j. mi_pubkey (spot_of m j)) ` needed_spots a b"
proof -
  have ro: "\<not> w'" if "Spot k w' \<in> set (account_set m a b i)" for w'
    using account_set_members [of m a b i] that by (auto simp: all_inserts_members)
  have "Spot k False \<in> set (account_set m a b i) \<longleftrightarrow> Spot k False \<in> set (all_inserts m a b i)"
    using account_set_members [of m a b i] account_set_has [of "Spot k False" m a b i] ro
    by (auto simp: ra_eq_cases) (metis (full_types))
  then have "Spot k False \<in> set (account_set m a b i)
      \<longleftrightarrow> k \<in> (\<lambda>j. mi_pubkey (spot_of m j)) ` needed_spots a b"
    by (auto simp: all_inserts_members)
  with ro show ?thesis by (cases w) auto
qed

lemma perp_in_set:
  "Perp k w \<in> set (account_set m a b i) \<longleftrightarrow>
     k \<in> (\<lambda>j. mi_pubkey (perp_of m j)) ` needed_perps a b i \<and> (w \<longleftrightarrow> k = mi_pubkey (perp_of m i))"
proof -
  let ?t = "mi_pubkey (perp_of m i)"
  have flag: "w' \<longleftrightarrow> k = ?t" if "Perp k w' \<in> set (account_set m a b i)" for w'
  proof (cases "k = ?t")
    case True
    with that target_in_set [of m i a b] account_set_unique [of "Perp k w'" m a b i "Perp ?t True"]
    show ?thesis by (simp add: ra_eq_def)
  next
    case False
    with that account_set_members [of m a b i] show ?thesis by (auto simp: all_inserts_members)
  qed
  have "(\<exists>w'. Perp k w' \<in> set (account_set m a b i)) \<longleftrightarrow> (\<exists>w'. Perp k w' \<in> set (all_inserts m a b i))"
    using account_set_members [of m a b i] account_set_has [of "Perp k _" m a b i]
    by (fastforce simp: ra_eq_cases)
  also have "\<dots> \<longleftrightarrow> k \<in> (\<lambda>j. mi_pubkey (perp_of m j)) ` needed_perps a b i"
    by (auto simp: all_inserts_members needed_perps_def)
  finally show ?thesis using flag by blast
qed


section \<open>The market scan\<close>

lemma word_index_inj: "i < 2 ^ 16 \<Longrightarrow> j < 2 ^ 16 \<Longrightarrow> (word_of_nat i :: u16) = word_of_nat j \<longleftrightarrow> i = j"
  by (auto simp: word_unat_eq_iff unat_of_nat)

text \<open>
  A scan panics exactly when the decoder panics on an account whose predecessors were all fetched and
  decoded. When all accounts before \<open>k\<close> decode, and \<open>k\<close> is the bound or its fetch fails, the result holds
  exactly the markets before \<open>k\<close>.
\<close>

definition scan_panics :: "('pk \<Rightarrow> bytes option) \<Rightarrow> 'm market_decoder \<Rightarrow> (u16 \<Rightarrow> 'pk) \<Rightarrow> nat \<Rightarrow> bool" where
  "scan_panics ga dec pda n \<longleftrightarrow>
     (\<exists>k < n. (\<forall>i < k. \<exists>d x. ga (pda (word_of_nat i)) = Some d \<and> dec d = Ret x)
        \<and> (\<exists>d. ga (pda (word_of_nat k)) = Some d \<and> dec d = Panic))"

lemma first_step:
  "(\<exists>k. i \<le> k \<and> k < n \<and> (\<forall>j. i \<le> j \<and> j < k \<longrightarrow> P j) \<and> Q k)
     \<longleftrightarrow> i < n \<and> (Q i \<or> P i \<and> (\<exists>k. Suc i \<le> k \<and> k < n \<and> (\<forall>j. Suc i \<le> j \<and> j < k \<longrightarrow> P j) \<and> Q k))"
  (is "(\<exists>k. ?R i k) \<longleftrightarrow> _")
proof
  assume "\<exists>k. ?R i k"
  then obtain k where "?R i k" by blast
  then show "i < n \<and> (Q i \<or> P i \<and> (\<exists>k. ?R (Suc i) k))"
    by (cases "k = i") (auto intro!: exI [of _ k])
next
  assume "i < n \<and> (Q i \<or> P i \<and> (\<exists>k. ?R (Suc i) k))"
  then consider "i < n" "Q i" | k where "P i" "?R (Suc i) k" by blast
  then show "\<exists>k. ?R i k"
  proof cases
    case (2 k)
    then have "P j" if "i \<le> j" "j < k" for j using that by (cases "j = i") auto
    with 2 show ?thesis by (intro exI [of _ k]) auto
  qed (auto intro: exI [of _ i])
qed

lemma scan_loop_panics:
  "scan_loop ga dec ext pda [i..<n] out = Panic \<longleftrightarrow>
     (\<exists>k. i \<le> k \<and> k < n \<and> (\<forall>j. i \<le> j \<and> j < k \<longrightarrow> (\<exists>d x. ga (pda (word_of_nat j)) = Some d \<and> dec d = Ret x))
        \<and> (\<exists>d. ga (pda (word_of_nat k)) = Some d \<and> dec d = Panic))" (is "_ \<longleftrightarrow> ?R i")
proof (induction "n - i" arbitrary: i out)
  case (Suc d)
  then have upt: "[i..<n] = i # [Suc i..<n]" and "i < n" by (simp_all add: upt_conv_Cons)
  have IH: "scan_loop ga dec ext pda [Suc i..<n] out' = Panic \<longleftrightarrow> ?R (Suc i)" for out'
    using Suc.hyps(1) [of "Suc i"] Suc.hyps(2) by simp
  have "scan_loop ga dec ext pda [i..<n] out = Panic \<longleftrightarrow>
      (\<exists>d. ga (pda (word_of_nat i)) = Some d \<and> dec d = Panic)
      \<or> (\<exists>d x. ga (pda (word_of_nat i)) = Some d \<and> dec d = Ret x) \<and> ?R (Suc i)"
    unfolding upt scan_loop.simps IH [symmetric]
    by (cases "ga (pda (word_of_nat i))", simp, rename_tac d, case_tac "dec d") (simp_all add: IH)
  with \<open>i < n\<close> show ?case unfolding first_step [of i n] by blast
qed auto

lemma scan_markets_panics:
  "scan_markets sdk ga dec seed n ext = Panic \<longleftrightarrow> scan_panics ga dec (derive_pda sdk seed) n"
  by (simp add: scan_markets_def scan_loop_panics scan_panics_def)

text \<open>A scan returns exactly when all accounts before the bound or the first failed fetch decode.\<close>

definition scan_returns :: "('pk \<Rightarrow> bytes option) \<Rightarrow> 'm market_decoder \<Rightarrow> (u16 \<Rightarrow> 'pk) \<Rightarrow> nat \<Rightarrow> bool" where
  "scan_returns ga dec pda n \<longleftrightarrow>
     (\<exists>k \<le> n. (\<forall>i < k. \<exists>d x. ga (pda (word_of_nat i)) = Some d \<and> dec d = Ret x)
        \<and> (k = n \<or> ga (pda (word_of_nat k)) = None))"

lemma scan_loop_returns:
  assumes "i \<le> n"
  shows "(\<exists>out'. scan_loop ga dec ext pda [i..<n] out = Ret out') \<longleftrightarrow>
     (\<exists>k. i \<le> k \<and> k < Suc n \<and> (\<forall>j. i \<le> j \<and> j < k \<longrightarrow> (\<exists>d x. ga (pda (word_of_nat j)) = Some d \<and> dec d = Ret x))
        \<and> (k = n \<or> ga (pda (word_of_nat k)) = None))" (is "_ \<longleftrightarrow> ?R i")
  using assms
proof (induction "n - i" arbitrary: i out)
  case (Suc d)
  then have upt: "[i..<n] = i # [Suc i..<n]" and "i < n" by (simp_all add: upt_conv_Cons)
  have IH: "(\<exists>r. scan_loop ga dec ext pda [Suc i..<n] out' = Ret r) \<longleftrightarrow> ?R (Suc i)" for out'
    using Suc.hyps(1) [of "Suc i"] Suc.hyps(2) \<open>i < n\<close> by simp
  have "(\<exists>r. scan_loop ga dec ext pda [i..<n] out = Ret r) \<longleftrightarrow>
      ga (pda (word_of_nat i)) = None
      \<or> (\<exists>d x. ga (pda (word_of_nat i)) = Some d \<and> dec d = Ret x) \<and> ?R (Suc i)"
    unfolding upt scan_loop.simps IH [symmetric]
    by (cases "ga (pda (word_of_nat i))", simp, rename_tac d, case_tac "dec d") (simp_all add: IH)
  with \<open>i < n\<close> show ?case unfolding first_step [of i "Suc n"] by auto
qed (simp add: first_step [of n "Suc n"])

lemma scan_markets_returns:
  "(\<exists>out. scan_markets sdk ga dec seed n ext = Ret out) \<longleftrightarrow> scan_returns ga dec (derive_pda sdk seed) n"
  by (simp add: scan_markets_def scan_loop_returns scan_returns_def less_Suc_eq_le Bex_def)

text \<open>Loading the markets panics exactly in one of its two scans.\<close>

definition load_panics ::
  "'pk sdk_api \<Rightarrow> ('pk \<Rightarrow> bytes option) \<Rightarrow> 'pk market_account market_decoder
     \<Rightarrow> 'pk market_account market_decoder \<Rightarrow> bool" where
  "load_panics sdk ga dp ds \<longleftrightarrow>
     scan_panics ga dp (derive_pda sdk perp_seed) 64
     \<or> scan_returns ga dp (derive_pda sdk perp_seed) 64 \<and> scan_panics ga ds (derive_pda sdk spot_seed) 64"

lemma map_fail_Panic: "map_fail g m = Panic \<longleftrightarrow> m = Panic"
  by (cases m) auto

lemma map_fail_Ret_iff: "map_fail g m = Ret x \<longleftrightarrow> m = Ret x"
  by (cases m) auto

lemma load_Panic: "load sdk ga dp ds = Panic \<longleftrightarrow> load_panics sdk ga dp ds"
  using scan_markets_returns [of sdk ga dp perp_seed 64
      "\<lambda>x. \<lparr>mi_pubkey = derive_pda sdk perp_seed (ma_index x), mi_oracle = ma_oracle x\<rparr>"]
  by (auto simp: load_def Let_def obind_eq_Panic map_fail_Panic map_fail_Ret_iff scan_markets_panics
      load_panics_def)

lemma scan_loop_Ret:
  assumes "\<forall>j. i \<le> j \<and> j < k \<longrightarrow> (\<exists>d. ga (pda (word_of_nat j)) = Some d \<and> dec d = Ret (a j))"
    and "i \<le> k" and "k \<le> n" and "n \<le> 2 ^ 16" and "k < n \<Longrightarrow> ga (pda (word_of_nat k)) = None"
  shows "scan_loop ga dec ext pda [i..<n] out
    = Ret (\<lambda>w. if i \<le> unat w \<and> unat w < k then Some (ext (a (unat w))) else out w)"
  using assms(1,2)
proof (induction "k - i" arbitrary: i out)
  case 0
  then have "i = k" by simp
  with assms(3,5) show ?case by (cases "k < n") (auto simp: upt_conv_Cons fun_eq_iff)
next
  case (Suc d)
  then have upt: "[i..<n] = i # [Suc i..<n]" and i: "i < k" using assms(3) by (simp_all add: upt_conv_Cons)
  have unat: "unat (word_of_nat i :: u16) = i" using i assms(3,4) by (simp add: unat_of_nat)
  have "scan_loop ga dec ext pda [i..<n] out
      = scan_loop ga dec ext pda [Suc i..<n] (out(word_of_nat i \<mapsto> ext (a i)))"
    using Suc.prems(1) i upt by (auto dest!: spec [of _ i])
  also have "\<dots> = Ret (\<lambda>w. if Suc i \<le> unat w \<and> unat w < k then Some (ext (a (unat w)))
      else (out(word_of_nat i \<mapsto> ext (a i))) w)"
    using Suc.hyps(1) [of "Suc i"] Suc.hyps(2) Suc.prems(1) i by simp
  also have "\<dots> = Ret (\<lambda>w. if i \<le> unat w \<and> unat w < k then Some (ext (a (unat w))) else out w)"
    using i unat by (auto simp: fun_eq_iff word_unat_eq_iff)
  finally show ?case .
qed

text \<open>
  What one kind of market looks like to the scan: the accounts \<open>a\<close> of the markets before \<open>k\<close> are fetched
  and decode, and \<open>k\<close> is the bound or the first fetch that fails.
\<close>

definition listed_until ::
  "('pk \<Rightarrow> bytes option) \<Rightarrow> 'm market_decoder \<Rightarrow> (u16 \<Rightarrow> 'pk) \<Rightarrow> (nat \<Rightarrow> 'm) \<Rightarrow> nat \<Rightarrow> bool" where
  "listed_until ga dec pda a k \<longleftrightarrow>
     k \<le> 64 \<and> list_all (\<lambda>j. \<exists>d. ga (pda (word_of_nat j)) = Some d \<and> dec d = Ret (a j)) [0..<k]
     \<and> (k = 64 \<or> ga (pda (word_of_nat k)) = None)"

lemma scan_listed:
  assumes "listed_until ga dec (derive_pda sdk seed) a k"
  shows "scan_markets sdk ga dec seed 64 ext = Ret (\<lambda>w. if unat w < k then Some (ext (a (unat w))) else None)"
  using assms scan_loop_Ret [of 0 k ga "derive_pda sdk seed" dec a 64 ext Map.empty]
  by (auto simp: scan_markets_def listed_until_def list_all_iff simp del: upt_rec_numeral)

section \<open>A small instance, for the witnesses\<close>

definition toy_sdk :: "nat sdk_api" where
  "toy_sdk = \<lparr>find_pda = \<lambda>seeds. 100 * unat (hd (hd seeds)) + unat (hd (last seeds)), program_id = 7,
     key_bytes = \<lambda>k. [word_of_nat k],
     meta_new = \<lambda>k s. \<lparr>am_pubkey = k, am_is_signer = s, am_is_writable = True\<rparr>,
     meta_new_readonly = \<lambda>k s. \<lparr>am_pubkey = k, am_is_signer = s, am_is_writable = False\<rparr>\<rparr>"

definition toy_markets :: "nat markets" where
  "toy_markets = \<lparr>mk_perps = [0 \<mapsto> \<lparr>mi_pubkey = 40, mi_oracle = 9\<rparr>, 1 \<mapsto> \<lparr>mi_pubkey = 30, mi_oracle = 8\<rparr>],
     mk_spots = [0 \<mapsto> \<lparr>mi_pubkey = 20, mi_oracle = 9\<rparr>, 1 \<mapsto> \<lparr>mi_pubkey = 10, mi_oracle = 5\<rparr>]\<rparr>"

definition toy_user :: "nat user" where
  "toy_user = \<lparr>u_authority = 77, u_spots = [\<lparr>pos_index = 1, pos_available = False\<rparr>],
     u_perps = [\<lparr>pos_index = 0, pos_available = False\<rparr>, \<lparr>pos_index = 1, pos_available = False\<rparr>]\<rparr>"

lemma toy_accounts:
  "account_set toy_markets toy_user toy_user 1 = [Oracle 5, Oracle 8, Oracle 9, Spot 10 False, Spot 20 False, Perp 30 True, Perp 40 False]"
  by code_simp

lemma toy_cached: "all_cached toy_markets (needed_spots toy_user toy_user) (needed_perps toy_user toy_user 1)"
  by (simp add: all_cached_def needed_spots_def needed_perps_def active_def toy_user_def toy_markets_def)

definition toy_accounts_of :: "nat \<Rightarrow> bytes option" where
  "toy_accounts_of k = (if k = 11200 \<or> k = 11500 then Some [] else None)"

definition toy_decode :: "nat market_account market_decoder" where
  "toy_decode d = Ret \<lparr>ma_index = 0, ma_oracle = 3\<rparr>"

definition toy_loaded :: "nat markets" where
  "toy_loaded = \<lparr>mk_perps = [0 \<mapsto> \<lparr>mi_pubkey = 11200, mi_oracle = 3\<rparr>],
     mk_spots = [0 \<mapsto> \<lparr>mi_pubkey = 11500, mi_oracle = 3\<rparr>]\<rparr>"

lemma upt64: "[0..<64] = 0 # Suc 0 # [2..<64]" 
  by (simp add: upt_conv_Cons)

lemma le2: "le_bytes 2 n = [word_of_nat n, word_of_nat (n div 256)]"
  using le_bytes.simps(2) [of 1 n] le_bytes.simps(2) [of 0 "n div 256"] by (simp add: numeral_2_eq_2)

lemma toy_pdas:
  "derive_pda toy_sdk perp_seed 0 = 11200" "derive_pda toy_sdk perp_seed 1 = 11201"
  "derive_pda toy_sdk spot_seed 0 = 11500" "derive_pda toy_sdk spot_seed 1 = 11501"
  by (simp_all add: derive_pda_def toy_sdk_def perp_seed_def spot_seed_def to_le_bytes_def le2)

lemma toy_load: "load toy_sdk toy_accounts_of toy_decode toy_decode = Ret toy_loaded"
  by (simp add: load_def scan_markets_def upt64 toy_pdas toy_accounts_of_def toy_decode_def toy_loaded_def)


definition toy_ix :: "nat instruction" where
  "toy_ix =
     \<lparr>ix_program_id = 7,
      ix_accounts =
        [meta_new_readonly toy_sdk (state_pda toy_sdk) False, meta_new_readonly toy_sdk 1 True,
         meta_new toy_sdk 2 False, meta_new toy_sdk (user_stats_pda toy_sdk 1) False,
         meta_new toy_sdk 3 False, meta_new toy_sdk (user_stats_pda toy_sdk 77) False]
        @ map into_meta [Oracle 5, Oracle 8, Oracle 9, Spot 10 False, Spot 20 False, Perp 30 True, Perp 40 False],
      ix_data = encode_ix 1 0 None\<rparr>"

lemma toy_build: "build_liquidate_perp_ix toy_sdk 1 2 toy_user 3 toy_user 1 0 None toy_markets = Ret toy_ix"
  using toy_cached toy_accounts
  by (simp add: build_ix_eq account_set_def toy_ix_def) (simp add: toy_sdk_def toy_user_def)

lemma toy_ix_accounts: "length (ix_accounts toy_ix) = 13"
  by (simp add: toy_ix_def)

section \<open>Properties\<close>

text \<open>
  C18: The accounts of the instruction. The six fixed accounts are the state, the signing liquidator
  authority, the writable user accounts of both sides and their statistics. After them come the remaining
  accounts in strictly ascending order of group (oracles, spot markets, perp markets) and key: exactly
  the oracles of all needed markets, the needed spot markets and the needed perp markets. None of these
  signs, and only the perp market being liquidated is writable.
\<close>

theorem ix_accounts_exact:
  assumes "build_liquidate_perp_ix sdk auth lu ld tu td i mx lp m = Ret ix"
  shows "\<exists>ras. take 6 (ix_accounts ix) =
        [meta_new_readonly sdk (find_pda sdk [map of_char ''drift_state'']) False,
         meta_new_readonly sdk auth True,
         meta_new sdk lu False,
         meta_new sdk (find_pda sdk [map of_char ''user_stats'', key_bytes sdk auth]) False,
         meta_new sdk tu False,
         meta_new sdk (find_pda sdk [map of_char ''user_stats'', key_bytes sdk (u_authority td)]) False]
     \<and> drop 6 (ix_accounts ix) =
         map (\<lambda>x. \<lparr>am_pubkey = (case x of Oracle k \<Rightarrow> k | Spot k w \<Rightarrow> k | Perp k w \<Rightarrow> k), am_is_signer = False,
                   am_is_writable = (x = Perp (mi_pubkey (perp_of m i)) True)\<rparr>) ras
     \<and> sorted_wrt (\<lambda>x y. discriminant x < discriminant y
          \<or> discriminant x = discriminant y \<and> ra_pubkey x < ra_pubkey y) ras
     \<and> (\<forall>k. Oracle k \<in> set ras \<longleftrightarrow> k \<in> (\<lambda>j. mi_oracle (perp_of m j)) ` needed_perps ld td i
          \<union> (\<lambda>j. mi_oracle (spot_of m j)) ` needed_spots ld td)
     \<and> (\<forall>k w. Spot k w \<in> set ras \<longleftrightarrow> \<not> w \<and> k \<in> (\<lambda>j. mi_pubkey (spot_of m j)) ` needed_spots ld td)
     \<and> (\<forall>k w. Perp k w \<in> set ras \<longleftrightarrow> k \<in> (\<lambda>j. mi_pubkey (perp_of m j)) ` needed_perps ld td i
          \<and> (w \<longleftrightarrow> k = mi_pubkey (perp_of m i)))"
proof -
  let ?S = "account_set m ld td i"
  have fixed: "take 6 (ix_accounts ix) =
      [meta_new_readonly sdk (find_pda sdk [map of_char ''drift_state'']) False,
       meta_new_readonly sdk auth True,
       meta_new sdk lu False,
       meta_new sdk (find_pda sdk [map of_char ''user_stats'', key_bytes sdk auth]) False,
       meta_new sdk tu False,
       meta_new sdk (find_pda sdk [map of_char ''user_stats'', key_bytes sdk (u_authority td)]) False]"
    and "drop 6 (ix_accounts ix) = map into_meta ?S"
    using assms by (auto simp: build_ix_eq account_set_def state_pda_def user_stats_pda_def split: if_splits)
  moreover have "into_meta x = \<lparr>am_pubkey = (case x of Oracle k \<Rightarrow> k | Spot k w \<Rightarrow> k | Perp k w \<Rightarrow> k),
      am_is_signer = False, am_is_writable = (x = Perp (mi_pubkey (perp_of m i)) True)\<rparr>" if "x \<in> set ?S" for x
  proof (cases x)
    case (Spot k w)
    with that show ?thesis using spot_in_set [of k w m ld td i] by simp
  next
    case (Perp k w)
    with that show ?thesis using perp_in_set [of k w m ld td i] by auto
  qed simp
  ultimately have "drop 6 (ix_accounts ix) =
      map (\<lambda>x. \<lparr>am_pubkey = (case x of Oracle k \<Rightarrow> k | Spot k w \<Rightarrow> k | Perp k w \<Rightarrow> k), am_is_signer = False,
        am_is_writable = (x = Perp (mi_pubkey (perp_of m i)) True)\<rparr>) ?S"
    by (simp cong: map_cong)
  moreover have "sorted_wrt (\<lambda>x y. discriminant x < discriminant y
      \<or> discriminant x = discriminant y \<and> ra_pubkey x < ra_pubkey y) ?S"
    using account_set_ordered [of m ld td i] by (simp add: bt_ordered_def ra_cmp_Less)
  ultimately show ?thesis
    using fixed oracle_in_set [of _ m ld td i] spot_in_set [of _ _ m ld td i] perp_in_set [of _ _ m ld td i]
    by blast
qed

theorem ix_accounts_exact_witness:
  "\<exists>ras. drop 6 (ix_accounts toy_ix) =
       map (\<lambda>x. \<lparr>am_pubkey = (case x of Oracle k \<Rightarrow> k | Spot k w \<Rightarrow> k | Perp k w \<Rightarrow> k), am_is_signer = False,
                 am_is_writable = (x = Perp 30 True)\<rparr>) ras
     \<and> length ras = 7 \<and> (\<forall>k. Perp k True \<in> set ras \<longleftrightarrow> k = (30 :: nat)) \<and> (\<forall>k. Perp k False \<in> set ras \<longleftrightarrow> k = 40)"
proof -
  have needed: "(\<lambda>j. mi_pubkey (perp_of toy_markets j)) ` needed_perps toy_user toy_user 1 = {30, 40}"
    "mi_pubkey (perp_of toy_markets 1) = 30"
    by (auto simp add: needed_perps_def perp_of_def toy_markets_def toy_user_def active_def)
  from ix_accounts_exact [OF toy_build] obtain ras where
    ras: "drop 6 (ix_accounts toy_ix) =
       map (\<lambda>x. \<lparr>am_pubkey = (case x of Oracle k \<Rightarrow> k | Spot k w \<Rightarrow> k | Perp k w \<Rightarrow> k), am_is_signer = False,
                 am_is_writable = (x = Perp (mi_pubkey (perp_of toy_markets 1)) True)\<rparr>) ras"
    and perps: "\<forall>k w. Perp k w \<in> set ras \<longleftrightarrow>
      k \<in> (\<lambda>j. mi_pubkey (perp_of toy_markets j)) ` needed_perps toy_user toy_user 1
      \<and> (w \<longleftrightarrow> k = mi_pubkey (perp_of toy_markets 1))"
    by (elim exE conjE) (rule that)
  from arg_cong [OF ras, of length] have "length ras = 7" by (simp add: toy_ix_accounts)
  moreover from perps have "\<forall>k. Perp k True \<in> set ras \<longleftrightarrow> k = 30" "\<forall>k. Perp k False \<in> set ras \<longleftrightarrow> k = 40"
    unfolding needed by auto
  ultimately show ?thesis using ras unfolding needed by blast
qed

text \<open>
  The builder panics exactly when a market is missing from the cache: the one being liquidated,
  the quote market, or one in which either user has an active position. It never returns an error.
\<close>

theorem build_ix_panics_iff:
  "build_liquidate_perp_ix sdk auth lu ld tu td i mx lp m = Panic \<longleftrightarrow>
     \<not> all_cached m (needed_spots ld td) (needed_perps ld td i)"
  by (simp add: build_ix_eq)

text \<open>
  The instruction data is unambiguous. The encoded arguments determine market, amount and limit.
\<close>

theorem encode_ix_injective:
  "encode_ix i mx lp = encode_ix i' mx' lp' \<longleftrightarrow> i = i' \<and> mx = mx' \<and> lp = lp'"
proof -
  have "length (to_le_bytes x) = 2" "length (to_le_bytes y) = 8" for x :: u16 and y :: u64 by simp_all
  then show ?thesis
    by (auto simp: encode_ix_def to_le_bytes_inj split: option.splits)
qed

text \<open>
  C40: A failed fetch truncates the cache. Loading succeeds when every account before the first failed
  fetch decodes, whatever the reason of the failure, and then the cache holds exactly the perp and the
  spot markets before the first failed fetch of their kind, although later ones may exist. An instruction
  that needs one of the others makes the builder panic, and no other does.
\<close>

theorem failed_fetch_truncates_markets:
  assumes "listed_until ga dp (derive_pda sdk perp_seed) a kp"
    and "listed_until ga ds (derive_pda sdk spot_seed) b ks"
  shows "\<exists>m. load sdk ga dp ds = Ret m
     \<and> (\<forall>j. mk_perps m j = (if unat j < kp
          then Some \<lparr>mi_pubkey = derive_pda sdk perp_seed (ma_index (a (unat j))), mi_oracle = ma_oracle (a (unat j))\<rparr>
          else None))
     \<and> (\<forall>j. mk_spots m j = (if unat j < ks
          then Some \<lparr>mi_pubkey = derive_pda sdk spot_seed (ma_index (b (unat j))), mi_oracle = ma_oracle (b (unat j))\<rparr>
          else None))
     \<and> (\<forall>auth lu ld tu td i mx lp. build_liquidate_perp_ix sdk auth lu ld tu td i mx lp m = Panic
          \<longleftrightarrow> (\<exists>j \<in> needed_perps ld td i. kp \<le> unat j) \<or> (\<exists>j \<in> needed_spots ld td. ks \<le> unat j))"
proof -
  let ?ext = "\<lambda>seed x. \<lparr>mi_pubkey = derive_pda sdk seed (ma_index x), mi_oracle = ma_oracle x\<rparr>"
  let ?m = "\<lparr>mk_perps = (\<lambda>w. if unat w < kp then Some (?ext perp_seed (a (unat w))) else None),
             mk_spots = (\<lambda>w. if unat w < ks then Some (?ext spot_seed (b (unat w))) else None)\<rparr>"
  have "load sdk ga dp ds = Ret ?m"
    by (simp add: load_def scan_listed [OF assms(1)] scan_listed [OF assms(2)])
  moreover have "all_cached ?m ss ps \<longleftrightarrow> \<not> ((\<exists>j \<in> ps. kp \<le> unat j) \<or> (\<exists>j \<in> ss. ks \<le> unat j))" for ss ps
    by (force simp: all_cached_def dom_def not_less [symmetric])
  ultimately show ?thesis by (intro exI [of _ ?m]) (simp add: build_ix_eq)
qed

theorem failed_fetch_truncates_markets_witness:
  "\<exists>m. load toy_sdk toy_accounts_of toy_decode toy_decode = Ret m
     \<and> mk_perps m 0 = Some \<lparr>mi_pubkey = 11200, mi_oracle = 3\<rparr> \<and> mk_perps m 1 = None
     \<and> mk_spots m 0 = Some \<lparr>mi_pubkey = 11500, mi_oracle = 3\<rparr> \<and> mk_spots m 1 = None
     \<and> build_liquidate_perp_ix toy_sdk 1 2 toy_user 3 toy_user 0 0 None m = Panic"
proof -
  have "listed_until toy_accounts_of toy_decode (derive_pda toy_sdk seed) (\<lambda>_. \<lparr>ma_index = 0, ma_oracle = 3\<rparr>) 1"
    if "seed = perp_seed \<or> seed = spot_seed" for seed
    using that by (auto simp: listed_until_def toy_pdas toy_accounts_of_def toy_decode_def)
  from failed_fetch_truncates_markets [where sdk = toy_sdk and kp = 1 and ks = 1, OF this this] obtain m where
    m: "load toy_sdk toy_accounts_of toy_decode toy_decode = Ret m"
    "\<forall>j. mk_perps m j = (if unat j < 1 then Some \<lparr>mi_pubkey = derive_pda toy_sdk perp_seed 0, mi_oracle = 3\<rparr> else None)"
    "\<forall>j. mk_spots m j = (if unat j < 1 then Some \<lparr>mi_pubkey = derive_pda toy_sdk spot_seed 0, mi_oracle = 3\<rparr> else None)"
    "\<forall>auth lu ld tu td i mx lp. build_liquidate_perp_ix toy_sdk auth lu ld tu td i mx lp m = Panic
       \<longleftrightarrow> (\<exists>j \<in> needed_perps ld td i. 1 \<le> unat j) \<or> (\<exists>j \<in> needed_spots ld td. 1 \<le> unat j)"
    by auto
  have "1 \<in> needed_perps toy_user toy_user 0" by (simp add: needed_perps_def active_def toy_user_def)
  with m show ?thesis by (intro exI [of _ m]) (auto simp: toy_pdas intro!: bexI [of _ 1])
qed

end
