(* ===== verification/Liq_Scan.thy ===== *)
theory Liq_Scan
  imports Liq_Ix Rust_F64 "HOL-Library.Multiset"
begin

text \<open>
  \<open>crates/liquidator/src/scanner.rs\<close> and the report of \<open>paper.rs\<close>. The RPC call and the decoder of the
  Drift \<open>User\<close> account are parameters; the decoder's outcome includes a panic, which the scanner catches.
  The margin computation is stubbed in the source: a collateral of 0 against a requirement of 1.
\<close>

section \<open>Scanning users\<close>

text \<open>What the code reads of a decoded \<open>User\<close>, beyond the part the instruction builder uses.\<close>

record 'pk drift_user = "'pk user" +
  sub_account_id :: u16
  being_liquidated :: bool
  bankrupt :: bool

type_synonym 'pk user_decoder = "bytes \<Rightarrow> (unit, 'pk drift_user) outcome"

datatype scan_scope = UsersWithOrders | AllNonIdle
datatype user_filter = UserFilter | UserWithOrderFilter

record 'pk liq_candidate =
  lc_pubkey :: 'pk
  lc_authority :: 'pk
  lc_total_collateral_q6 :: int
  lc_margin_requirement_q6 :: nat
  lc_health :: f64
  lc_n_perp :: nat
  lc_n_spot :: nat

record scan_counts =
  sc_size_mismatch :: nat
  sc_decode_failures :: nat
  sc_zero_margin :: nat
  sc_already_liquidating :: nat

fun scope_filters :: "scan_scope \<Rightarrow> user_filter list" where
  "scope_filters UsersWithOrders = [UserFilter, UserWithOrderFilter]"
| "scope_filters AllNonIdle = [UserFilter]"

definition open_positions :: "position list \<Rightarrow> nat" where
  "open_positions ps = length (filter (\<lambda>p. \<not> pos_available p) ps)"

text \<open>The loop body: one account, the candidates and the counters so far.\<close>

definition scan_step ::
  "nat \<Rightarrow> 'pk user_decoder \<Rightarrow> 'pk \<times> bytes \<Rightarrow> 'pk liq_candidate list \<times> scan_counts
     \<Rightarrow> 'pk liq_candidate list \<times> scan_counts" where
  "scan_step user_size decode acct s =
     (let (pubkey, d) = acct; (candidates, n) = s
      in if length d \<noteq> 8 + user_size then (candidates, n\<lparr>sc_size_mismatch := sc_size_mismatch n + 1\<rparr>)
         else (case decode d of
                 Ret user \<Rightarrow>
                   if being_liquidated user \<or> bankrupt user
                   then (candidates, n\<lparr>sc_already_liquidating := sc_already_liquidating n + 1\<rparr>)
                   else
                     let total_collateral = (0 :: int); margin_requirement = (1 :: nat) in
                     if margin_requirement = 0 then (candidates, n\<lparr>sc_zero_margin := sc_zero_margin n + 1\<rparr>)
                     else
                       (candidates @
                          [\<lparr>lc_pubkey = pubkey, lc_authority = u_authority user,
                            lc_total_collateral_q6 = total_collateral,
                            lc_margin_requirement_q6 = margin_requirement,
                            lc_health = f64_div (f64_of_int total_collateral) (f64_of_nat margin_requirement),
                            lc_n_perp = open_positions (u_perps user),
                            lc_n_spot = open_positions (u_spots user)\<rparr>], n)
               | _ \<Rightarrow> (candidates, n\<lparr>sc_decode_failures := sc_decode_failures n + 1\<rparr>)))"

definition no_counts :: scan_counts where
  "no_counts = \<lparr>sc_size_mismatch = 0, sc_decode_failures = 0, sc_zero_margin = 0, sc_already_liquidating = 0\<rparr>"

text \<open>The ranking: a stable sort by health, then the cut.\<close>

definition rank :: "nat \<Rightarrow> 'pk liq_candidate list \<Rightarrow> 'pk liq_candidate list" where
  "rank max_candidates candidates = take max_candidates (sort_key lc_health candidates)"

definition scan_users ::
  "nat \<Rightarrow> 'pk user_decoder \<Rightarrow> (user_filter list \<Rightarrow> ('pk \<times> bytes) list option) \<Rightarrow> scan_scope \<Rightarrow> nat
     \<Rightarrow> (unit, 'pk liq_candidate list \<times> scan_counts) outcome" where
  "scan_users user_size decode get_accounts scope max_candidates =
     obind (ok_or () (get_accounts (scope_filters scope))) (\<lambda>accounts.
       let (candidates, n) = fold (scan_step user_size decode) accounts ([], no_counts)
       in Ret (rank max_candidates candidates, n))"

section \<open>The paper report\<close>

definition scan_scope_of :: "string option \<Rightarrow> scan_scope" where
  "scan_scope_of arg =
     (let scope = (case arg of Some s \<Rightarrow> s | None \<Rightarrow> ''orders'')
      in if scope = ''all'' then AllNonIdle else UsersWithOrders)"

definition positions_of :: "'pk liq_candidate \<Rightarrow> nat" where
  "positions_of c = lc_n_perp c + lc_n_spot c"

text \<open>The lines printed, the number of candidates, and the sum of their positions.\<close>

definition paper_report :: "'pk liq_candidate list \<Rightarrow> 'pk liq_candidate list \<times> nat \<times> nat" where
  "paper_report candidates =
     (let by_size = sort_key (\<lambda>c. - int (positions_of c)) candidates
      in (take 20 by_size, length candidates, sum_list (map positions_of by_size)))"

definition paper_run ::
  "nat \<Rightarrow> 'pk user_decoder \<Rightarrow> (user_filter list \<Rightarrow> ('pk \<times> bytes) list option) \<Rightarrow> string option
     \<Rightarrow> (unit, 'pk liq_candidate list \<times> nat \<times> nat) outcome" where
  "paper_run user_size decode get_accounts arg =
     obind (scan_users user_size decode get_accounts (scan_scope_of arg) 20) (\<lambda>(candidates, n).
       Ret (paper_report candidates))"

section \<open>What a scan finds\<close>

definition eligible :: "nat \<Rightarrow> 'pk user_decoder \<Rightarrow> 'pk \<times> bytes \<Rightarrow> bool" where
  "eligible user_size decode acct \<longleftrightarrow> length (snd acct) = 8 + user_size
     \<and> (\<exists>u. decode (snd acct) = Ret u \<and> \<not> being_liquidated u \<and> \<not> bankrupt u)"

definition candidate_of :: "'pk user_decoder \<Rightarrow> 'pk \<times> bytes \<Rightarrow> 'pk liq_candidate" where
  "candidate_of decode acct =
     (case decode (snd acct) of
        Ret u \<Rightarrow> \<lparr>lc_pubkey = fst acct, lc_authority = u_authority u, lc_total_collateral_q6 = 0,
                  lc_margin_requirement_q6 = 1, lc_health = 0, lc_n_perp = open_positions (u_perps u),
                  lc_n_spot = open_positions (u_spots u)\<rparr>
      | _ \<Rightarrow> undefined)"

definition refused :: "scan_counts \<Rightarrow> nat" where
  "refused n = sc_size_mismatch n + sc_decode_failures n + sc_zero_margin n + sc_already_liquidating n"

lemma scan_step_eq:
  "fst (scan_step us decode acct s) =
     fst s @ (if eligible us decode acct then [candidate_of decode acct] else [])"
  "refused (snd (scan_step us decode acct s)) = refused (snd s) + (if eligible us decode acct then 0 else 1)"
  "sc_zero_margin (snd (scan_step us decode acct s)) = sc_zero_margin (snd s)"
  by (auto simp: scan_step_def eligible_def candidate_of_def refused_def f64_div_def f64_of_int_def
      split: prod.split outcome.split)

lemma scan_loop_eq:
  "fst (fold (scan_step us decode) accounts s) =
     fst s @ map (candidate_of decode) (filter (eligible us decode) accounts)
   \<and> refused (snd (fold (scan_step us decode) accounts s)) + length (filter (eligible us decode) accounts)
     = refused (snd s) + length accounts
   \<and> sc_zero_margin (snd (fold (scan_step us decode) accounts s)) = sc_zero_margin (snd s)"
  by (induction accounts arbitrary: s) (simp_all add: scan_step_eq)

lemma candidate_health: "eligible us decode a \<Longrightarrow> lc_health (candidate_of decode a) = 0"
  by (auto simp: eligible_def candidate_of_def)

lemma sort_key_same: "(\<And>x. x \<in> set xs \<Longrightarrow> f x = k) \<Longrightarrow> sort_key f xs = xs"
  by (induction xs) (simp_all add: insort_is_Cons)

lemma scanned:
  "get_accounts (scope_filters scope) = Some accounts \<Longrightarrow>
   \<exists>n. scan_users us decode get_accounts scope k =
     Ret (take k (map (candidate_of decode) (filter (eligible us decode) accounts)), n)
     \<and> refused n + length (filter (eligible us decode) accounts) = length accounts \<and> sc_zero_margin n = 0"
proof -
  assume accounts: "get_accounts (scope_filters scope) = Some accounts"
  obtain cs n where run: "fold (scan_step us decode) accounts ([], no_counts) = (cs, n)" by fastforce
  have cs: "cs = map (candidate_of decode) (filter (eligible us decode) accounts)"
    and n: "refused n + length (filter (eligible us decode) accounts) = length accounts" "sc_zero_margin n = 0"
    using scan_loop_eq [of us decode accounts "([], no_counts)"] run
    by (simp_all add: refused_def no_counts_def)
  have "sort_key lc_health cs = cs"
    unfolding cs by (rule sort_key_same [of _ _ 0]) (auto intro: candidate_health)
  with accounts run n show ?thesis by (simp add: scan_users_def rank_def flip: cs)
qed

section \<open>Properties\<close>

text \<open>
  C29: What a scan returns while the margin computation is stubbed: the first \<open>max_candidates\<close> accounts of
  the server's answer that have the right size, decode, and are neither being liquidated nor bankrupt, in
  the server's order, all with health 0. The counters account for every other account.
\<close>

theorem scan_keeps_server_order:
  assumes "get_accounts (scope_filters scope) = Some accounts"
  shows "\<exists>n. scan_users us decode get_accounts scope k =
      Ret (take k (map (candidate_of decode) (filter (eligible us decode) accounts)), n)
    \<and> sc_size_mismatch n + sc_decode_failures n + sc_already_liquidating n
        + length (filter (eligible us decode) accounts) = length accounts
    \<and> (\<forall>c \<in> set (map (candidate_of decode) (filter (eligible us decode) accounts)). lc_health c = 0)"
  using scanned [of get_accounts scope accounts us decode k, OF assms]
  by (auto simp: refused_def intro: candidate_health)

text \<open>
  The paper report shows twenty users, but not the twenty with most positions: it is a permutation of
  the first twenty eligible accounts in the server's order, sorted by falling number of positions, and
  the printed sum is theirs.
\<close>

theorem paper_shows_first_twenty:
  assumes "get_accounts (scope_filters (scan_scope_of arg)) = Some accounts"
  shows "\<exists>shown total_positions.
      paper_run us decode get_accounts arg = Ret (shown, length shown, total_positions)
    \<and> mset shown = mset (take 20 (map (candidate_of decode) (filter (eligible us decode) accounts)))
    \<and> sorted_wrt (\<lambda>a b. positions_of b \<le> positions_of a) shown
    \<and> total_positions = (\<Sum>c \<leftarrow> shown. positions_of c)"
proof -
  let ?cs = "take 20 (map (candidate_of decode) (filter (eligible us decode) accounts))"
  let ?shown = "sort_key (\<lambda>c. - int (positions_of c)) ?cs"
  have "sorted (map (\<lambda>c. - int (positions_of c)) ?shown)" by (rule sorted_sort_key)
  then have "sorted_wrt (\<lambda>a b. positions_of b \<le> positions_of a) ?shown"
    by (simp add: sorted_wrt_map)
  moreover have "paper_run us decode get_accounts arg
      = Ret (?shown, length ?shown, sum_list (map positions_of ?shown))"
    using scanned [of get_accounts "scan_scope_of arg" accounts us decode 20, OF assms]
    by (auto simp: paper_run_def paper_report_def Let_def)
  ultimately show ?thesis by (intro exI [of _ ?shown]) simp
qed

definition sample_drift_user :: "nat \<Rightarrow> nat drift_user" where
  "sample_drift_user k = \<lparr>u_authority = k, u_spots = [], u_perps = replicate k \<lparr>pos_index = 0, pos_available = False\<rparr>,
     sub_account_id = 0, being_liquidated = False, bankrupt = (k = 0)\<rparr>"

definition sample_user_decoder :: "nat user_decoder" where
  "sample_user_decoder d = (if d = [] then Panic else Ret (sample_drift_user (unat (hd d))))"

definition sample_accounts :: "(nat \<times> bytes) list" where
  "sample_accounts = [(10, replicate 8 1), (11, replicate 8 3), (12, replicate 8 0), (13, [5])]"

lemma sample_eligible:
  "filter (eligible 0 sample_user_decoder) sample_accounts = [(10, replicate 8 1), (11, replicate 8 3)]"
  by (simp add: eligible_def sample_accounts_def sample_user_decoder_def sample_drift_user_def)

theorem scan_keeps_server_order_witness:
  "\<exists>cs n. scan_users 0 sample_user_decoder (\<lambda>_. Some sample_accounts) AllNonIdle 1 = Ret (cs, n)
     \<and> map lc_pubkey cs = [10] \<and> sc_size_mismatch n + sc_decode_failures n + sc_already_liquidating n = 2"
  using scan_keeps_server_order [of "\<lambda>_. Some sample_accounts" AllNonIdle sample_accounts 0 sample_user_decoder 1]
  by (auto simp: sample_eligible candidate_of_def sample_user_decoder_def)
    (auto simp: sample_accounts_def)

theorem paper_shows_first_twenty_witness:
  "\<exists>shown t. paper_run 0 sample_user_decoder (\<lambda>_. Some sample_accounts) None = Ret (shown, 2, t)
     \<and> sorted_wrt (\<lambda>a b. positions_of b \<le> positions_of a) shown"
proof -
  obtain shown t where "paper_run 0 sample_user_decoder (\<lambda>_. Some sample_accounts) None = Ret (shown, length shown, t)"
    and m: "mset shown = mset (take 20 (map (candidate_of sample_user_decoder) [(10, replicate 8 1), (11, replicate 8 3)]))"
    and "sorted_wrt (\<lambda>a b. positions_of b \<le> positions_of a) shown"
    using paper_shows_first_twenty [of "\<lambda>_. Some sample_accounts" None sample_accounts 0 sample_user_decoder]
    unfolding sample_eligible by blast
  moreover have "length shown = 2" using arg_cong [OF m, of size] by (simp only: size_mset) simp
  ultimately show ?thesis by auto
qed

end
