(* ===== verification/Rpc_Url.thy ===== *)
theory Rpc_Url
  imports Rust_Prelude Rust_Text
begin

text \<open>
  Where the programs find the RPC URL: \<open>env_url\<close> of \<open>crates/cli/src/main.rs\<close> and \<open>env_rpc_url\<close>, of
  which \<open>crates/liquidator/src\<close> has one copy in each of \<open>paper\<close>, \<open>probe\<close>, \<open>disc_probe\<close>, \<open>idl_dump\<close>
  and \<open>simulate\<close>. Environment variables and files are a record \<open>host\<close>; a file that cannot be read as
  text is \<open>None\<close>. \<open>Fail n\<close> is \<open>std::process::exit(n)\<close>.
\<close>

record host =
  env_var :: "string \<Rightarrow> string option"
  read_to_string :: "string \<Rightarrow> string option"

abbreviation URL_VAR :: string where "URL_VAR \<equiv> ''HELIUS_RPC_URL''"
abbreviation URL_KEY :: string where "URL_KEY \<equiv> ''HELIUS_RPC_URL=''"

text \<open>The loop over the lines of one file.\<close>

definition url_in_file :: "string \<Rightarrow> string option" where
  "url_in_file contents = first_value URL_KEY (split_lines contents)"

definition env_url :: "host \<Rightarrow> (nat, string) outcome" where
  "env_url h =
     (case env_var h URL_VAR of
        Some v \<Rightarrow> Ret v
      | None \<Rightarrow>
          (case (case read_to_string h ''.env'' of
                   Some c \<Rightarrow> Some c
                 | None \<Rightarrow> read_to_string h ''../.env'') of
             None \<Rightarrow> Fail 2
           | Some contents \<Rightarrow>
               (case url_in_file contents of
                  Some v \<Rightarrow> Ret v
                | None \<Rightarrow> Fail 2)))"

fun url_in_files :: "host \<Rightarrow> string list \<Rightarrow> string option" where
  "url_in_files h [] = None"
| "url_in_files h (p # ps) =
     (case read_to_string h p of
        None \<Rightarrow> url_in_files h ps
      | Some contents \<Rightarrow>
          (case url_in_file contents of
             Some v \<Rightarrow> Some v
           | None \<Rightarrow> url_in_files h ps))"

datatype url_error = UrlNotSet

definition env_rpc_url :: "host \<Rightarrow> (url_error, string) outcome" where
  "env_rpc_url h =
     (case env_var h URL_VAR of
        Some v \<Rightarrow> Ret v
      | None \<Rightarrow> ok_or UrlNotSet (url_in_files h [''.env'', ''../.env'', ''../../.env'']))"

section \<open>What is found\<close>

lemma env_url_not_Panic [simp]: "env_url h \<noteq> Panic"
  by (simp add: env_url_def split: option.split)

lemma env_rpc_url_not_Panic [simp]: "env_rpc_url h \<noteq> Panic"
  by (simp add: env_rpc_url_def split: option.split)

lemma env_url_Fail: "env_url h = Fail n \<Longrightarrow> n = 2"
  by (auto simp: env_url_def split: option.splits)

text \<open>
  The two lookups of the RPC URL agree as far as the command line tool finds one: then the
  liquidator, on the same host, uses the same URL. The liquidator also finds a URL in \<open>../.env\<close> when
  \<open>.env\<close> exists without one, where the tool exits with status 2, and in \<open>../../.env\<close>.
\<close>

theorem url_lookups_agree:
  "(env_url h = Ret v \<longrightarrow> env_rpc_url h = Ret v)
   \<and> (env_rpc_url h = Ret v \<longrightarrow> env_url h = Ret v
        \<or> env_url h = Fail 2 \<and> env_var h URL_VAR = None
          \<and> ((\<exists>c. read_to_string h ''.env'' = Some c \<and> url_in_file c = None)
             \<or> (\<exists>c. read_to_string h ''../.env'' = Some c \<and> url_in_file c = None)
             \<or> (read_to_string h ''.env'' = None \<and> read_to_string h ''../.env'' = None)))"
  by (auto simp: env_url_def env_rpc_url_def split: option.splits)

definition shadowed_host :: host where
  "shadowed_host = \<lparr>env_var = (\<lambda>_. None),
     read_to_string = (\<lambda>p. if p = ''.env'' then Some ''A=1''
                           else if p = ''../.env'' then Some ''HELIUS_RPC_URL=http://x'' else None)\<rparr>"

lemma shadowed_host_urls: "env_url shadowed_host = Fail 2" "env_rpc_url shadowed_host = Ret ''http://x''"
  by (simp_all add: shadowed_host_def env_url_def env_rpc_url_def url_in_file_def split_lines.simps
      strip_prefix_def trim_def is_space_def strip_cr_def)

theorem url_lookups_agree_witness:
  "env_url (shadowed_host\<lparr>env_var := (\<lambda>_. Some ''u'')\<rparr>) = Ret ''u''
   \<and> env_rpc_url (shadowed_host\<lparr>env_var := (\<lambda>_. Some ''u'')\<rparr>) = Ret ''u''
   \<and> env_url shadowed_host = Fail 2 \<and> env_rpc_url shadowed_host = Ret ''http://x''
   \<and> (\<exists>c. read_to_string shadowed_host ''.env'' = Some c \<and> url_in_file c = None)"
proof -
  have a: "env_url (shadowed_host\<lparr>env_var := (\<lambda>_. Some ''u'')\<rparr>) = Ret ''u''"
    by (simp add: env_url_def)
  have b: "env_rpc_url (shadowed_host\<lparr>env_var := (\<lambda>_. Some ''u'')\<rparr>) = Ret ''u''"
    using url_lookups_agree [of "shadowed_host\<lparr>env_var := (\<lambda>_. Some ''u'')\<rparr>" "''u''"] a by blast
  have c: "\<not> (\<exists>c. read_to_string shadowed_host ''../.env'' = Some c \<and> url_in_file c = None)"
    "read_to_string shadowed_host ''../.env'' \<noteq> None"
    by (simp_all add: shadowed_host_def url_in_file_def split_lines.simps strip_prefix_def trim_def
        is_space_def)
  have d: "\<exists>c. read_to_string shadowed_host ''.env'' = Some c \<and> url_in_file c = None"
    using url_lookups_agree [of shadowed_host "''http://x''"] shadowed_host_urls c by auto
  show ?thesis using a b d shadowed_host_urls by blast
qed

end
