(* ===== verification/Liq_Tools.thy ===== *)
theory Liq_Tools
  imports Liq_Scan Rpc_Url
begin

text \<open>
  The other modes of \<open>crates/liquidator/src\<close>: \<open>simulate.rs\<close> (pick a user, build the instruction, read the
  simulator's log), \<open>disc_probe.rs\<close>, \<open>probe.rs\<close>, \<open>idl_dump.rs\<close>, \<open>redact_url\<close> of \<open>paper.rs\<close> and the choice of
  the mode in \<open>main.rs\<close>. RPC answers, account decoders and zlib are parameters. Text taken from an account
  is a list of bytes, because slicing a \<open>str\<close> inside a character panics.
\<close>

section \<open>simulate\<close>

text \<open>The loop of \<open>pick_candidate_with_perp_position\<close>: the first usable user with an open perp position.\<close>

fun pick_candidate ::
  "nat \<Rightarrow> 'pk user_decoder \<Rightarrow> ('pk \<times> bytes) list \<Rightarrow> ('pk \<times> 'pk drift_user) option" where
  "pick_candidate user_size decode [] = None"
| "pick_candidate user_size decode ((pk, d) # accounts) =
     (if length d \<noteq> 8 + user_size then pick_candidate user_size decode accounts
      else (case decode d of
              Ret user \<Rightarrow>
                if being_liquidated user \<or> bankrupt user then pick_candidate user_size decode accounts
                else if list_ex (\<lambda>p. \<not> pos_available p) (u_perps user) then Some (pk, user)
                else pick_candidate user_size decode accounts
            | _ \<Rightarrow> pick_candidate user_size decode accounts))"

datatype simulate_error =
    SimUrl url_error
  | LoadMarkets load_error
  | GetProgramAccounts
  | NoCandidate
  | NoPerpPositions
  | Blockhash
  | SimulateTransaction

text \<open>\<open>run\<close>, up to the transaction: the instruction and its fee payer.\<close>

definition simulate_ix ::
  "'pk::linorder sdk_api \<Rightarrow> ('pk \<Rightarrow> bytes option) \<Rightarrow> 'pk market_account market_decoder
     \<Rightarrow> 'pk market_account market_decoder \<Rightarrow> nat \<Rightarrow> 'pk user_decoder
     \<Rightarrow> (user_filter list \<Rightarrow> ('pk \<times> bytes) list option)
     \<Rightarrow> (simulate_error, 'pk instruction \<times> 'pk) outcome" where
  "simulate_ix sdk get_account decode_perp decode_spot user_size decode get_accounts =
     obind (map_fail LoadMarkets (load sdk get_account decode_perp decode_spot)) (\<lambda>markets.
     obind (ok_or GetProgramAccounts (get_accounts [UserFilter, UserWithOrderFilter])) (\<lambda>accounts.
     obind (ok_or NoCandidate (pick_candidate user_size decode accounts)) (\<lambda>(cand_pubkey, cand).
     obind (ok_or NoPerpPositions
              (map_option pos_index (List.find (\<lambda>p. \<not> pos_available p) (u_perps cand)))) (\<lambda>market_index.
     let liquidator_authority = u_authority cand;
         liquidator_user = user_pda sdk liquidator_authority (sub_account_id cand)
     in
     obind (expect (build_liquidate_perp_ix sdk liquidator_authority liquidator_user (user.truncate cand)
              cand_pubkey (user.truncate cand) market_index (- 1) None markets)) (\<lambda>ix.
       Ret (ix, liquidator_authority))))))"

datatype sim_verdict = IxCorrect | LayoutWrong | NoErrorAtAll | Unrecognized

definition success_signals :: "string list" where
  "success_signals =
     [''SufficientCollateral'', ''UserHasInvalidLiquidation'', ''UserNotBeingLiquidated'', ''InvalidLiquidation'']"

definition layout_signals :: "string list" where
  "layout_signals =
     [''AccountDidNotDeserialize'', ''ConstraintSeeds'', ''AccountNotEnoughKeys'', ''AccountOwnedByWrongProgram'',
      ''InvalidProgramId'', ''instruction modified data of an account it does not own'']"

definition interpret_logs :: "string list option \<Rightarrow> bool \<Rightarrow> sim_verdict" where
  "interpret_logs logs err_is_none =
     (let logs = (case logs of Some ls \<Rightarrow> ls | None \<Rightarrow> []);
          (hit_success, hit_layout) =
            fold (\<lambda>line (s, l).
                (s \<or> list_ex (\<lambda>sig. str_contains sig line) success_signals,
                 l \<or> list_ex (\<lambda>sig. str_contains sig line) layout_signals)) logs (False, False)
      in if hit_success then IxCorrect
         else if hit_layout then LayoutWrong
         else if err_is_none then NoErrorAtAll
         else Unrecognized)"

section \<open>disc-probe\<close>

definition probe_discs :: "(string \<times> bytes) list" where
  "probe_discs =
     [(''liquidate_perp'', [75, 35, 119, 247, 191, 18, 139, 2]),
      (''initialize_user'', [0x6f, 0x11, 0xb9, 0xfa, 0x3c, 0x7a, 0x26, 0xfe]),
      (''update_user_idle'', [0xfd, 0x85, 0x43, 0x16, 0x67, 0xa1, 0x14, 0x64]),
      (''garbage_baseline'', [0xde, 0xad, 0xbe, 0xef, 0xde, 0xad, 0xbe, 0xef])]"

definition probe_ix :: "'pk sdk_api \<Rightarrow> bytes \<Rightarrow> 'pk instruction" where
  "probe_ix sdk disc =
     \<lparr>ix_program_id = program_id sdk, ix_accounts = [meta_new_readonly sdk (state_pda sdk) False], ix_data = disc\<rparr>"

text \<open>The line that \<open>probe_one\<close> reports; \<open>err\<close> is the rendering of the simulator's error.\<close>

definition informative :: "string \<Rightarrow> bool" where
  "informative l \<longleftrightarrow> str_contains ''AnchorError'' l \<or> str_contains ''Constraint'' l
     \<or> str_contains ''AccountNot'' l \<or> str_contains ''AccountOwnedByWrong'' l"

definition probe_summary :: "string list option \<Rightarrow> string \<Rightarrow> string" where
  "probe_summary logs err =
     (let logs = (case logs of Some ls \<Rightarrow> ls | None \<Rightarrow> [])
      in case List.find informative logs of
           Some l \<Rightarrow> l
         | None \<Rightarrow>
             (case List.find (str_contains ''custom program error'') (rev logs) of
                Some l \<Rightarrow> l
              | None \<Rightarrow> ''err='' @ err))"

text \<open>The loop of \<open>run\<close>: every discriminator is tried, a failed one does not stop the others.\<close>

definition probe_all ::
  "'pk sdk_api \<Rightarrow> ('pk instruction \<Rightarrow> (string list option \<times> string) option) \<Rightarrow> (string \<times> string option) list" where
  "probe_all sdk simulate =
     map (\<lambda>(name, disc). (name, map_option (\<lambda>(logs, err). probe_summary logs err) (simulate (probe_ix sdk disc))))
       probe_discs"

section \<open>probe\<close>

definition derive_perp_market_pda :: "'pk sdk_api \<Rightarrow> u16 \<Rightarrow> 'pk" where
  "derive_perp_market_pda sdk i = find_pda sdk [perp_seed, to_le_bytes i]"

definition derive_spot_market_pda :: "'pk sdk_api \<Rightarrow> u16 \<Rightarrow> 'pk" where
  "derive_spot_market_pda sdk i = find_pda sdk [spot_seed, to_le_bytes i]"

datatype probe_error = FetchPerp | DecodePerp | FetchSpot | DecodeSpot

definition probe_markets ::
  "'pk sdk_api \<Rightarrow> ('pk \<Rightarrow> bytes option) \<Rightarrow> 'pk market_account market_decoder
     \<Rightarrow> 'pk market_account market_decoder \<Rightarrow> (probe_error, 'pk market_account \<times> 'pk market_account list) outcome" where
  "probe_markets sdk get_account decode_perp decode_spot =
     obind (ok_or FetchPerp (get_account (derive_perp_market_pda sdk 0))) (\<lambda>d.
     obind (map_fail (\<lambda>_. DecodePerp) (decode_perp d)) (\<lambda>p.
     obind (omap (\<lambda>i.
              obind (ok_or FetchSpot (get_account (derive_spot_market_pda sdk i))) (\<lambda>d.
                map_fail (\<lambda>_. DecodeSpot) (decode_spot d))) [0, 1]) (\<lambda>spots.
       Ret (p, spots))))"

text \<open>The probe panics exactly when a decoder panics on an account, the earlier ones having decoded.\<close>

definition probe_panics ::
  "'pk sdk_api \<Rightarrow> ('pk \<Rightarrow> bytes option) \<Rightarrow> 'pk market_account market_decoder
     \<Rightarrow> 'pk market_account market_decoder \<Rightarrow> bool" where
  "probe_panics sdk ga dp ds \<longleftrightarrow>
     scan_panics ga dp (derive_pda sdk perp_seed) 1
     \<or> (\<exists>d p. ga (derive_pda sdk perp_seed 0) = Some d \<and> dp d = Ret p) \<and> scan_panics ga ds (derive_pda sdk spot_seed) 2"

lemma same_pdas:
  "derive_perp_market_pda sdk i = derive_pda sdk perp_seed i"
  "derive_spot_market_pda sdk i = derive_pda sdk spot_seed i"
  by (simp_all add: derive_perp_market_pda_def derive_spot_market_pda_def derive_pda_def)

lemma first_scan_panics:
  "scan_panics ga dec pda (Suc 0) \<longleftrightarrow> (\<exists>d. ga (pda 0) = Some d \<and> dec d = Panic)"
  "scan_panics ga dec pda 2 \<longleftrightarrow> (\<exists>d. ga (pda 0) = Some d \<and> dec d = Panic)
     \<or> (\<exists>d x. ga (pda 0) = Some d \<and> dec d = Ret x) \<and> (\<exists>d. ga (pda 1) = Some d \<and> dec d = Panic)"
  by (auto simp: scan_panics_def less_2_cases_iff Bex_def intro: exI [of _ 0] exI [of _ 1])

lemma probe_markets_Panic: "probe_markets sdk ga dp ds = Panic \<longleftrightarrow> probe_panics sdk ga dp ds"
  by (auto simp: probe_markets_def probe_panics_def first_scan_panics same_pdas obind_eq_Panic
      obind_eq_Ret map_fail_Panic map_fail_Ret_iff ok_or_eq_Ret)

section \<open>idl-dump\<close>

text \<open>\<open>str\<close> slicing: both ends must be character boundaries of the UTF-8 text.\<close>

definition char_boundary :: "bytes \<Rightarrow> nat \<Rightarrow> bool" where
  "char_boundary s i \<longleftrightarrow> i = 0 \<or> i = length s \<or> (i < length s \<and> s ! i AND 0xC0 \<noteq> 0x80)"

definition str_slice :: "nat \<Rightarrow> nat \<Rightarrow> bytes \<Rightarrow> ('e, bytes) outcome" where
  "str_slice i j s =
     (if i \<le> j \<and> j \<le> length s \<and> char_boundary s i \<and> char_boundary s j then Ret (slice i j s) else Panic)"

datatype idl_error = IdlSeed | IdlFetch | IdlTooSmall nat | IdlZlib | IdlWrite

definition idl_payload :: "bytes \<Rightarrow> (idl_error, bytes) outcome" where
  "idl_payload d =
     (if length d < 44 then Fail (IdlTooSmall (length d))
      else
        obind (rslice 40 44 d) (\<lambda>len4.
        let data_len = unat (from_le_bytes len4 :: u32)
        in rslice 44 (44 + data_len) d))"

text \<open>The snippet shown for one name, when it occurs.\<close>

definition snippet :: "nat \<Rightarrow> bytes \<Rightarrow> bytes \<Rightarrow> (idl_error, (nat \<times> bytes) option) outcome" where
  "snippet n name s =
     (case str_find name s of
        None \<Rightarrow> Ret None
      | Some idx \<Rightarrow> obind (str_slice idx (min (idx + n) (length s)) s) (\<lambda>t. Ret (Some (idx, t))))"

definition idl_report ::
  "(bytes \<Rightarrow> bool) \<Rightarrow> bytes \<Rightarrow> (idl_error, (nat \<times> bytes) option list) outcome" where
  "idl_report utf8_ok json_bytes =
     (let s = (if utf8_ok json_bytes then json_bytes else []);
          spaced = map of_char ''\"name\": \"liquidatePerp\"''; tight = map of_char ''\"name\":\"liquidatePerp\"'';
          found = (case str_find spaced s of Some i \<Rightarrow> Some spaced
                   | None \<Rightarrow> (case str_find tight s of Some i \<Rightarrow> Some tight | None \<Rightarrow> None))
      in case found of
           Some name \<Rightarrow> obind (snippet 600 name s) (\<lambda>r. Ret [r])
         | None \<Rightarrow> omap (\<lambda>name. snippet 80 (map of_char name) s) [''liquidate'', ''Liquidate''])"

definition idl_dump ::
  "'pk option \<Rightarrow> ('pk \<Rightarrow> bytes option) \<Rightarrow> (bytes \<Rightarrow> bytes option) \<Rightarrow> (bytes \<Rightarrow> bool) \<Rightarrow> (bytes \<Rightarrow> bool)
     \<Rightarrow> (idl_error, (nat \<times> bytes) option list) outcome" where
  "idl_dump idl_account get_account inflate write_ok utf8_ok =
     obind (ok_or IdlSeed idl_account) (\<lambda>pk.
     obind (ok_or IdlFetch (get_account pk)) (\<lambda>d.
     obind (idl_payload d) (\<lambda>payload.
     obind (ok_or IdlZlib (inflate payload)) (\<lambda>json_bytes.
     if \<not> write_ok json_bytes then Fail IdlWrite
     else idl_report utf8_ok json_bytes))))"

section \<open>The log line with the URL, and the mode\<close>

definition api_key_tag :: string where "api_key_tag = ''api-key=''"

definition redact_url :: "string \<Rightarrow> string" where
  "redact_url url =
     (case str_find api_key_tag url of
        Some idx \<Rightarrow> take (idx + 8) url @ ''***''
      | None \<Rightarrow> url)"

datatype liq_mode = ModePaper | ModeProbe | ModeSimulate | ModeIdlDump | ModeDiscProbe | ModeUnknown string

definition mode_of :: "string option \<Rightarrow> liq_mode" where
  "mode_of arg =
     (let mode = (case arg of Some m \<Rightarrow> m | None \<Rightarrow> ''paper'')
      in if mode = ''paper'' then ModePaper
         else if mode = ''probe'' then ModeProbe
         else if mode = ''simulate'' then ModeSimulate
         else if mode = ''idl-dump'' then ModeIdlDump
         else if mode = ''disc-probe'' then ModeDiscProbe
         else ModeUnknown mode)"

section \<open>What the tools report\<close>

definition usable :: "nat \<Rightarrow> 'pk user_decoder \<Rightarrow> 'pk \<times> bytes \<Rightarrow> bool" where
  "usable user_size decode acct \<longleftrightarrow> eligible user_size decode acct
     \<and> (\<exists>u. decode (snd acct) = Ret u \<and> active (u_perps u) \<noteq> [])"

lemma active_Nil: "active ps = [] \<longleftrightarrow> \<not> list_ex (\<lambda>p. \<not> pos_available p) ps"
  by (induction ps) (auto simp: active_def)

lemma find_active: "map_option pos_index (List.find (\<lambda>p. \<not> pos_available p) ps) =
    (if active ps = [] then None else Some (hd (active ps)))"
  by (induction ps) (auto simp: active_def)

lemma pick_None: "pick_candidate us decode accounts = None \<Longrightarrow> \<forall>a \<in> set accounts. \<not> usable us decode a"
  by (induction us decode accounts rule: pick_candidate.induct)
    (auto simp: usable_def eligible_def active_Nil split: if_splits outcome.splits)

lemma pick_Some:
  "pick_candidate us decode accounts = Some (pk, u) \<Longrightarrow>
     \<exists>pre d post. accounts = pre @ (pk, d) # post \<and> decode d = Ret u \<and> usable us decode (pk, d)
        \<and> (\<forall>a \<in> set pre. \<not> usable us decode a)"
proof (induction us decode accounts rule: pick_candidate.induct)
  case (2 us decode pk' d accounts)
  show ?case
  proof (cases "usable us decode (pk', d)")
    case True
    with "2.prems" have "pk = pk'" "decode d = Ret u"
      by (auto simp: usable_def eligible_def active_Nil)
    with True show ?thesis by (intro exI [of _ "[]"] exI [of _ d] exI [of _ accounts]) simp
  next
    case False
    with "2.prems" have rest: "pick_candidate us decode accounts = Some (pk, u)"
      by (auto simp: usable_def eligible_def active_Nil split: if_splits outcome.splits)
    have no: "\<not> list_ex (\<lambda>p. \<not> pos_available p) (u_perps v)"
      if "length d = 8 + us" "decode d = Ret v" "\<not> being_liquidated v" "\<not> bankrupt v" for v
      using False that by (auto simp: usable_def eligible_def active_Nil)
    have "\<exists>pre d post. accounts = pre @ (pk, d) # post \<and> decode d = Ret u \<and> usable us decode (pk, d)
        \<and> (\<forall>a \<in> set pre. \<not> usable us decode a)"
      using "2.IH" "2.prems" rest no by (auto split: if_splits outcome.splits)
    then obtain pre e post where "accounts = pre @ (pk, e) # post" "decode e = Ret u" "usable us decode (pk, e)"
      "\<forall>a \<in> set pre. \<not> usable us decode a" by blast
    with False show ?thesis by (intro exI [of _ "(pk', d) # pre"] exI [of _ e] exI [of _ post]) simp
  qed
qed simp

lemma usable_active: "usable us decode (pk, d) \<Longrightarrow> decode d = Ret u \<Longrightarrow> active (u_perps u) \<noteq> []"
  by (auto simp: usable_def)

lemma truncate_simps [simp]:
  "u_perps (user.truncate u) = u_perps u" "u_spots (user.truncate u) = u_spots u"
  "u_authority (user.truncate u) = u_authority u"
  by (simp_all add: user.truncate_def)

text \<open>The instruction of a simulation: the user is on both sides, the target its first open perp market.\<close>

definition self_liquidation :: "'pk::linorder sdk_api \<Rightarrow> 'pk markets \<Rightarrow> 'pk \<Rightarrow> 'pk drift_user \<Rightarrow> (unit, 'pk instruction) outcome" where
  "self_liquidation sdk m pk u =
     build_liquidate_perp_ix sdk (u_authority u) (user_pda sdk (u_authority u) (sub_account_id u)) (user.truncate u)
       pk (user.truncate u) (hd (active (u_perps u))) (- 1) None m"

lemma simulate_ix_eq:
  assumes "load sdk ga dp ds = Ret m" and "get_accounts [UserFilter, UserWithOrderFilter] = Some accounts"
  shows "simulate_ix sdk ga dp ds us decode get_accounts =
     (case pick_candidate us decode accounts of
        None \<Rightarrow> Fail NoCandidate
      | Some (pk, u) \<Rightarrow> obind (expect (self_liquidation sdk m pk u)) (\<lambda>ix. Ret (ix, u_authority u)))"
proof (cases "pick_candidate us decode accounts")
  case (Some c)
  obtain pk u where c: "c = (pk, u)" by fastforce
  from pick_Some [OF Some [unfolded c]] obtain d where "usable us decode (pk, d)" "decode d = Ret u" by blast
  then have "active (u_perps u) \<noteq> []" by (rule usable_active)
  with assms Some c show ?thesis
    by (simp add: simulate_ix_def find_active self_liquidation_def Let_def)
qed (use assms in \<open>simp add: simulate_ix_def\<close>)

lemma fold_hits:
  "fold (\<lambda>line (s, l). (s \<or> P line, l \<or> Q line)) ls (a, b) = (a \<or> list_ex P ls, b \<or> list_ex Q ls)"
  by (induction ls arbitrary: a b) auto

text \<open>The probe sends the discriminator that the instruction builder uses.\<close>

lemma probed_discriminator: "hd probe_discs = (''liquidate_perp'', LIQUIDATE_PERP_DISCRIMINATOR)"
  by (simp add: probe_discs_def LIQUIDATE_PERP_DISCRIMINATOR_def)

section \<open>Properties\<close>

text \<open>
  The simulated instruction. Once the markets are loaded, a simulation either finds no user with an
  open perp position, or takes the first usable one in the server's order and builds the instruction that
  liquidates that user's first open perp market with the user itself as liquidator; it panics exactly
  when one of the user's markets is missing from the cache. The error for a candidate without a perp
  position never occurs.
\<close>

theorem simulate_ix_outcome:
  assumes "load sdk ga dp ds = Ret m" and "get_accounts [UserFilter, UserWithOrderFilter] = Some accounts"
  shows "(case simulate_ix sdk ga dp ds us decode get_accounts of
      Fail e \<Rightarrow> e = NoCandidate \<and> (\<forall>a \<in> set accounts. \<not> usable us decode a)
    | r \<Rightarrow> \<exists>pre pk d post u. accounts = pre @ (pk, d) # post \<and> (\<forall>a \<in> set pre. \<not> usable us decode a)
        \<and> usable us decode (pk, d) \<and> decode d = Ret u
        \<and> (r = Panic \<longleftrightarrow> \<not> all_cached m (insert 0 (set (active (u_spots u)))) (set (active (u_perps u))))
        \<and> (\<forall>ix payer. r = Ret (ix, payer) \<longrightarrow> self_liquidation sdk m pk u = Ret ix \<and> payer = u_authority u))"
proof (cases "pick_candidate us decode accounts")
  case None
  then show ?thesis using pick_None [OF None] by (simp add: simulate_ix_eq [of sdk ga dp ds m get_accounts accounts, OF assms])
next
  case (Some c)
  obtain pk u where c: "c = (pk, u)" by fastforce
  from pick_Some [OF Some [unfolded c]] obtain pre d post where
    found: "accounts = pre @ (pk, d) # post" "decode d = Ret u" "usable us decode (pk, d)"
    "\<forall>a \<in> set pre. \<not> usable us decode a" by blast
  have act: "active (u_perps u) \<noteq> []" by (rule usable_active [OF found(3,2)])
  then have need: "needed_perps (user.truncate u) (user.truncate u) (hd (active (u_perps u))) = set (active (u_perps u))"
    "needed_spots (user.truncate u) (user.truncate u) = insert 0 (set (active (u_spots u)))"
    by (auto simp: needed_perps_def needed_spots_def)
  have sim: "simulate_ix sdk ga dp ds us decode get_accounts =
      obind (expect (self_liquidation sdk m pk u)) (\<lambda>ix. Ret (ix, u_authority u))"
    using Some c by (simp add: simulate_ix_eq [of sdk ga dp ds m get_accounts accounts, OF assms])
  show ?thesis
  proof (cases "all_cached m (insert 0 (set (active (u_spots u)))) (set (active (u_perps u)))")
    case True
    then obtain ix where "self_liquidation sdk m pk u = Ret ix"
      by (simp add: self_liquidation_def build_ix_eq need)
    with sim True found show ?thesis by auto
  next
    case False
    then have "self_liquidation sdk m pk u = Panic" by (simp add: self_liquidation_def build_ix_eq need)
    with sim False found show ?thesis by auto
  qed
qed

lemma sample_usable: "usable 0 sample_user_decoder (10, replicate 8 1)"
  by (auto simp: usable_def eligible_def sample_user_decoder_def sample_drift_user_def active_def)

theorem simulate_ix_outcome_witness:
  "\<exists>ix. simulate_ix toy_sdk toy_accounts_of toy_decode toy_decode 0 sample_user_decoder (\<lambda>_. Some sample_accounts)
       = Ret (ix, 1)
     \<and> self_liquidation toy_sdk toy_loaded 10 (sample_drift_user 1) = Ret ix"
proof -
  let ?r = "simulate_ix toy_sdk toy_accounts_of toy_decode toy_decode 0 sample_user_decoder (\<lambda>_. Some sample_accounts)"
  note out = simulate_ix_outcome [of toy_sdk toy_accounts_of toy_decode toy_decode toy_loaded "\<lambda>_. Some sample_accounts"
      sample_accounts 0 sample_user_decoder, OF toy_load refl]
  have usable: "usable 0 sample_user_decoder (hd sample_accounts)" "hd sample_accounts \<in> set sample_accounts"
    using sample_usable by (simp_all add: sample_accounts_def)
  have first: "pk = 10 \<and> u = sample_drift_user 1"
    if "sample_accounts = pre @ (pk, d) # post" "\<forall>a \<in> set pre. \<not> usable 0 sample_user_decoder a"
      "sample_user_decoder d = Ret u" for pre pk d post u
  proof (cases pre)
    case Nil
    with that(1,3) show ?thesis by (auto simp: sample_accounts_def sample_user_decoder_def)
  next
    case (Cons a pre')
    then have "hd sample_accounts \<in> set pre" unfolding that(1) by simp
    with usable that(2) show ?thesis by blast
  qed
  have cached: "all_cached toy_loaded (insert 0 (set (active (u_spots (sample_drift_user 1)))))
      (set (active (u_perps (sample_drift_user 1))))"
    by (simp add: all_cached_def toy_loaded_def sample_drift_user_def active_def)
  show ?thesis
  proof (cases ?r)
    case (Ret v)
    obtain ix payer where v: "v = (ix, payer)" by fastforce
    from out Ret v obtain pre pk d post u where f: "sample_accounts = pre @ (pk, d) # post"
      "\<forall>a \<in> set pre. \<not> usable 0 sample_user_decoder a" "sample_user_decoder d = Ret u"
      and b: "self_liquidation toy_sdk toy_loaded pk u = Ret ix" "payer = u_authority u" by auto
    from first [OF f] b Ret v show ?thesis by (simp add: sample_drift_user_def)
  next
    case (Fail e)
    with out usable show ?thesis by auto
  next
    case Panic
    with out obtain pre pk d post u where f: "sample_accounts = pre @ (pk, d) # post"
      "\<forall>a \<in> set pre. \<not> usable 0 sample_user_decoder a" "sample_user_decoder d = Ret u"
      and "\<not> all_cached toy_loaded (insert 0 (set (active (u_spots u)))) (set (active (u_perps u)))" by auto
    with first [OF f] cached show ?thesis by simp
  qed
qed

text \<open>
  The verdict on a simulation depends only on which signals occur as substrings of log lines: one that
  says the margin was computed outweighs every layout signal, and only without either does the error
  decide.
\<close>

theorem interpret_verdict:
  "interpret_logs logs err_is_none =
     (let shows_one = (\<lambda>signals. \<exists>line a b sig. line \<in> set (case logs of Some ls \<Rightarrow> ls | None \<Rightarrow> [])
                        \<and> sig \<in> set signals \<and> line = a @ sig @ b)
      in if shows_one success_signals then IxCorrect
         else if shows_one layout_signals then LayoutWrong
         else if err_is_none then NoErrorAtAll else Unrecognized)"
proof -
  let ?ls = "case logs of Some ls \<Rightarrow> ls | None \<Rightarrow> []"
  have hit: "list_ex (\<lambda>line. list_ex (\<lambda>sig. str_contains sig line) signals) ?ls \<longleftrightarrow>
      (\<exists>line a b sig. line \<in> set ?ls \<and> sig \<in> set signals \<and> line = a @ sig @ b)" for signals
    unfolding list_ex_iff str_contains_iff by blast
  show ?thesis
    unfolding interpret_logs_def Let_def fold_hits prod.case hit by (simp only: simp_thms)
qed

text \<open>
  The log line about the RPC server does not reveal the key: what follows \<open>api-key=\<close> has no influence
  on the redacted URL.
\<close>

theorem redact_hides_key:
  "redact_url (a @ ''api-key='' @ k) = redact_url (a @ ''api-key='' @ k')
   \<and> length (redact_url (a @ ''api-key='' @ k)) \<le> length (a @ ''api-key=***'')"
proof -
  obtain i where i: "i \<le> length a" "\<And>t. str_find api_key_tag (a @ api_key_tag @ t) = Some i"
    using str_find_after [of a api_key_tag] by blast
  have "redact_url (a @ api_key_tag @ t) = take (i + 8) (a @ api_key_tag) @ ''***''" for t
    using i(1) by (simp add: redact_url_def i(2)) (simp add: api_key_tag_def)
  then show ?thesis using i(1) by (simp add: api_key_tag_def)
qed

text \<open>
  The payload of an IDL account. An account too short for its header is an error; one whose length field
  claims more bytes than follow makes the command panic; otherwise the claimed bytes are taken.
\<close>

theorem idl_payload_outcome:
  "idl_payload d =
     (if length d < 44 then Fail (IdlTooSmall (length d))
      else let n = unat (from_le_bytes [d ! 40, d ! 41, d ! 42, d ! 43] :: u32)
           in if length d < 44 + n then Panic else Ret (take n (drop 44 d)))"
proof (cases "length d < 44")
  case False
  have "slice 40 44 d = [d ! 40, d ! 41, d ! 42, d ! 43]"
  proof (rule nth_equalityI)
    fix i assume "i < length (slice 40 44 d)"
    then have "i < 4" by (simp add: slice_def)
    then have "i = 0 \<or> i = 1 \<or> i = 2 \<or> i = 3" by arith
    with False show "slice 40 44 d ! i = [d ! 40, d ! 41, d ! 42, d ! 43] ! i" by (auto simp: slice_def)
  qed (use False in \<open>simp add: slice_def\<close>)
  with False show ?thesis by (auto simp: idl_payload_def rslice_def Let_def slice_def)
qed (simp add: idl_payload_def)

end
