(* ===== verification/Liq_Runs.thy ===== *)
theory Liq_Runs
  imports Liq_Tools
begin

text \<open>
  The modes of the liquidator from start to exit (\<open>run\<close> of \<open>paper.rs\<close>, \<open>probe.rs\<close>, \<open>simulate.rs\<close>,
  \<open>idl_dump.rs\<close> and \<open>disc_probe.rs\<close>, and \<open>main.rs\<close>). The Solana SDK's messages and the answers of the RPC
  node, one record per URL, are parameters. What a mode logs is returned as a value; texts are left out.
\<close>

section \<open>Transactions\<close>

text \<open>A message of the SDK, in its two versions; the code builds legacy ones only.\<close>

datatype 'm versioned = Legacy 'm | V0 'm

record 'm transaction =
  tx_signatures :: "bytes list"
  tx_message :: "'m versioned"

record ('pk, 'm, 'hash) message_api =
  message_new :: "'pk instruction list \<Rightarrow> 'pk \<Rightarrow> 'm" \<comment> \<open>\<open>Message::new(ixs, Some(&payer))\<close>\<close>
  num_required_signatures :: "'m \<Rightarrow> nat"
  recent_blockhash_set :: "'hash \<Rightarrow> 'm \<Rightarrow> 'm"

definition default_signature :: bytes where
  "default_signature = replicate 64 0"

text \<open>The struct literal: an unsigned legacy transaction.\<close>

definition unsigned_tx :: "('pk, 'm, 'hash) message_api \<Rightarrow> 'm \<Rightarrow> 'm transaction" where
  "unsigned_tx ma msg =
     \<lparr>tx_signatures = replicate (num_required_signatures ma msg) default_signature, tx_message = Legacy msg\<rparr>"

definition set_blockhash :: "('pk, 'm, 'hash) message_api \<Rightarrow> 'm transaction \<Rightarrow> 'hash \<Rightarrow> 'm transaction" where
  "set_blockhash ma tx hash =
     (case tx_message tx of
        Legacy m \<Rightarrow> tx\<lparr>tx_message := Legacy (recent_blockhash_set ma hash m)\<rparr>
      | V0 m \<Rightarrow> tx\<lparr>tx_message := V0 (recent_blockhash_set ma hash m)\<rparr>)"

lemma set_blockhash_unsigned:
  "set_blockhash ma (unsigned_tx ma msg) hash =
     \<lparr>tx_signatures = replicate (num_required_signatures ma msg) (replicate 64 0),
      tx_message = Legacy (recent_blockhash_set ma hash msg)\<rparr>"
  by (simp add: set_blockhash_def unsigned_tx_def default_signature_def)

record sim_config =
  sig_verify :: bool
  replace_recent_blockhash :: bool

record sim_value =
  sv_err :: "string option" \<comment> \<open>the error, as its \<open>Debug\<close> text\<close>
  sv_units :: "nat option"
  sv_logs :: "string list option"

section \<open>What the modes depend on\<close>

record ('pk, 'm, 'hash) rpc_client =
  rc_get_account :: "'pk \<Rightarrow> bytes option"
  rc_program_accounts :: "user_filter list \<Rightarrow> ('pk \<times> bytes) list option"
  rc_latest_blockhash :: "'hash option"
  rc_simulate :: "'m transaction \<Rightarrow> sim_config \<Rightarrow> sim_value option"

record ('pk, 'm, 'hash) liq_host =
  lh_host :: host
  lh_rpc :: "string \<Rightarrow> ('pk, 'm, 'hash) rpc_client" \<comment> \<open>\<open>RpcClient::new_with_commitment(url, _)\<close>\<close>
  lh_sdk :: "'pk sdk_api"
  lh_message :: "('pk, 'm, 'hash) message_api"
  lh_new_unique :: 'pk \<comment> \<open>\<open>Pubkey::new_unique()\<close>\<close>
  lh_with_seed :: "'pk \<Rightarrow> string \<Rightarrow> 'pk option" \<comment> \<open>\<open>Pubkey::create_with_seed(base, seed, &PROGRAM_ID)\<close>\<close>
  lh_perp_market :: "'pk market_account market_decoder"
  lh_spot_market :: "'pk market_account market_decoder"
  lh_user_size :: nat
  lh_user :: "'pk user_decoder"
  lh_inflate :: "bytes \<Rightarrow> bytes option"
  lh_write :: "string \<Rightarrow> bytes \<Rightarrow> bool"
  lh_utf8 :: "bytes \<Rightarrow> bool"
  lh_drift_new :: "(unit, unit) outcome" \<comment> \<open>\<open>DriftClient::new\<close>, which may panic, as the next two may\<close>
  lh_sub_markets :: "(unit, unit) outcome"
  lh_sub_oracles :: "(unit, unit) outcome"

section \<open>simulate\<close>

record ('pk, 'm) sim_report =
  sr_ix :: "'pk instruction"
  sr_tx :: "'m transaction"
  sr_value :: sim_value
  sr_verdict :: sim_verdict

definition simulate_run :: "('pk::linorder, 'm, 'hash) liq_host \<Rightarrow> (simulate_error, ('pk, 'm) sim_report) outcome" where
  "simulate_run h =
     obind (map_fail SimUrl (env_rpc_url (lh_host h))) (\<lambda>rpc_url.
     let rpc = lh_rpc h rpc_url; ma = lh_message h in
     obind (simulate_ix (lh_sdk h) (rc_get_account rpc) (lh_perp_market h) (lh_spot_market h) (lh_user_size h)
              (lh_user h) (rc_program_accounts rpc)) (\<lambda>(ix, liquidator_authority).
     let msg = message_new ma [ix] liquidator_authority;
         tx = unsigned_tx ma msg in
     obind (ok_or Blockhash (rc_latest_blockhash rpc)) (\<lambda>blockhash.
     let tx = set_blockhash ma tx blockhash in
     obind (ok_or SimulateTransaction (rc_simulate rpc tx \<lparr>sig_verify = False, replace_recent_blockhash = True\<rparr>))
       (\<lambda>value.
       Ret \<lparr>sr_ix = ix, sr_tx = tx, sr_value = value,
            sr_verdict = interpret_logs (sv_logs value) (sv_err value = None)\<rparr>))))"

section \<open>disc-probe\<close>

datatype disc_error = DiscUrl url_error | DiscBlockhash

text \<open>\<open>{:?}\<close> of the optional error.\<close>

definition debug_err :: "string option \<Rightarrow> string" where
  "debug_err err = (case err of None \<Rightarrow> ''None'' | Some e \<Rightarrow> ''Some('' @ e @ '')'')"

definition probe_tx :: "('pk, 'm, 'hash) message_api \<Rightarrow> 'pk instruction \<Rightarrow> 'pk \<Rightarrow> 'hash \<Rightarrow> 'm transaction" where
  "probe_tx ma ix payer blockhash =
     (let tx = unsigned_tx ma (message_new ma [ix] payer)
      in case tx_message tx of
           Legacy m \<Rightarrow> tx\<lparr>tx_message := Legacy (recent_blockhash_set ma blockhash m)\<rparr>
         | V0 m \<Rightarrow> tx)"

definition probe_one ::
  "('pk, 'm, 'hash) liq_host \<Rightarrow> ('pk, 'm, 'hash) rpc_client \<Rightarrow> 'pk \<Rightarrow> 'hash \<Rightarrow> 'pk instruction
     \<Rightarrow> (string list option \<times> string) option" where
  "probe_one h rpc payer blockhash ix =
     map_option (\<lambda>value. (sv_logs value, debug_err (sv_err value)))
       (rc_simulate rpc (probe_tx (lh_message h) ix payer blockhash)
          \<lparr>sig_verify = False, replace_recent_blockhash = True\<rparr>)"

definition disc_probe_run :: "('pk, 'm, 'hash) liq_host \<Rightarrow> (disc_error, (string \<times> string option) list) outcome" where
  "disc_probe_run h =
     obind (map_fail DiscUrl (env_rpc_url (lh_host h))) (\<lambda>rpc_url.
     let rpc = lh_rpc h rpc_url in
     obind (ok_or DiscBlockhash (rc_latest_blockhash rpc)) (\<lambda>blockhash.
       Ret (probe_all (lh_sdk h) (probe_one h rpc (lh_new_unique h) blockhash))))"

section \<open>probe\<close>

datatype probe_run_error = ProbeUrl url_error | ProbeMarket probe_error

definition probe_run ::
  "('pk, 'm, 'hash) liq_host \<Rightarrow> (probe_run_error, 'pk market_account \<times> 'pk market_account list) outcome" where
  "probe_run h =
     obind (map_fail ProbeUrl (env_rpc_url (lh_host h))) (\<lambda>rpc_url.
       map_fail ProbeMarket
         (probe_markets (lh_sdk h) (rc_get_account (lh_rpc h rpc_url)) (lh_perp_market h) (lh_spot_market h)))"

section \<open>idl-dump\<close>

datatype idl_run_error = IdlUrl url_error | IdlError idl_error

definition idl_dump_run :: "('pk, 'm, 'hash) liq_host \<Rightarrow> (idl_run_error, (nat \<times> bytes) option list) outcome" where
  "idl_dump_run h =
     obind (map_fail IdlUrl (env_rpc_url (lh_host h))) (\<lambda>rpc_url.
     let base = find_pda (lh_sdk h) [];
         idl_account = lh_with_seed h base ''anchor:idl''
     in map_fail IdlError
          (idl_dump idl_account (rc_get_account (lh_rpc h rpc_url)) (lh_inflate h)
             (lh_write h ''/tmp/drift_onchain.json'') (lh_utf8 h)))"

section \<open>paper\<close>

datatype paper_error = PaperUrl url_error | DriftNew | SubscribeMarkets | SubscribeOracles | ScanUsers

text \<open>The redacted URL of the first line, and the report.\<close>

definition paper_main ::
  "('pk, 'm, 'hash) liq_host \<Rightarrow> string list \<Rightarrow> (paper_error, string \<times> 'pk liq_candidate list \<times> nat \<times> nat) outcome" where
  "paper_main h args =
     obind (map_fail PaperUrl (env_rpc_url (lh_host h))) (\<lambda>rpc_url.
     obind (map_fail (\<lambda>_. DriftNew) (lh_drift_new h)) (\<lambda>_.
     obind (map_fail (\<lambda>_. SubscribeMarkets) (lh_sub_markets h)) (\<lambda>_.
     obind (map_fail (\<lambda>_. SubscribeOracles) (lh_sub_oracles h)) (\<lambda>_.
     obind (map_fail (\<lambda>_. ScanUsers)
              (paper_run (lh_user_size h) (lh_user h) (rc_program_accounts (lh_rpc h rpc_url))
                 (if 2 < length args then Some (args ! 2) else None))) (\<lambda>report.
       Ret (redact_url rpc_url, report))))))"

section \<open>main\<close>

datatype ('pk, 'm) liq_report =
    PaperDone string "'pk liq_candidate list" nat nat
  | ProbeDone "'pk market_account" "'pk market_account list"
  | SimulateDone "('pk, 'm) sim_report"
  | IdlDone "(nat \<times> bytes) option list"
  | DiscDone "(string \<times> string option) list"
  | UnknownMode string

datatype liq_error =
    PaperError paper_error
  | ProbeError probe_run_error
  | SimulateError simulate_error
  | IdlDumpError idl_run_error
  | DiscError disc_error

definition liq_main :: "('pk::linorder, 'm, 'hash) liq_host \<Rightarrow> string list \<Rightarrow> (liq_error, ('pk, 'm) liq_report) outcome" where
  "liq_main h args =
     (case mode_of (if 1 < length args then Some (args ! 1) else None) of
        ModePaper \<Rightarrow> obind (map_fail PaperError (paper_main h args)) (\<lambda>(u, shown, n, t). Ret (PaperDone u shown n t))
      | ModeProbe \<Rightarrow> obind (map_fail ProbeError (probe_run h)) (\<lambda>(p, ss). Ret (ProbeDone p ss))
      | ModeSimulate \<Rightarrow> obind (map_fail SimulateError (simulate_run h)) (\<lambda>r. Ret (SimulateDone r))
      | ModeIdlDump \<Rightarrow> obind (map_fail IdlDumpError (idl_dump_run h)) (\<lambda>r. Ret (IdlDone r))
      | ModeDiscProbe \<Rightarrow> obind (map_fail DiscError (disc_probe_run h)) (\<lambda>r. Ret (DiscDone r))
      | ModeUnknown m \<Rightarrow> Ret (UnknownMode m))"

text \<open>The exit status of a \<open>main\<close> that returns a \<open>Result\<close>.\<close>

fun liq_status :: "('e, 'a) outcome \<Rightarrow> nat" where
  "liq_status (Ret x) = 0"
| "liq_status (Fail e) = 1"
| "liq_status Panic = 101"

section \<open>Where the modes can panic\<close>

lemma expect_Panic: "expect m = Panic \<longleftrightarrow> (\<forall>x. m \<noteq> Ret x)"
  by (cases m) auto

lemma expect_Ret: "expect m = Ret x \<longleftrightarrow> m = Ret x"
  by (cases m) auto

text \<open>The user a simulation picks needs a market that was not loaded.\<close>

definition lacks_market :: "('pk::linorder, 'm, 'hash) liq_host \<Rightarrow> ('pk, 'm, 'hash) rpc_client \<Rightarrow> bool" where
  "lacks_market h rpc \<longleftrightarrow>
     (\<exists>m accounts pk u. load (lh_sdk h) (rc_get_account rpc) (lh_perp_market h) (lh_spot_market h) = Ret m
        \<and> rc_program_accounts rpc [UserFilter, UserWithOrderFilter] = Some accounts
        \<and> pick_candidate (lh_user_size h) (lh_user h) accounts = Some (pk, u)
        \<and> \<not> all_cached m (insert 0 (set (active (u_spots u)))) (set (active (u_perps u))))"

lemma picked_active: "pick_candidate us decode accounts = Some (pk, u) \<Longrightarrow> active (u_perps u) \<noteq> []"
  by (drule pick_Some) (elim exE conjE, rule usable_active)

lemma self_liquidation_eq:
  assumes "active (u_perps u) \<noteq> []"
  shows "(\<exists>ix. self_liquidation sdk m pk u = Ret ix)
     \<longleftrightarrow> all_cached m (insert 0 (set (active (u_spots u)))) (set (active (u_perps u)))"
    "self_liquidation sdk m pk u \<noteq> Fail e"
proof -
  have "needed_perps (user.truncate u) (user.truncate u) (hd (active (u_perps u))) = set (active (u_perps u))"
    "needed_spots (user.truncate u) (user.truncate u) = insert 0 (set (active (u_spots u)))"
    using assms by (auto simp: needed_perps_def needed_spots_def)
  then show "(\<exists>ix. self_liquidation sdk m pk u = Ret ix)
     \<longleftrightarrow> all_cached m (insert 0 (set (active (u_spots u)))) (set (active (u_perps u)))"
    "self_liquidation sdk m pk u \<noteq> Fail e"
    by (simp_all add: self_liquidation_def build_ix_eq)
qed

lemma simulate_ix_panics:
  "simulate_ix (lh_sdk h) (rc_get_account rpc) (lh_perp_market h) (lh_spot_market h) (lh_user_size h)
     (lh_user h) (rc_program_accounts rpc) = Panic \<longleftrightarrow>
   load_panics (lh_sdk h) (rc_get_account rpc) (lh_perp_market h) (lh_spot_market h) \<or> lacks_market h rpc"
  (is "?ix = Panic \<longleftrightarrow> ?load \<or> _")
proof (cases "load (lh_sdk h) (rc_get_account rpc) (lh_perp_market h) (lh_spot_market h)")
  case (Ret m)
  then have quiet: "\<not> ?load" by (simp flip: load_Panic)
  show ?thesis
  proof (cases "rc_program_accounts rpc [UserFilter, UserWithOrderFilter]")
    case (Some accounts)
    note ix = simulate_ix_eq [of "lh_sdk h" "rc_get_account rpc" "lh_perp_market h" "lh_spot_market h" m
        "rc_program_accounts rpc" accounts "lh_user_size h" "lh_user h", OF Ret Some]
    show ?thesis
    proof (cases "pick_candidate (lh_user_size h) (lh_user h) accounts")
      case None
      then show ?thesis using quiet by (simp add: ix lacks_market_def Some Ret)
    next
      case pick: (Some c)
      obtain pk u where c: "c = (pk, u)" by fastforce
      have "?ix = Panic \<longleftrightarrow> \<not> (\<exists>ix. self_liquidation (lh_sdk h) m pk u = Ret ix)"
        by (simp add: ix pick c obind_eq_Panic expect_Panic)
      also have "\<dots> \<longleftrightarrow> lacks_market h rpc"
        using self_liquidation_eq(1) [OF picked_active [OF pick [unfolded c]]]
        by (simp add: lacks_market_def Some Ret pick c)
      finally show ?thesis using quiet by simp
    qed
  qed (use quiet in \<open>simp add: simulate_ix_def Ret lacks_market_def\<close>)
qed (simp_all add: simulate_ix_def lacks_market_def flip: load_Panic)

lemma simulate_run_panics:
  "simulate_run h = Panic \<longleftrightarrow> (\<exists>url. env_rpc_url (lh_host h) = Ret url
     \<and> (load_panics (lh_sdk h) (rc_get_account (lh_rpc h url)) (lh_perp_market h) (lh_spot_market h)
        \<or> lacks_market h (lh_rpc h url)))"
  by (auto simp: simulate_run_def Let_def obind_eq_Panic map_fail_Panic map_fail_Ret_iff simulate_ix_panics
      split: prod.splits)

text \<open>The end of a snippet falls inside a character.\<close>

definition cuts_character :: "nat \<Rightarrow> string \<Rightarrow> bytes \<Rightarrow> bool" where
  "cuts_character n name s \<longleftrightarrow>
     (\<exists>i. str_find (map of_char name) s = Some i \<and> \<not> char_boundary s (min (i + n) (length s)))"

lemma snippet_panics:
  assumes "of_char c AND (0xC0 :: byte) \<noteq> 0x80"
  shows "snippet n (map of_char (c # cs)) s = Panic \<longleftrightarrow> cuts_character n (c # cs) s"
proof (cases "str_find (map of_char (c # cs)) s")
  case (Some i)
  from str_find_append [OF Some] obtain a b where s: "s = a @ map of_char (c # cs) @ b" "length a = i" by blast
  then have "s ! i = of_char c" "i < length s" by (simp_all add: nth_append)
  with assms have "char_boundary s i" by (simp add: char_boundary_def)
  with Some \<open>i < length s\<close> show ?thesis
    by (auto simp: snippet_def cuts_character_def obind_eq_Panic str_slice_def)
qed (simp add: snippet_def cuts_character_def)

definition spaced_name :: string where "spaced_name = ''\"name\": \"liquidatePerp\"''"
definition tight_name :: string where "tight_name = ''\"name\":\"liquidatePerp\"''"

text \<open>Where the report on the decompressed text \<open>s\<close> cuts a snippet through a character.\<close>

definition report_cuts :: "bytes \<Rightarrow> bool" where
  "report_cuts s \<longleftrightarrow>
     (if str_contains (map of_char spaced_name) s then cuts_character 600 spaced_name s
      else if str_contains (map of_char tight_name) s then cuts_character 600 tight_name s
      else cuts_character 80 ''liquidate'' s \<or> cuts_character 80 ''Liquidate'' s)"

lemma snippets_panic:
  "snippet n (map of_char spaced_name) s = Panic \<longleftrightarrow> cuts_character n spaced_name s"
  "snippet n (map of_char tight_name) s = Panic \<longleftrightarrow> cuts_character n tight_name s"
  "snippet n (map of_char ''liquidate'') s = Panic \<longleftrightarrow> cuts_character n ''liquidate'' s"
  "snippet n (map of_char ''Liquidate'') s = Panic \<longleftrightarrow> cuts_character n ''Liquidate'' s"
  unfolding spaced_name_def tight_name_def by (rule snippet_panics, simp)+

lemma snippet_quiet: "snippet n name s \<noteq> Fail e"
  by (simp add: snippet_def str_slice_def split: option.split)

lemma idl_report_panics: "idl_report utf8_ok j = Panic \<longleftrightarrow> report_cuts (if utf8_ok j then j else [])"
proof -
  let ?s = "if utf8_ok j then j else []"
  have two: "omap (\<lambda>name. snippet 80 (map of_char name) s) [''liquidate'', ''Liquidate''] = Panic
      \<longleftrightarrow> snippet 80 (map of_char ''liquidate'') s = Panic \<or> snippet 80 (map of_char ''Liquidate'') s = Panic" for s
    using snippet_quiet [of 80 "map of_char ''liquidate''" s]
    by (cases "snippet 80 (map of_char ''liquidate'') s") (simp_all add: obind_eq_Panic)
  have "idl_report utf8_ok j =
      (case (case str_find (map of_char spaced_name) ?s of Some i \<Rightarrow> Some (map of_char spaced_name)
             | None \<Rightarrow> (case str_find (map of_char tight_name) ?s of Some i \<Rightarrow> Some (map of_char tight_name) | None \<Rightarrow> None)) of
         Some name \<Rightarrow> obind (snippet 600 name ?s) (\<lambda>r. Ret [r])
       | None \<Rightarrow> omap (\<lambda>name. snippet 80 (map of_char name) ?s) [''liquidate'', ''Liquidate''])"
    unfolding idl_report_def Let_def spaced_name_def tight_name_def by (rule refl)
  then show ?thesis
    unfolding report_cuts_def str_contains_def snippets_panic [symmetric] two [symmetric]
    by (simp only: obind_eq_Panic split: option.split) auto
qed

lemma idl_payload_panics:
  "idl_payload d = Panic \<longleftrightarrow> 44 \<le> length d \<and> length d < 44 + unat (from_le_bytes (slice 40 44 d) :: u32)"
  by (auto simp: idl_payload_def rslice_def Let_def)

text \<open>The length field lies, or a snippet is cut through a character.\<close>

definition idl_traps :: "('pk, 'm, 'hash) liq_host \<Rightarrow> ('pk, 'm, 'hash) rpc_client \<Rightarrow> bool" where
  "idl_traps h rpc \<longleftrightarrow>
     (\<exists>pk d. lh_with_seed h (find_pda (lh_sdk h) []) ''anchor:idl'' = Some pk \<and> rc_get_account rpc pk = Some d
        \<and> 44 \<le> length d
        \<and> (let n = unat (from_le_bytes (slice 40 44 d) :: u32)
           in length d < 44 + n
            \<or> (\<exists>j. lh_inflate h (take n (drop 44 d)) = Some j \<and> lh_write h ''/tmp/drift_onchain.json'' j
                 \<and> report_cuts (if lh_utf8 h j then j else []))))"

lemma idl_dump_run_panics:
  "idl_dump_run h = Panic \<longleftrightarrow> (\<exists>url. env_rpc_url (lh_host h) = Ret url \<and> idl_traps h (lh_rpc h url))"
proof -
  have payload: "idl_payload d = Ret p \<longleftrightarrow> 44 \<le> length d
      \<and> 44 + unat (from_le_bytes (slice 40 44 d) :: u32) \<le> length d
      \<and> p = take (unat (from_le_bytes (slice 40 44 d) :: u32)) (drop 44 d)" for d p
    by (auto simp: idl_payload_def rslice_def Let_def slice_def)
  have "idl_dump w ga inflate write_ok utf8_ok = Panic \<longleftrightarrow>
      (\<exists>pk d. w = Some pk \<and> ga pk = Some d \<and> (idl_payload d = Panic
         \<or> (\<exists>p j. idl_payload d = Ret p \<and> inflate p = Some j \<and> write_ok j \<and> idl_report utf8_ok j = Panic)))"
    for w and ga :: "'a \<Rightarrow> bytes option" and inflate write_ok utf8_ok
    by (auto simp: idl_dump_def obind_eq_Panic ok_or_eq_Ret split: if_splits)
  then show ?thesis
    by (auto simp: idl_dump_run_def idl_traps_def Let_def obind_eq_Panic map_fail_Panic map_fail_Ret_iff
        idl_payload_panics payload idl_report_panics not_less)
qed

text \<open>The Drift client of \<open>paper\<close>: a call panics, the earlier ones having succeeded.\<close>

definition drift_panics :: "('pk, 'm, 'hash) liq_host \<Rightarrow> bool" where
  "drift_panics h \<longleftrightarrow> lh_drift_new h = Panic
     \<or> lh_drift_new h = Ret () \<and> (lh_sub_markets h = Panic
          \<or> lh_sub_markets h = Ret () \<and> lh_sub_oracles h = Panic)"

lemma paper_main_panics:
  "paper_main h args = Panic \<longleftrightarrow> (\<exists>url. env_rpc_url (lh_host h) = Ret url \<and> drift_panics h)"
proof -
  have "paper_run us decode ga arg \<noteq> Panic" for us decode arg
    and ga :: "user_filter list \<Rightarrow> ('a \<times> bytes) list option"
    by (auto simp: paper_run_def scan_users_def Let_def obind_eq_Panic split: prod.splits)
  then show ?thesis
    by (auto simp: paper_main_def drift_panics_def obind_eq_Panic map_fail_Panic map_fail_Ret_iff)
qed

lemma probe_run_panics:
  "probe_run h = Panic \<longleftrightarrow> (\<exists>url. env_rpc_url (lh_host h) = Ret url
     \<and> probe_panics (lh_sdk h) (rc_get_account (lh_rpc h url)) (lh_perp_market h) (lh_spot_market h))"
  by (simp add: probe_run_def obind_eq_Panic map_fail_Panic map_fail_Ret_iff probe_markets_Panic)

lemma disc_probe_quiet: "disc_probe_run h \<noteq> Panic"
  by (auto simp: disc_probe_run_def Let_def obind_eq_Panic map_fail_Panic)

lemma mode_cases:
  "mode_of arg = ModePaper \<longleftrightarrow> (case arg of None \<Rightarrow> True | Some m \<Rightarrow> m = ''paper'')"
  "mode_of arg = ModeProbe \<longleftrightarrow> arg = Some ''probe''"
  "mode_of arg = ModeSimulate \<longleftrightarrow> arg = Some ''simulate''"
  "mode_of arg = ModeIdlDump \<longleftrightarrow> arg = Some ''idl-dump''"
  by (cases arg; auto simp: mode_of_def)+

lemma verdict_correct:
  "interpret_logs logs err_is_none = IxCorrect \<longleftrightarrow>
     (\<exists>ls line a b sig. logs = Some ls \<and> line \<in> set ls \<and> sig \<in> set success_signals \<and> line = a @ sig @ b)"
  by (cases logs) (auto simp: interpret_verdict Let_def split: if_splits)

section \<open>Properties\<close>

text \<open>
  C20: When the liquidator panics. Its first argument names the mode, \<open>paper\<close> without one, and a panic needs
  the URL. \<open>paper\<close> panics exactly when a call to the Drift client does; \<open>probe\<close> and \<open>simulate\<close> when drift-rs
  panics on a market account that they decode; \<open>simulate\<close> also when the user it picks needs a market that was
  not loaded; and \<open>idl-dump\<close> when the length field of the IDL account claims more bytes than follow, or a
  snippet of the decompressed text would end inside a character. Every other failure of the node, of an
  account or of a file is an error.
\<close>

theorem liq_panics_iff:
  "liq_main h args = Panic \<longleftrightarrow>
     (\<exists>url mode rpc. env_rpc_url (lh_host h) = Ret url \<and> rpc = lh_rpc h url
       \<and> mode = (if 1 < length args then args ! 1 else ''paper'')
       \<and> (mode = ''paper'' \<and> drift_panics h
          \<or> mode = ''probe'' \<and> probe_panics (lh_sdk h) (rc_get_account rpc) (lh_perp_market h) (lh_spot_market h)
          \<or> mode = ''simulate''
            \<and> (load_panics (lh_sdk h) (rc_get_account rpc) (lh_perp_market h) (lh_spot_market h) \<or> lacks_market h rpc)
          \<or> mode = ''idl-dump'' \<and> idl_traps h rpc))"
proof -
  let ?arg = "if 1 < length args then Some (args ! 1) else None"
  have "liq_main h args = Panic \<longleftrightarrow>
      mode_of ?arg = ModePaper \<and> paper_main h args = Panic
      \<or> mode_of ?arg = ModeProbe \<and> probe_run h = Panic
      \<or> mode_of ?arg = ModeSimulate \<and> simulate_run h = Panic
      \<or> mode_of ?arg = ModeIdlDump \<and> idl_dump_run h = Panic"
    using disc_probe_quiet [of h]
    by (cases "mode_of ?arg") (auto simp: liq_main_def obind_eq_Panic map_fail_Panic)
  then show ?thesis
    unfolding paper_main_panics probe_run_panics simulate_run_panics idl_dump_run_panics mode_cases
    by (cases "1 < length args") auto
qed

text \<open>
  C19: What a simulation sends. When \<open>simulate\<close> returns, the one transaction it sent to the simulator is a
  legacy transaction with the fetched blockhash, paid by the picked user's authority, whose only
  instruction liquidates that user's first open perp market; all its signatures are blank, and their
  verification is off. The verdict says that the instruction is correct exactly when a line of the
  simulator's log contains one of the success signals.
\<close>

theorem simulation_sent:
  assumes "simulate_run h = Ret r"
  shows "\<exists>url rpc m accounts pk u hash msg. env_rpc_url (lh_host h) = Ret url \<and> rpc = lh_rpc h url
     \<and> load (lh_sdk h) (rc_get_account rpc) (lh_perp_market h) (lh_spot_market h) = Ret m
     \<and> rc_program_accounts rpc [UserFilter, UserWithOrderFilter] = Some accounts
     \<and> pick_candidate (lh_user_size h) (lh_user h) accounts = Some (pk, u)
     \<and> self_liquidation (lh_sdk h) m pk u = Ret (sr_ix r)
     \<and> rc_latest_blockhash rpc = Some hash
     \<and> msg = message_new (lh_message h) [sr_ix r] (u_authority u)
     \<and> sr_tx r = \<lparr>tx_signatures = replicate (num_required_signatures (lh_message h) msg) (replicate 64 0),
                   tx_message = Legacy (recent_blockhash_set (lh_message h) hash msg)\<rparr>
     \<and> rc_simulate rpc (sr_tx r) \<lparr>sig_verify = False, replace_recent_blockhash = True\<rparr> = Some (sr_value r)
     \<and> (sr_verdict r = IxCorrect \<longleftrightarrow>
          (\<exists>ls line a b sig. sv_logs (sr_value r) = Some ls \<and> line \<in> set ls \<and> sig \<in> set success_signals
             \<and> line = a @ sig @ b))"
proof -
  from assms obtain url ix payer hash where url: "env_rpc_url (lh_host h) = Ret url"
    and ix: "simulate_ix (lh_sdk h) (rc_get_account (lh_rpc h url)) (lh_perp_market h) (lh_spot_market h)
        (lh_user_size h) (lh_user h) (rc_program_accounts (lh_rpc h url)) = Ret (ix, payer)"
    and hash: "rc_latest_blockhash (lh_rpc h url) = Some hash"
    and r: "sr_ix r = ix" "sr_tx r = set_blockhash (lh_message h)
        (unsigned_tx (lh_message h) (message_new (lh_message h) [ix] payer)) hash"
      "rc_simulate (lh_rpc h url) (sr_tx r) \<lparr>sig_verify = False, replace_recent_blockhash = True\<rparr> = Some (sr_value r)"
      "sr_verdict r = interpret_logs (sv_logs (sr_value r)) (sv_err (sr_value r) = None)"
    by (auto simp: simulate_run_def Let_def obind_eq_Ret map_fail_Ret_iff ok_or_eq_Ret split: prod.splits)
  from ix obtain m accounts where m: "load (lh_sdk h) (rc_get_account (lh_rpc h url)) (lh_perp_market h) (lh_spot_market h) = Ret m"
    and accounts: "rc_program_accounts (lh_rpc h url) [UserFilter, UserWithOrderFilter] = Some accounts"
    by (auto simp: simulate_ix_def obind_eq_Ret map_fail_Ret_iff ok_or_eq_Ret)
  note eq = simulate_ix_eq [of "lh_sdk h" "rc_get_account (lh_rpc h url)" "lh_perp_market h" "lh_spot_market h" m
      "rc_program_accounts (lh_rpc h url)" accounts "lh_user_size h" "lh_user h", OF m accounts]
  obtain pk u where pick: "pick_candidate (lh_user_size h) (lh_user h) accounts = Some (pk, u)"
    and built: "self_liquidation (lh_sdk h) m pk u = Ret ix" "payer = u_authority u"
    using ix by (auto simp: eq expect_Ret obind_eq_Ret split: option.splits)
  from r(2) built(2) have "sr_tx r = \<lparr>tx_signatures = replicate (num_required_signatures (lh_message h)
        (message_new (lh_message h) [ix] (u_authority u))) (replicate 64 0),
      tx_message = Legacy (recent_blockhash_set (lh_message h) hash (message_new (lh_message h) [ix] (u_authority u)))\<rparr>"
    by (simp add: set_blockhash_unsigned)
  then show ?thesis using url m accounts pick built hash r by (auto simp: verdict_correct)
qed

section \<open>A concrete simulation\<close>

definition sample_liq :: "(nat, nat instruction list \<times> nat \<times> nat, nat) liq_host" where
  "sample_liq =
     \<lparr>lh_host = \<lparr>env_var = (\<lambda>_. Some ''http://x''), read_to_string = (\<lambda>_. None)\<rparr>,
      lh_rpc = (\<lambda>_. \<lparr>rc_get_account = toy_accounts_of, rc_program_accounts = (\<lambda>_. Some sample_accounts),
         rc_latest_blockhash = Some 99,
         rc_simulate = (\<lambda>tx c. Some \<lparr>sv_err = Some ''Custom'', sv_units = None,
           sv_logs = Some [''Program log: SufficientCollateral'']\<rparr>)\<rparr>),
      lh_sdk = toy_sdk,
      lh_message = \<lparr>message_new = (\<lambda>ixs p. (ixs, p, 0)), num_required_signatures = (\<lambda>_. 1),
         recent_blockhash_set = (\<lambda>b (ixs, p, _). (ixs, p, b))\<rparr>,
      lh_new_unique = 5, lh_with_seed = (\<lambda>_ _. None), lh_perp_market = toy_decode, lh_spot_market = toy_decode,
      lh_user_size = 0, lh_user = sample_user_decoder, lh_inflate = (\<lambda>_. None), lh_write = (\<lambda>_ _. True),
      lh_utf8 = (\<lambda>_. True), lh_drift_new = Ret (), lh_sub_markets = Ret (), lh_sub_oracles = Ret ()\<rparr>"

lemma sample_pick: "pick_candidate 0 sample_user_decoder sample_accounts = Some (10, sample_drift_user 1)"
  by (simp add: sample_accounts_def sample_user_decoder_def sample_drift_user_def)

lemma sample_authority: "u_authority (sample_drift_user 1) = 1"
  by (simp add: sample_drift_user_def)

lemma sample_liq_fields:
  "lh_sdk sample_liq = toy_sdk" "lh_perp_market sample_liq = toy_decode" "lh_spot_market sample_liq = toy_decode"
  "lh_user_size sample_liq = 0" "lh_user sample_liq = sample_user_decoder"
  "rc_get_account (lh_rpc sample_liq url) = toy_accounts_of"
  "rc_program_accounts (lh_rpc sample_liq url) fs = Some sample_accounts"
  "rc_latest_blockhash (lh_rpc sample_liq url) = Some 99"
  "message_new (lh_message sample_liq) ixs p = (ixs, p, 0)"
  "num_required_signatures (lh_message sample_liq) msg = 1"
  "recent_blockhash_set (lh_message sample_liq) b (ixs, p, c) = (ixs, p, b)"
  by (simp_all add: sample_liq_def)

lemma sample_liq_built: "\<exists>ix. self_liquidation toy_sdk toy_loaded 10 (sample_drift_user 1) = Ret ix"
  by (subst self_liquidation_eq(1)) (simp_all add: all_cached_def toy_loaded_def sample_drift_user_def active_def)

lemma sample_simulation:
  "\<exists>r. simulate_run sample_liq = Ret r \<and> sr_verdict r = IxCorrect"
proof -
  obtain ix where built: "self_liquidation toy_sdk toy_loaded 10 (sample_drift_user 1) = Ret ix"
    using sample_liq_built by blast
  have "simulate_ix toy_sdk toy_accounts_of toy_decode toy_decode 0 sample_user_decoder (\<lambda>_. Some sample_accounts)
      = Ret (ix, 1)"
    using simulate_ix_eq [of toy_sdk toy_accounts_of toy_decode toy_decode toy_loaded "\<lambda>_. Some sample_accounts"
        sample_accounts 0 sample_user_decoder, OF toy_load refl]
    by (simp only: sample_pick option.case prod.case built expect.simps obind.simps sample_authority)
  moreover have "interpret_logs (Some [''Program log: SufficientCollateral'']) False = IxCorrect"
    by code_simp
  ultimately show ?thesis
    by (simp add: simulate_run_def sample_liq_def env_rpc_url_def Let_def)
qed

theorem simulation_sent_witness:
  "\<exists>r ix. simulate_run sample_liq = Ret r
     \<and> sr_tx r = \<lparr>tx_signatures = [replicate 64 0], tx_message = Legacy ([ix], 1, 99)\<rparr>
     \<and> self_liquidation toy_sdk toy_loaded 10 (sample_drift_user 1) = Ret ix \<and> sr_verdict r = IxCorrect"
proof -
  obtain r where r: "simulate_run sample_liq = Ret r" "sr_verdict r = IxCorrect" using sample_simulation by blast
  from simulation_sent [OF r(1)] show ?thesis
    by (intro exI [of _ r] exI [of _ "sr_ix r"])
      (auto simp: r sample_liq_fields toy_load sample_pick sample_authority [simplified])
qed

end
