(* ===== verification/Cli_Rpc.thy ===== *)
theory Cli_Rpc
  imports Leader Lt_Hash Rpc_Url
begin

text \<open>
  \<open>crates/cli/src/main.rs\<close>, the part that talks to the RPC server: \<open>rpc\<close>, \<open>pubkey_from_b58\<close>,
  \<open>fetch_snapshot\<close>, \<open>fetch_current_slot\<close> and the commands \<open>slot\<close> and \<open>leaders\<close>. A command maps the state
  of the network to a new state, the lines it prints and how it ends: \<open>Ret c\<close> returns the exit code
  \<open>c\<close>, \<open>Fail c\<close> ends it early with \<open>c\<close> (an early \<open>return\<close>, or \<open>std::process::exit(c)\<close>), \<open>Panic\<close> is a
  failed \<open>expect\<close>, index or assertion. \<open>exit_code\<close> is what the caller of the program sees.
  JSON values, the HTTP client, base58 and base64 are parameters.
\<close>

section \<open>The outside\<close>

text \<open>Parameters of a JSON-RPC request: a number, a string, or an object of strings.\<close>

datatype rpc_param = PNum u64 | PStr string | PObj "(string \<times> string) list"

record ('w, 'j) cli_api =
  js :: "'j json_api"
  js_as_u64 :: "'j \<Rightarrow> u64 option"
  js_as_bool :: "'j \<Rightarrow> bool option"
  js_is_null :: "'j \<Rightarrow> bool"
  http_post :: "'w \<Rightarrow> string \<Rightarrow> string \<Rightarrow> rpc_param list \<Rightarrow> 'w \<times> 'j http_reply"
    \<comment> \<open>network state, url, method, params\<close>
  bs58_decode :: "string \<Rightarrow> bytes option"
  base64_decode :: "string \<Rightarrow> bytes option"
  host_of :: host
  sleep :: "'w \<Rightarrow> 'w" \<comment> \<open>the network after \<open>thread::sleep\<close>\<close>

text \<open>What a command prints, with the values that the format strings show.\<close>

datatype 'j cli_line =
    MainnetSlot 'j
  | SlotRange u64 u64 string
  | BadStart string
  | BadCount
  | NotFound string
  | AccountReport string string u64 bool nat "u16 list" bytes
      \<comment> \<open>account, owner, lamports, executable, data size, first limbs, checksum\<close>
  | HomomorphismOk
  | RpcErrorLine 'j

type_synonym ('w, 'j, 'a) cli_io = "'w \<Rightarrow> 'w \<times> 'j cli_line list \<times> (nat, 'a) outcome"

definition SUCCESS :: nat where "SUCCESS = 0"
definition FAILURE :: nat where "FAILURE = 1"

fun exit_code :: "(nat, nat) outcome \<Rightarrow> nat" where
  "exit_code (Ret c) = c"
| "exit_code (Fail c) = c"
| "exit_code Panic = 101"

definition io_ret :: "'a \<Rightarrow> ('w, 'j, 'a) cli_io" where
  "io_ret x w = (w, [], Ret x)"

definition io_lift :: "(nat, 'a) outcome \<Rightarrow> ('w, 'j, 'a) cli_io" where
  "io_lift r w = (w, [], r)"

definition io_print :: "'j cli_line list \<Rightarrow> ('w, 'j, unit) cli_io" where
  "io_print ls w = (w, ls, Ret ())"

definition io_bind :: "('w, 'j, 'a) cli_io \<Rightarrow> ('a \<Rightarrow> ('w, 'j, 'b) cli_io) \<Rightarrow> ('w, 'j, 'b) cli_io" where
  "io_bind m f w =
     (case m w of (w1, ls, r) \<Rightarrow>
       (case r of
          Ret x \<Rightarrow> (case f x w1 of (w2, ls', r') \<Rightarrow> (w2, ls @ ls', r'))
        | Fail c \<Rightarrow> (w1, ls, Fail c)
        | Panic \<Rightarrow> (w1, ls, Panic)))"

section \<open>Calls\<close>

definition rpc ::
  "('w, 'j) cli_api \<Rightarrow> string \<Rightarrow> string \<Rightarrow> rpc_param list \<Rightarrow> ('w, 'j, 'j) cli_io" where
  "rpc api url method params w =
     (let (w', reply) = http_post api w url method params
      in case reply of
           Body resp \<Rightarrow>
             (case j_get (js api) resp ''error'' of
                Some err \<Rightarrow> (w', [RpcErrorLine err], Fail 3)
              | None \<Rightarrow> (w', [], Ret (j_index (js api) resp ''result'')))
         | _ \<Rightarrow> (w', [], Panic))"

definition pubkey_from_b58 :: "('w, 'j) cli_api \<Rightarrow> string \<Rightarrow> ('e, bytes) outcome" where
  "pubkey_from_b58 api s =
     obind (unwrap (bs58_decode api s)) (\<lambda>v. if length v = 32 then Ret v else Panic)"

text \<open>The account fields of the JSON value of \<open>getAccountInfo\<close>.\<close>

record account_snapshot =
  as_slot :: u64
  as_lamports :: u64
  as_data :: bytes
  as_executable :: bool
  as_owner :: bytes
  as_pubkey :: bytes

definition as_for_hash :: "account_snapshot \<Rightarrow> account_for_hash" where
  "as_for_hash s = \<lparr>lamports = as_lamports s, data = as_data s, executable = as_executable s,
                    owner = as_owner s, pubkey = as_pubkey s\<rparr>"

datatype 'j fetch_error =
    FetchTransport
  | FetchParse
  | FetchRpc 'j
  | MissingContextSlot
  | AccountNotFound string
  | MissingLamports
  | MissingOwner
  | MissingExecutable
  | DataNotArray
  | DataNotStr
  | DataBase64
  | MissingSlot

definition account_info_params :: "string \<Rightarrow> string \<Rightarrow> rpc_param list" where
  "account_info_params pk commitment =
     [PStr pk, PObj [(''encoding'', ''base64''), (''commitment'', commitment)]]"

definition decode_snapshot ::
  "('w, 'j) cli_api \<Rightarrow> string \<Rightarrow> 'j \<Rightarrow> ('j fetch_error, account_snapshot) outcome" where
  "decode_snapshot api pubkey_str resp =
     (let J = js api; at = j_index J; result = at resp ''result'' in
      obind (ok_or MissingContextSlot (js_as_u64 api (at (at result ''context'') ''slot''))) (\<lambda>slot.
      let val = at result ''value'' in
      if js_is_null api val then Fail (AccountNotFound pubkey_str)
      else
        obind (ok_or MissingLamports (js_as_u64 api (at val ''lamports''))) (\<lambda>lamports.
        obind (ok_or MissingOwner (j_as_str J (at val ''owner''))) (\<lambda>owner_b58.
        obind (ok_or MissingExecutable (js_as_bool api (at val ''executable''))) (\<lambda>executable.
        obind (ok_or DataNotArray (j_as_array J (at val ''data''))) (\<lambda>data_arr.
        obind (rindex data_arr 0) (\<lambda>data0.
        obind (ok_or DataNotStr (j_as_str J data0)) (\<lambda>data_b64.
        obind (ok_or DataBase64 (base64_decode api data_b64)) (\<lambda>data.
        obind (pubkey_from_b58 api owner_b58) (\<lambda>owner.
        obind (pubkey_from_b58 api pubkey_str) (\<lambda>pubkey.
          Ret \<lparr>as_slot = slot, as_lamports = lamports, as_data = data,
               as_executable = executable, as_owner = owner, as_pubkey = pubkey\<rparr>)))))))))))"

definition fetch_snapshot ::
  "('w, 'j) cli_api \<Rightarrow> string \<Rightarrow> string \<Rightarrow> 'w \<Rightarrow> 'w \<times> ('j fetch_error, account_snapshot) outcome" where
  "fetch_snapshot api url pubkey_str w =
     (let (w', reply) = http_post api w url ''getAccountInfo'' (account_info_params pubkey_str ''confirmed'')
      in (w', case reply of
                TransportError \<Rightarrow> Fail FetchTransport
              | BadJson \<Rightarrow> Fail FetchParse
              | Body resp \<Rightarrow>
                  (case j_get (js api) resp ''error'' of
                     Some err \<Rightarrow> Fail (FetchRpc err)
                   | None \<Rightarrow> decode_snapshot api pubkey_str resp)))"

definition fetch_current_slot ::
  "('w, 'j) cli_api \<Rightarrow> string \<Rightarrow> 'w \<Rightarrow> 'w \<times> ('j fetch_error, u64) outcome" where
  "fetch_current_slot api url w =
     (let (w', reply) = http_post api w url ''getSlot'' [PObj [(''commitment'', ''confirmed'')]]
      in (w', case reply of
                TransportError \<Rightarrow> Fail FetchTransport
              | BadJson \<Rightarrow> Fail FetchParse
              | Body resp \<Rightarrow> ok_or MissingSlot (js_as_u64 api (j_index (js api) resp ''result''))))"

section \<open>The commands slot and leaders\<close>

definition cmd_slot :: "('w, 'j) cli_api \<Rightarrow> ('w, 'j, nat) cli_io" where
  "cmd_slot api =
     io_bind (io_lift (env_url (host_of api))) (\<lambda>url.
     io_bind (rpc api url ''getSlot'' []) (\<lambda>v.
     io_bind (io_print [MainnetSlot v]) (\<lambda>_. io_ret SUCCESS)))"

text \<open>
  The loop of \<open>leaders\<close>: \<open>prev\<close> is the leader of the run that is open, \<open>run_start\<close> its first slot. The
  slots \<open>start + i as u64 - 1\<close> are computed with the profile's overflow behaviour.
\<close>

definition run_end :: "bool \<Rightarrow> u64 \<Rightarrow> nat \<Rightarrow> (nat, u64) outcome" where
  "run_end oc start i = obind (rust_add oc start (word_of_nat i)) (\<lambda>s. rust_sub oc s 1)"

fun leader_runs ::
  "bool \<Rightarrow> ('w, 'j) cli_api \<Rightarrow> u64 \<Rightarrow> nat \<Rightarrow> 'j list \<Rightarrow> string option \<Rightarrow> u64 \<Rightarrow> 'j cli_line list
     \<Rightarrow> 'j cli_line list \<times> (nat, nat \<times> string option \<times> u64) outcome" where
  "leader_runs oc api start i [] prev run_start out = (out, Ret (i, prev, run_start))"
| "leader_runs oc api start i (leader # arr) prev run_start out =
     (case j_as_str (js api) leader of
        None \<Rightarrow> (out, Panic)
      | Some s \<Rightarrow>
          if Some s \<noteq> prev then
            (case (case prev of
                     None \<Rightarrow> Ret []
                   | Some p \<Rightarrow> obind (run_end oc start i) (\<lambda>e. Ret [SlotRange run_start e p])) of
               Ret line \<Rightarrow>
                 (case rust_add oc start (word_of_nat i) of
                    Ret first \<Rightarrow> leader_runs oc api start (Suc i) arr (Some s) first (out @ line)
                  | Fail c \<Rightarrow> (out @ line, Fail c)
                  | Panic \<Rightarrow> (out @ line, Panic))
             | Fail c \<Rightarrow> (out, Fail c)
             | Panic \<Rightarrow> (out, Panic))
          else leader_runs oc api start (Suc i) arr prev run_start out)"

definition print_runs :: "bool \<Rightarrow> ('w, 'j) cli_api \<Rightarrow> u64 \<Rightarrow> 'j list \<Rightarrow> 'j cli_line list \<times> (nat, nat) outcome" where
  "print_runs oc api start arr =
     (case leader_runs oc api start 0 arr None start [] of
        (out, Ret (n, Some p, run_start)) \<Rightarrow>
          (case run_end oc start (length arr) of
             Ret e \<Rightarrow> (out @ [SlotRange run_start e p], Ret SUCCESS)
           | Fail c \<Rightarrow> (out, Fail c)
           | Panic \<Rightarrow> (out, Panic))
      | (out, Ret (n, None, run_start)) \<Rightarrow> (out, Ret SUCCESS)
      | (out, Fail c) \<Rightarrow> (out, Fail c)
      | (out, Panic) \<Rightarrow> (out, Panic))"

definition cmd_leaders :: "bool \<Rightarrow> ('w, 'j) cli_api \<Rightarrow> string \<Rightarrow> string \<Rightarrow> ('w, 'j, nat) cli_io" where
  "cmd_leaders oc api start_str count_str =
     io_bind (io_lift (env_url (host_of api))) (\<lambda>url.
     case parse_u64 start_str of
       None \<Rightarrow> io_bind (io_print [BadStart start_str]) (\<lambda>_. io_ret FAILURE)
     | Some start \<Rightarrow>
         (case parse_u64 count_str of
            None \<Rightarrow> io_bind (io_print [BadCount]) (\<lambda>_. io_ret FAILURE)
          | Some count \<Rightarrow>
              if \<not> (1 \<le> count \<and> count \<le> 5000) then io_bind (io_print [BadCount]) (\<lambda>_. io_ret FAILURE)
              else
                io_bind (rpc api url ''getSlotLeaders'' [PNum start, PNum count]) (\<lambda>v.
                io_bind (io_lift (unwrap (j_as_array (js api) v))) (\<lambda>arr w.
                  case print_runs oc api start arr of (out, r) \<Rightarrow> (w, out, r)))))"

section \<open>What leaders prints\<close>

text \<open>The slots a printed line stands for, each with its leader.\<close>

fun line_slots :: "'j cli_line \<Rightarrow> (nat \<times> string) list" where
  "line_slots (SlotRange a b p) = map (\<lambda>k. (k, p)) [unat a..<Suc (unat b)]"
| "line_slots _ = []"

definition schedule :: "nat \<Rightarrow> string list \<Rightarrow> (nat \<times> string) list" where
  "schedule start names = zip [start..<start + length names] names"

definition expand :: "'j cli_line list \<Rightarrow> (nat \<times> string) list" where
  "expand ls = concat (map line_slots ls)"

lemma expand_append [simp]: "expand (ls @ ms) = expand ls @ expand ms"
  by (simp add: expand_def)

lemma expand_simps [simp]: "expand [] = []" "expand (l # ls) = line_slots l @ expand ls"
  by (simp_all add: expand_def)

fun line_leader :: "'j cli_line \<Rightarrow> string" where
  "line_leader (SlotRange a b p) = p"
| "line_leader _ = []"

lemma schedule_Cons: "schedule n (x # xs) = (n, x) # schedule (Suc n) xs"
  by (simp add: schedule_def upt_conv_Cons del: upt_Suc)

lemma unat_slot_plus:
  fixes start :: u64
  assumes "unat start + i < 2 ^ 64"
  shows "unat (start + word_of_nat i) = unat start + i"
  using assms by (simp add: unat_word_ariths unat_of_nat)

lemma slot_plus_ok: "unat start + i < 2 ^ 64 \<Longrightarrow> rust_add oc start (word_of_nat i :: u64) = Ret (start + word_of_nat i)"
  by (simp add: rust_add_def unat_of_nat)

lemma run_end_ok:
  assumes "unat start + i < 2 ^ 64" and "0 < unat start + i"
  shows "run_end oc start i = Ret (start + word_of_nat i - 1) \<and> Suc (unat (start + word_of_nat i - 1)) = unat start + i"
proof -
  have u: "unat (start + word_of_nat i) = unat start + i" using assms(1) by (rule unat_slot_plus)
  then have "1 \<le> start + word_of_nat i" using assms(2) by (simp add: word_le_nat_alt Suc_le_eq)
  moreover from this have "start + word_of_nat i \<noteq> 0" by auto
  ultimately show ?thesis using assms u
    by (simp add: run_end_def slot_plus_ok rust_sub_def unat_sub not_less)
qed

lemma leader_runs_step:
  assumes "map (j_as_str (js api)) arr = map Some names"
    and "unat start + i + length names < 2 ^ 64" and "i0 < i"
  shows "\<exists>out' p' i1. leader_runs oc api start i arr (Some p) (start + word_of_nat i0) out
             = (out', Ret (i + length names, Some p', start + word_of_nat i1))
     \<and> i1 < i + length names
     \<and> expand out' @ map (\<lambda>k. (k, p')) [unat start + i1..<unat start + i + length names]
         = expand out @ map (\<lambda>k. (k, p)) [unat start + i0..<unat start + i] @ schedule (unat start + i) names
     \<and> map line_leader out' @ [p'] = map line_leader out @ remdups_adj (p # names)"
  using assms
proof (induction arr arbitrary: names i i0 p out)
  case Nil
  then show ?case by (intro exI [of _ out] exI [of _ p] exI [of _ i0]) (simp add: schedule_def)
next
  case (Cons leader arr)
  from Cons.prems(1) obtain q qs where names: "names = q # qs"
    "j_as_str (js api) leader = Some q" "map (j_as_str (js api)) arr = map Some qs" by auto
  have b: "unat start + Suc i + length qs < 2 ^ 64" and i: "unat start + i < 2 ^ 64" using Cons.prems(2) names by simp_all
  have i0: "i0 < Suc i" using Cons.prems(3) by simp
  show ?case
  proof (cases "q = p")
    case True
    obtain out' p' i1 where
      "leader_runs oc api start (Suc i) arr (Some p) (start + word_of_nat i0) out
          = (out', Ret (Suc i + length qs, Some p', start + word_of_nat i1))" "i1 < Suc i + length qs"
      "expand out' @ map (\<lambda>k. (k, p')) [unat start + i1..<unat start + Suc i + length qs]
         = expand out @ map (\<lambda>k. (k, p)) [unat start + i0..<unat start + Suc i] @ schedule (unat start + Suc i) qs"
      "map line_leader out' @ [p'] = map line_leader out @ remdups_adj (p # qs)"
      using Cons.IH [OF names(3) b i0, of p out] by blast
    with True names Cons.prems(3) show ?thesis
      by (intro exI [of _ out'] exI [of _ p'] exI [of _ i1]) (simp add: schedule_Cons)
  next
    case False
    have e: "run_end oc start i = Ret (start + word_of_nat i - 1)"
      "Suc (unat (start + word_of_nat i - 1)) = unat start + i"
      using run_end_ok [OF i] Cons.prems(3) by auto
    have u0: "unat (start + word_of_nat i0) = unat start + i0"
      using unat_slot_plus i Cons.prems(3) by simp
    let ?line = "SlotRange (start + word_of_nat i0) (start + word_of_nat i - 1) p"
    obtain out' p' i1 where
      "leader_runs oc api start (Suc i) arr (Some q) (start + word_of_nat i) (out @ [?line])
          = (out', Ret (Suc i + length qs, Some p', start + word_of_nat i1))" "i1 < Suc i + length qs"
      "expand out' @ map (\<lambda>k. (k, p')) [unat start + i1..<unat start + Suc i + length qs]
         = expand (out @ [?line]) @ map (\<lambda>k. (k, q)) [unat start + i..<unat start + Suc i]
             @ schedule (unat start + Suc i) qs"
      "map line_leader out' @ [p'] = map line_leader (out @ [?line]) @ remdups_adj (q # qs)"
      using Cons.IH [OF names(3) b lessI, of q "out @ [?line]"] by blast
    with False names e u0 show ?thesis
      by (intro exI [of _ out'] exI [of _ p'] exI [of _ i1]) (simp add: schedule_Cons slot_plus_ok [OF i])
  qed
qed

lemma print_runs_ok:
  assumes "map (j_as_str (js api)) arr = map Some names" and "unat start + length names < 2 ^ 64"
  shows "\<exists>out. print_runs oc api start arr = (out, Ret SUCCESS)
     \<and> expand out = schedule (unat start) names \<and> map line_leader out = remdups_adj names"
proof (cases names)
  case Nil
  then show ?thesis using assms by (simp add: print_runs_def schedule_def)
next
  case (Cons q qs)
  then obtain leader arr' where arr: "arr = leader # arr'" "j_as_str (js api) leader = Some q"
    "map (j_as_str (js api)) arr' = map Some qs" using assms(1) by (cases arr) auto
  have len: "length arr' = length qs" using arr(3) by (metis length_map)
  have b: "unat start + 1 + length qs < 2 ^ 64" using assms(2) Cons by simp
  obtain out' p' i1 where
    run: "leader_runs oc api start (Suc 0) arr' (Some q) (start + word_of_nat 0) []
        = (out', Ret (1 + length qs, Some p', start + word_of_nat i1))" and i1: "i1 < 1 + length qs"
    and ex: "expand out' @ map (\<lambda>k. (k, p')) [unat start + i1..<unat start + 1 + length qs]
       = map (\<lambda>k. (k, q)) [unat start..<unat start + 1] @ schedule (unat start + 1) qs"
    and names: "map line_leader out' @ [p'] = remdups_adj (q # qs)"
    using leader_runs_step [OF arr(3) b, of 0 oc q "[]"] by auto
  have e: "run_end oc start (Suc (length qs)) = Ret (start + word_of_nat (Suc (length qs)) - 1)"
    "Suc (unat (start + word_of_nat (Suc (length qs)) - 1)) = unat start + Suc (length qs)"
    using run_end_ok [of start "Suc (length qs)" oc] b by auto
  have u1: "unat (start + word_of_nat i1) = unat start + i1" using unat_slot_plus b i1 by simp
  have "leader_runs oc api start 0 arr None start [] = (out', Ret (1 + length qs, Some p', start + word_of_nat i1))"
    using run arr(1,2) b by (simp add: slot_plus_ok [of start 0, simplified])
  then have "print_runs oc api start arr
      = (out' @ [SlotRange (start + word_of_nat i1) (start + word_of_nat (Suc (length qs)) - 1) p'], Ret SUCCESS)"
    using arr(1) e len by (simp add: print_runs_def del: of_nat_Suc)
  then show ?thesis using ex names Cons e u1 by (simp add: schedule_Cons)
qed

section \<open>A scripted server\<close>

text \<open>Instances of the parameters for the concrete runs: JSON values, and a server that gives a list of replies.\<close>

datatype sample_json =
  JNull | JBool bool | JNum u64 | JText string | JList "sample_json list" | JObj "(string \<times> sample_json) list"

fun sample_get :: "sample_json \<Rightarrow> string \<Rightarrow> sample_json option" where
  "sample_get (JObj kvs) k = map_of kvs k"
| "sample_get _ k = None"

definition sample_json_api :: "sample_json json_api" where
  "sample_json_api =
     \<lparr>j_get = sample_get,
      j_index = (\<lambda>v k. case sample_get v k of Some x \<Rightarrow> x | None \<Rightarrow> JNull),
      j_as_array = (\<lambda>v. case v of JList xs \<Rightarrow> Some xs | _ \<Rightarrow> None),
      j_as_str = (\<lambda>v. case v of JText s \<Rightarrow> Some s | _ \<Rightarrow> None)\<rparr>"

definition scripted_api :: "(sample_json http_reply list, sample_json) cli_api" where
  "scripted_api =
     \<lparr>js = sample_json_api,
      js_as_u64 = (\<lambda>v. case v of JNum n \<Rightarrow> Some n | _ \<Rightarrow> None),
      js_as_bool = (\<lambda>v. case v of JBool b \<Rightarrow> Some b | _ \<Rightarrow> None),
      js_is_null = (\<lambda>v. v = JNull),
      http_post = (\<lambda>w url method params. case w of [] \<Rightarrow> ([], TransportError) | r # rs \<Rightarrow> (rs, r)),
      bs58_decode = (\<lambda>s. Some (replicate 32 (word_of_nat (length s)))),
      base64_decode = (\<lambda>s. Some (map of_char s)),
      host_of = \<lparr>env_var = (\<lambda>_. Some ''http://rpc''), read_to_string = (\<lambda>_. None)\<rparr>,
      sleep = (\<lambda>w. w)\<rparr>"

lemma scripted_simps [simp]:
  "http_post scripted_api (r # rs) url m ps = (rs, r)"
  "env_url (host_of scripted_api) = Ret ''http://rpc''"
  by (simp_all add: scripted_api_def env_url_def)

section \<open>Properties\<close>

text \<open>
  The command \<open>leaders\<close>, when the server answers with the leaders of consecutive slots, prints ranges
  that expand to exactly the answered schedule from the start slot on, one maximal run of equal leaders
  per line, and succeeds.
\<close>

theorem leaders_prints_schedule:
  assumes "env_url (host_of api) = Ret url"
    and "parse_u64 start_str = Some start"
    and "parse_u64 count_str = Some count" and "1 \<le> count" and "count \<le> 5000"
    and "http_post api w url ''getSlotLeaders'' [PNum start, PNum count] = (w', Body resp)"
    and "j_get (js api) resp ''error'' = None"
    and "j_as_array (js api) (j_index (js api) resp ''result'') = Some arr"
    and "map (j_as_str (js api)) arr = map Some names"
    and "unat start + length names < 2 ^ 64"
  shows "\<exists>out. cmd_leaders oc api start_str count_str w = (w', out, Ret SUCCESS)
     \<and> expand out = schedule (unat start) names \<and> map line_leader out = remdups_adj names"
proof -
  obtain out where "print_runs oc api start arr = (out, Ret SUCCESS)"
    "expand out = schedule (unat start) names" "map line_leader out = remdups_adj names"
    using print_runs_ok [OF assms(9,10)] by blast
  with assms(1-8) show ?thesis
    by (auto simp: cmd_leaders_def io_bind_def io_lift_def rpc_def Let_def)
qed

theorem leaders_prints_schedule_witness:
  "\<exists>out. cmd_leaders True scripted_api ''7'' ''5''
       [Body (JObj [(''result'', JList (map JText [''a'', ''a'', ''b'', ''b'', ''a'']))])]
     = ([], out, Ret SUCCESS)
     \<and> expand out = [(7, ''a''), (8, ''a''), (9, ''b''), (10, ''b''), (11, ''a'')]
     \<and> map line_leader out = [''a'', ''b'', ''a'']"
proof -
  let ?names = "[''a'', ''a'', ''b'', ''b'', ''a'']"
  have u: "unat (7 :: u64) = 7" by simp
  have p: "parse_u64 ''7'' = Some 7" "parse_u64 ''5'' = Some 5"
    by (simp_all add: parse_u64_def char_digit_def)
  have "schedule (unat (7 :: u64)) ?names = [(7, ''a''), (8, ''a''), (9, ''b''), (10, ''b''), (11, ''a'')]"
    by (simp add: schedule_def upt_rec_numeral)
  then show ?thesis
    using leaders_prints_schedule [of scripted_api "''http://rpc''" "''7''" 7 "''5''" 5
        "[Body (JObj [(''result'', JList (map JText ?names))])]" "[]"
        "JObj [(''result'', JList (map JText ?names))]" "map JText ?names" ?names True] p u
    by (simp add: scripted_api_def sample_json_api_def env_url_def)
qed

end
