(* ===== verification/Cli_Attest.thy ===== *)
theory Cli_Attest
  imports Cli_Rpc Attest Fec_Set
begin

text \<open>
  The commands of \<open>crates/cli/src/main.rs\<close> about the lattice hash: \<open>hash-account\<close>, \<open>verify-slot\<close> (the
  verifier on a built-in slot) and \<open>rpc-attest\<close> (two snapshots of an account on the live network, the
  difference of their hashes, and the verifier on the truthful and on a tampered transition). The loop
  that polls for a slot may wait forever: it is a \<open>partial_function\<close>, and \<open>None\<close> is "does not return".
  A signing key is its 32-byte seed.
\<close>

section \<open>hash-account\<close>

definition cmd_hash_account ::
  "('w, 'j) cli_api \<Rightarrow> (bytes \<Rightarrow> nat \<Rightarrow> bytes) \<Rightarrow> (bytes \<Rightarrow> bytes) \<Rightarrow> string \<Rightarrow> ('w, 'j, nat) cli_io" where
  "cmd_hash_account api xof b3 pubkey_str =
     (let J = js api; at = j_index J in
      io_bind (io_lift (env_url (host_of api))) (\<lambda>url.
      io_bind (rpc api url ''getAccountInfo'' (account_info_params pubkey_str ''finalized'')) (\<lambda>result.
      let val = at result ''value'' in
      if js_is_null api val then io_bind (io_print [NotFound pubkey_str]) (\<lambda>_. io_ret FAILURE)
      else
        io_bind (io_lift
          (obind (unwrap (js_as_u64 api (at val ''lamports''))) (\<lambda>lamports.
           obind (unwrap (j_as_str J (at val ''owner''))) (\<lambda>owner_b58.
           obind (unwrap (js_as_bool api (at val ''executable''))) (\<lambda>executable.
           obind (unwrap (j_as_array J (at val ''data''))) (\<lambda>data_arr.
           obind (rindex data_arr 0) (\<lambda>data0.
           obind (unwrap (j_as_str J data0)) (\<lambda>data_b64.
           obind (unwrap (base64_decode api data_b64)) (\<lambda>data.
           obind (pubkey_from_b58 api owner_b58) (\<lambda>owner.
           obind (pubkey_from_b58 api pubkey_str) (\<lambda>pubkey.
             Ret (owner_b58, \<lparr>lamports = lamports, data = data, executable = executable,
                  owner = owner, pubkey = pubkey\<rparr>))))))))))))
          (\<lambda>(owner_b58, acct).
        let h = hash_account xof acct; sum = checksum b3 h in
        io_bind (io_print
          [AccountReport pubkey_str owner_b58 (lamports acct) (executable acct) (length (data acct)) (take 8 (limbs h)) sum]) (\<lambda>_.
        let h2 = mix_out (mix_in lt_identity h) h in
        if \<not> is_identity h2 then io_lift Panic
        else io_bind (io_print [HomomorphismOk]) (\<lambda>_. io_ret SUCCESS))))))"

section \<open>verify-slot\<close>

definition a_old :: account_for_hash where
  "a_old = \<lparr>lamports = 1000000, data = map of_char ''alice-old'', executable = False,
            owner = replicate 32 1, pubkey = replicate 32 11\<rparr>"

definition a_new :: account_for_hash where
  "a_new = \<lparr>lamports = 1000500, data = map of_char ''alice-new'', executable = False,
            owner = replicate 32 1, pubkey = replicate 32 11\<rparr>"

definition b_old :: account_for_hash where
  "b_old = \<lparr>lamports = 2000000, data = map of_char ''bob-old'', executable = False,
            owner = replicate 32 2, pubkey = replicate 32 22\<rparr>"

definition b_new :: account_for_hash where
  "b_new = \<lparr>lamports = 2000500, data = map of_char ''bob-new'', executable = False,
            owner = replicate 32 2, pubkey = replicate 32 22\<rparr>"

definition created :: account_for_hash where
  "created = \<lparr>lamports = 5000000, data = map of_char ''newly-created'', executable = False,
              owner = replicate 32 3, pubkey = replicate 32 33\<rparr>"

definition b_new_tampered :: account_for_hash where
  "b_new_tampered = \<lparr>lamports = 2000500, data = map of_char ''BOB-new'', executable = False,
                     owner = replicate 32 2, pubkey = replicate 32 22\<rparr>"

definition demo_transitions :: "account_for_hash \<Rightarrow> account_transition list" where
  "demo_transitions b =
     [\<lparr>t_old = Some a_old, t_new = Some a_new\<rparr>,
      \<lparr>t_old = Some b_old, t_new = Some b\<rparr>,
      \<lparr>t_old = None, t_new = Some created\<rparr>]"

text \<open>What the command prints, with the values shown.\<close>

datatype slot_line =
    AttestedSlot u64 bytes \<comment> \<open>slot and checksum of the delta\<close>
  | TrueSet
  | TamperedSet
  | BadMode
  | SlotVerified
  | SlotMismatch bytes bytes \<comment> \<open>attested, recomputed\<close>
  | SlotError verify_error

definition cmd_verify_slot ::
  "(bytes \<Rightarrow> nat \<Rightarrow> bytes) \<Rightarrow> (bytes \<Rightarrow> bytes) \<Rightarrow> bytes signer_api \<Rightarrow> string \<Rightarrow> slot_line list \<times> (nat, nat) outcome" where
  "cmd_verify_slot xof b3 sg mode =
     (let sd = sd_mix xof (sd_mix xof (sd_mix xof sd_new (Some a_old) (Some a_new))
                 (Some b_old) (Some b_new)) None (Some created);
          leader_pk = sk_public sg (replicate 32 0x21)
      in case from_delta 0x12345678 0 leader_pk (replicate 32 0xab) (replicate 64 0xcd) (delta sd) of
           Panic \<Rightarrow> ([], Panic)
         | Fail c \<Rightarrow> ([], Fail c)
         | Ret attestation \<Rightarrow>
             let out = [AttestedSlot (att_slot attestation) (checksum b3 (delta sd))];
                 verdict = (\<lambda>out transitions.
                   case verify_slot_delta xof b3 attestation transitions of
                     Ret u \<Rightarrow> (out @ [SlotVerified], Ret SUCCESS)
                   | Fail (DeltaMismatch a r) \<Rightarrow> (out @ [SlotMismatch a r], Ret 2)
                   | Fail e \<Rightarrow> (out @ [SlotError e], Ret FAILURE)
                   | Panic \<Rightarrow> (out, Panic))
             in if mode = ''ok'' then verdict (out @ [TrueSet]) (demo_transitions b_new)
                else if mode = ''tamper'' then verdict (out @ [TamperedSet]) (demo_transitions b_new_tampered)
                else (out @ [BadMode], Ret FAILURE))"

section \<open>rpc-attest\<close>

text \<open>What the command prints, in order, with the values shown.\<close>

datatype 'j attest_line =
    BadWait
  | AttestTitle string \<comment> \<open>the account\<close>
  | WaitLine u64 u64 \<comment> \<open>slots and seconds to wait\<close>
  | FetchOld
  | FetchFailed "'j fetch_error"
  | SnapshotLine u64 u64 nat bytes \<comment> \<open>slot, lamports, data size, checksum of the account hash\<close>
  | PollUntil u64 u64 \<comment> \<open>slot of the snapshot, slots to wait\<close>
  | PollAt u64 u64 u64 \<comment> \<open>current slot, target, slots missing\<close>
  | PollFailed "'j fetch_error"
  | PollReached u64
  | FetchNew
  | DeltaLine bytes bool \<comment> \<open>checksum of the delta, whether the account changed\<close>
  | TruthHead
  | TruthVerified
  | TruthMismatch verify_error
  | NoData
  | TamperHead
  | TamperAccepted
  | TamperCaught bytes bytes \<comment> \<open>attested, recomputed\<close>
  | TamperError verify_error

text \<open>
  The polling loop: an error of the poll and the target slot both end it. \<open>out\<close> is what has been printed.
  \<open>target_slot.saturating_sub(s)\<close> is a plain subtraction, as \<open>s\<close> is below the target.
\<close>

partial_function (option) poll_slot ::
  "('w, 'j) cli_api \<Rightarrow> string \<Rightarrow> u64 \<Rightarrow> 'w \<Rightarrow> 'j attest_line list
     \<Rightarrow> ('w \<times> 'j attest_line list \<times> ('j fetch_error, u64) outcome) option" where
  "poll_slot api url target_slot w out =
     (case fetch_current_slot api url w of (w1, r) \<Rightarrow>
       (case r of
          Ret s \<Rightarrow> if target_slot \<le> s then Some (w1, out @ [PollReached s], Ret s)
                    else poll_slot api url target_slot (sleep api w1) (out @ [PollAt s target_slot (target_slot - s)])
        | Fail e \<Rightarrow> Some (w1, out @ [PollFailed e], Fail e)
        | Panic \<Rightarrow> Some (w1, out, Panic)))"

definition snapshot_line ::
  "(bytes \<Rightarrow> nat \<Rightarrow> bytes) \<Rightarrow> (bytes \<Rightarrow> bytes) \<Rightarrow> account_snapshot \<Rightarrow> 'j attest_line" where
  "snapshot_line xof b3 snap =
     SnapshotLine (as_slot snap) (as_lamports snap) (length (as_data snap)) (checksum b3 (hash_account xof (as_for_hash snap)))"

text \<open>From the second snapshot on, nothing depends on the network.\<close>

definition tamper :: "account_snapshot \<Rightarrow> account_for_hash" where
  "tamper snap = (as_for_hash snap)\<lparr>data := (as_data snap)[0 := as_data snap ! 0 XOR 1]\<rparr>"

definition attest_snapshots ::
  "(bytes \<Rightarrow> nat \<Rightarrow> bytes) \<Rightarrow> (bytes \<Rightarrow> bytes) \<Rightarrow> bytes signer_api
     \<Rightarrow> account_snapshot \<Rightarrow> account_snapshot \<Rightarrow> 'j attest_line list \<times> (nat, nat) outcome" where
  "attest_snapshots xof b3 sg snap_old snap_new =
     (let sd = sd_mix xof sd_new (Some (as_for_hash snap_old)) (Some (as_for_hash snap_new));
          changed = (\<not> is_identity (delta sd));
          out = [DeltaLine (checksum b3 (delta sd)) changed];
          leader_pk = sk_public sg (replicate 32 0)
      in case from_delta (as_slot snap_new) 0 leader_pk (replicate 32 0) (replicate 64 0) (delta sd) of
           Panic \<Rightarrow> (out, Panic)
         | Fail c \<Rightarrow> (out, Fail c)
         | Ret attestation \<Rightarrow>
         let out = out @ [TruthHead] in
         (case verify_slot_delta xof b3 attestation
                [\<lparr>t_old = Some (as_for_hash snap_old), t_new = Some (as_for_hash snap_new)\<rparr>] of
           Panic \<Rightarrow> (out, Panic)
         | Fail e \<Rightarrow> (out @ [TruthMismatch e], Ret FAILURE)
         | Ret u \<Rightarrow>
             let out = out @ [TruthVerified] in
             if as_data snap_new = [] then (out @ [NoData], Ret SUCCESS)
             else
               let out = out @ [TamperHead] in
               (case verify_slot_delta xof b3 attestation
                       [\<lparr>t_old = Some (as_for_hash snap_old), t_new = Some (tamper snap_new)\<rparr>] of
                  Ret u \<Rightarrow> (out @ [TamperAccepted], Ret FAILURE)
                | Fail (DeltaMismatch a r) \<Rightarrow> (out @ [TamperCaught a r], Ret SUCCESS)
                | Fail e \<Rightarrow> (out @ [TamperError e], Ret FAILURE)
                | Panic \<Rightarrow> (out, Panic))))"

text \<open>The command: \<open>wait_slots * 400 / 1000\<close> is printed, \<open>snap_old.slot + wait_slots\<close> is the target.\<close>

definition cmd_rpc_attest ::
  "bool \<Rightarrow> ('w, 'j) cli_api \<Rightarrow> (bytes \<Rightarrow> nat \<Rightarrow> bytes) \<Rightarrow> (bytes \<Rightarrow> bytes) \<Rightarrow> bytes signer_api
     \<Rightarrow> string \<Rightarrow> string \<Rightarrow> 'w \<Rightarrow> ('w \<times> 'j attest_line list \<times> (nat, nat) outcome) option" where
  "cmd_rpc_attest oc api xof b3 sg pubkey_str wait_slots_str w =
     (case parse_u64 wait_slots_str of
        None \<Rightarrow> Some (w, [BadWait], Ret FAILURE)
      | Some wait_slots \<Rightarrow>
      if \<not> 1 \<le> wait_slots then Some (w, [BadWait], Ret FAILURE) else
     (case env_url (host_of api) of
        Fail c \<Rightarrow> Some (w, [], Fail c)
      | Panic \<Rightarrow> Some (w, [], Panic)
      | Ret url \<Rightarrow>
     let out = [AttestTitle pubkey_str] in
     (case rust_mul oc wait_slots 400 of
        Fail (e :: unit) \<Rightarrow> Some (w, out, Panic)
      | Panic \<Rightarrow> Some (w, out, Panic)
      | Ret ms \<Rightarrow>
     let out = out @ [WaitLine wait_slots (ms div 1000), FetchOld] in
     (case fetch_snapshot api url pubkey_str w of
        (w1, Fail e) \<Rightarrow> Some (w1, out @ [FetchFailed e], Ret FAILURE)
      | (w1, Panic) \<Rightarrow> Some (w1, out, Panic)
      | (w1, Ret snap_old) \<Rightarrow>
     let out = out @ [snapshot_line xof b3 snap_old, PollUntil (as_slot snap_old) wait_slots] in
     (case rust_add oc (as_slot snap_old) wait_slots of
        Fail (e :: unit) \<Rightarrow> Some (w1, out, Panic)
      | Panic \<Rightarrow> Some (w1, out, Panic)
      | Ret target_slot \<Rightarrow>
     (case poll_slot api url target_slot w1 out of
        None \<Rightarrow> None
      | Some (w2, out, Fail e) \<Rightarrow> Some (w2, out, Ret FAILURE)
      | Some (w2, out, Panic) \<Rightarrow> Some (w2, out, Panic)
      | Some (w2, out, Ret s) \<Rightarrow>
     let out = out @ [FetchNew] in
     (case fetch_snapshot api url pubkey_str w2 of
        (w3, Fail e) \<Rightarrow> Some (w3, out @ [FetchFailed e], Ret FAILURE)
      | (w3, Panic) \<Rightarrow> Some (w3, out, Panic)
      | (w3, Ret snap_new) \<Rightarrow>
          (case attest_snapshots xof b3 sg snap_old snap_new of
             (ls, r) \<Rightarrow> Some (w3, out @ snapshot_line xof b3 snap_new # ls, r)))))))))"

section \<open>The verdicts\<close>

lemma demo_delta:
  "delta (sd_mix xof (sd_mix xof (sd_mix xof sd_new (Some a_old) (Some a_new)) (Some b_old) (Some b_new))
            None (Some created)) = transitions_delta xof (demo_transitions b_new)"
  by (simp add: delta_sd_mix demo_transitions_def transition_delta_def algebra_simps)

lemma verify_own_delta:
  assumes "from_delta s i pk r sg (transitions_delta xof ts) = Ret att" and "\<not> list_ex empty_transition ts"
  shows "verify_slot_delta xof b3 att ts = Ret ()"
  using assms by (simp add: verify_Ret_iff delta_as_lthash_from_delta [OF assms(1)])

text \<open>The difference of two account hashes, and the delta line and verdicts of the second half of \<open>rpc-attest\<close>.\<close>

definition change :: "(bytes \<Rightarrow> nat \<Rightarrow> bytes) \<Rightarrow> account_snapshot \<Rightarrow> account_for_hash \<Rightarrow> lthash" where
  "change xof old a = hash_account xof a - hash_account xof (as_for_hash old)"

lemma attest_snapshots_eq:
  "attest_snapshots xof b3 sg old new =
     (let d = change xof old (as_for_hash new); t = change xof old (tamper new);
          out = [DeltaLine (checksum b3 d) (\<not> is_identity d), TruthHead, TruthVerified]
      in if as_data new = [] then (out @ [NoData], Ret SUCCESS)
         else if hash_account xof (tamper new) = hash_account xof (as_for_hash new)
         then (out @ [TamperHead, TamperAccepted], Ret FAILURE)
         else (out @ [TamperHead, TamperCaught (checksum b3 d) (checksum b3 t)], Ret SUCCESS))"
proof -
  let ?t = "\<lambda>b. [] @ \<lparr>t_old = Some (as_for_hash old), t_new = Some b\<rparr> # []"
  let ?d = "delta (sd_mix xof sd_new (Some (as_for_hash old)) (Some (as_for_hash new)))"
  let ?pk = "sk_public sg (replicate 32 0)"
  obtain att where att: "from_delta (as_slot new) 0 ?pk (replicate 32 0) (replicate 64 0) ?d
      = (Ret att :: (nat, attestation) outcome)"
    by (simp add: from_delta_Ret)
  have sum: "transitions_delta xof (?t b) = change xof old b" for b
    by (simp add: transition_delta_def change_def)
  have d: "?d = transitions_delta xof (?t (as_for_hash new))"
    by (simp add: delta_sd_mix transition_delta_def)
  then have ok: "verify_slot_delta xof b3 att (?t (as_for_hash new)) = Ret ()"
    using att by (intro verify_own_delta [of "as_slot new" 0 ?pk "replicate 32 0" "replicate 64 0"])
      (simp_all add: empty_transition_def from_delta_Ret)
  note tampered = verify_replaced [OF ok, of "tamper new", unfolded sum]
  have d': "?d = change xof old (as_for_hash new)" using d unfolding sum .
  from ok have ok': "verify_slot_delta xof b3 att [\<lparr>t_old = Some (as_for_hash old),
      t_new = Some (as_for_hash new)\<rparr>] = Ret ()" by simp
  show ?thesis
    using tampered unfolding attest_snapshots_def Let_def att by (simp add: ok' d')
qed

lemma xor_one_neq: "(x :: byte) XOR 1 \<noteq> x"
proof
  assume "x XOR 1 = x"
  then have "bit (x XOR 1) 0 = bit x 0" by simp
  then show False by (simp add: bit_xor_iff)
qed

lemma tamper_changes: "as_data s \<noteq> [] \<Longrightarrow> tamper s \<noteq> as_for_hash s"
  by (cases "as_data s") (auto simp: tamper_def as_for_hash_def xor_one_neq)

lemma fetch_snapshot_wf:
  assumes "fetch_snapshot api url pubkey_str w = (w1, Ret s)"
  shows "account_wf (as_for_hash s)"
  using assms
  by (auto simp: fetch_snapshot_def decode_snapshot_def Let_def pubkey_from_b58_def obind_eq_Ret
      account_wf_def as_for_hash_def split: prod.splits http_reply.splits option.splits if_splits)

section \<open>The polling loop\<close>

text \<open>The network before the \<open>n\<close>-th poll, and whether that poll ends the loop.\<close>

primrec before_poll :: "('w, 'j) cli_api \<Rightarrow> string \<Rightarrow> 'w \<Rightarrow> nat \<Rightarrow> 'w" where
  "before_poll api url w 0 = w"
| "before_poll api url w (Suc n) = sleep api (fst (fetch_current_slot api url (before_poll api url w n)))"

definition poll_ends :: "('w, 'j) cli_api \<Rightarrow> string \<Rightarrow> u64 \<Rightarrow> 'w \<Rightarrow> bool" where
  "poll_ends api url target w =
     (case snd (fetch_current_slot api url w) of Ret s \<Rightarrow> target \<le> s | _ \<Rightarrow> True)"

text \<open>How the loop ends at a poll, and the progress line of a poll that does not end it.\<close>

definition poll_result ::
  "('w, 'j) cli_api \<Rightarrow> string \<Rightarrow> 'w \<Rightarrow> 'j attest_line list
     \<Rightarrow> 'w \<times> 'j attest_line list \<times> ('j fetch_error, u64) outcome" where
  "poll_result api url w out =
     (case fetch_current_slot api url w of (w1, r) \<Rightarrow>
        (w1, out @ (case r of Ret s \<Rightarrow> [PollReached s] | Fail e \<Rightarrow> [PollFailed e] | Panic \<Rightarrow> []), r))"

definition progress :: "('w, 'j) cli_api \<Rightarrow> string \<Rightarrow> u64 \<Rightarrow> 'w \<Rightarrow> 'j attest_line" where
  "progress api url target w =
     (let s = (case snd (fetch_current_slot api url w) of Ret s \<Rightarrow> s | _ \<Rightarrow> 0) in PollAt s target (target - s))"

lemma before_poll_shift:
  "before_poll api url (sleep api (fst (fetch_current_slot api url w))) n = before_poll api url w (Suc n)"
  by (induction n) simp_all

lemma poll_slot_step:
  "poll_slot api url target w out =
     (if poll_ends api url target w then Some (poll_result api url w out)
      else poll_slot api url target (sleep api (fst (fetch_current_slot api url w))) (out @ [progress api url target w]))"
  by (subst poll_slot.simps)
    (auto simp: poll_ends_def poll_result_def progress_def split: prod.split outcome.split)

lemma poll_slot_returns:
  "poll_ends api url target (before_poll api url w n) \<Longrightarrow>
     (\<And>m. m < n \<Longrightarrow> \<not> poll_ends api url target (before_poll api url w m)) \<Longrightarrow>
     poll_slot api url target w out = Some (poll_result api url (before_poll api url w n)
       (out @ map (\<lambda>m. progress api url target (before_poll api url w m)) [0..<n]))"
proof (induction n arbitrary: w out)
  case 0
  then show ?case by (simp add: poll_slot_step)
next
  case (Suc n)
  let ?w = "sleep api (fst (fetch_current_slot api url w))" and ?out = "out @ [progress api url target w]"
  have "\<not> poll_ends api url target w" using Suc.prems(2) [of 0] by simp
  then have "poll_slot api url target w out = poll_slot api url target ?w ?out" by (simp add: poll_slot_step [of _ _ _ w])
  also have "\<dots> = Some (poll_result api url (before_poll api url ?w n)
      (?out @ map (\<lambda>m. progress api url target (before_poll api url ?w m)) [0..<n]))"
  proof (rule Suc.IH)
    show "poll_ends api url target (before_poll api url ?w n)" using Suc.prems(1) by (simp add: before_poll_shift)
    show "\<not> poll_ends api url target (before_poll api url ?w m)" if "m < n" for m
      using Suc.prems(2) [of "Suc m"] that by (simp add: before_poll_shift)
  qed
  also have "?out @ map (\<lambda>m. progress api url target (before_poll api url ?w m)) [0..<n]
      = out @ map (\<lambda>m. progress api url target (before_poll api url w m)) [0..<Suc n]"
    unfolding before_poll_shift by (simp only: upt_conv_Cons zero_less_Suc list.map before_poll.simps(1) append_assoc append_Cons append_Nil)
      (simp only: map_Suc_upt [symmetric] map_map o_def)
  finally show ?case unfolding before_poll_shift .
qed

lemma poll_slot_ends:
  assumes ret: "poll_slot api url target w out = Some r"
  shows "\<exists>n. poll_ends api url target (before_poll api url w n)"
proof (rule poll_slot.raw_induct
    [where P = "\<lambda>api url target w out r. \<exists>n. poll_ends api url target (before_poll api url w n)", OF _ ret])
  fix f :: "('a, 'b) cli_api \<Rightarrow> string \<Rightarrow> u64 \<Rightarrow> 'a \<Rightarrow> 'b attest_line list
      \<Rightarrow> ('a \<times> 'b attest_line list \<times> ('b fetch_error, u64) outcome) option"
  fix api :: "('a, 'b) cli_api" and url target w out r
  assume IH: "\<And>api url target w out r. f api url target w out = Some r \<Longrightarrow> \<exists>n. poll_ends api url target (before_poll api url w n)"
    and eq: "(case fetch_current_slot api url w of (w1, r) \<Rightarrow>
       (case r of
          Ret s \<Rightarrow> if target \<le> s then Some (w1, out @ [PollReached s], Ret s)
                   else f api url target (sleep api w1) (out @ [PollAt s target (target - s)])
        | Fail e \<Rightarrow> Some (w1, out @ [PollFailed e], Fail e)
        | Panic \<Rightarrow> Some (w1, out, Panic))) = Some r"
  show "\<exists>n. poll_ends api url target (before_poll api url w n)"
  proof (cases "poll_ends api url target w")
    case True
    then show ?thesis by (intro exI [of _ 0]) simp
  next
    case False
    then have "\<exists>out'. f api url target (sleep api (fst (fetch_current_slot api url w))) out' = Some r"
      using eq by (auto simp: poll_ends_def split: prod.splits outcome.splits if_splits)
    with IH obtain n where
      "poll_ends api url target (before_poll api url (sleep api (fst (fetch_current_slot api url w))) n)" by blast
    then show ?thesis by (intro exI [of _ "Suc n"]) (simp add: before_poll_shift del: before_poll.simps)
  qed
qed

lemma poll_slot_eq:
  "poll_slot api url target w out =
     (if \<exists>n. poll_ends api url target (before_poll api url w n)
      then let n = LEAST n. poll_ends api url target (before_poll api url w n)
           in Some (poll_result api url (before_poll api url w n)
                (out @ map (\<lambda>m. progress api url target (before_poll api url w m)) [0..<n]))
      else None)"
proof (cases "\<exists>n. poll_ends api url target (before_poll api url w n)")
  case True
  then have "poll_ends api url target (before_poll api url w (LEAST n. poll_ends api url target (before_poll api url w n)))"
    by (rule LeastI_ex)
  from poll_slot_returns [OF this] True show ?thesis by (auto simp: Let_def dest: not_less_Least)
next
  case False
  with poll_slot_ends show ?thesis by (metis option.exhaust)
qed

lemma poll_slot_out:
  assumes "poll_slot api url target w [] = Some (w', polls, r)"
  shows "poll_slot api url target w out = Some (w', out @ polls, r)"
  using assms unfolding poll_slot_eq by (auto simp: poll_result_def Let_def split: if_splits prod.splits)

section \<open>Properties\<close>

lemma demo_accounts:
  "account_wf b_new" "account_wf b_new_tampered" "lamports b_new \<noteq> 0" "lamports b_new_tampered \<noteq> 0"
  "b_new_tampered \<noteq> b_new"
  by (simp_all add: account_wf_def b_new_def b_new_tampered_def)

lemma verify_slot_modes:
  "cmd_verify_slot xof b3 sg mode =
     (let d = (\<lambda>b. checksum b3 (transitions_delta xof (demo_transitions b)));
          out = [AttestedSlot 0x12345678 (d b_new)]
      in if mode = ''ok'' then (out @ [TrueSet, SlotVerified], Ret SUCCESS)
         else if mode \<noteq> ''tamper'' then (out @ [BadMode], Ret FAILURE)
         else if hash_account xof b_new_tampered = hash_account xof b_new
         then (out @ [TamperedSet, SlotVerified], Ret SUCCESS)
         else (out @ [TamperedSet, SlotMismatch (d b_new) (d b_new_tampered)], Ret 2))"
proof -
  let ?pk = "sk_public sg (replicate 32 0x21)"
  let ?ts = "\<lambda>b. [\<lparr>t_old = Some a_old, t_new = Some a_new\<rparr>]
    @ \<lparr>t_old = Some b_old, t_new = Some b\<rparr> # [\<lparr>t_old = None, t_new = Some created\<rparr>]"
  have ts: "demo_transitions b = ?ts b" for b by (simp add: demo_transitions_def)
  let ?att = "\<lparr>att_slot = 0x12345678, att_fec_set_index = 0, att_leader_pubkey = ?pk,
     att_fec_merkle_root = replicate 32 0xab, att_leader_sig = replicate 64 0xcd,
     att_delta_lthash = limbs (transitions_delta xof (demo_transitions b_new))\<rparr>"
  have att: "from_delta 0x12345678 0 ?pk (replicate 32 0xab) (replicate 64 0xcd)
      (transitions_delta xof (demo_transitions b_new)) = (Ret ?att :: (nat, attestation) outcome)"
    by (simp add: from_delta_Ret)
  then have ok: "verify_slot_delta xof b3 ?att (demo_transitions b_new) = Ret ()"
    by (rule verify_own_delta) (simp add: demo_transitions_def empty_transition_def)
  note replaced = verify_replaced [OF ok [unfolded ts], of b_new_tampered, folded ts]
  show ?thesis
    unfolding cmd_verify_slot_def Let_def demo_delta att using ok replaced by simp
qed

text \<open>
  The command \<open>verify-slot\<close> does what its demonstration claims: the true transitions are accepted, an
  unknown mode fails, and the slot with one altered account is rejected with status 2, and the two
  checksums are printed, unless Blake3's extended output collides on the two encodings of that account.
\<close>

theorem verify_slot_exit:
  assumes "xof_ok xof"
  shows "snd (cmd_verify_slot xof b3 sg ''ok'') = Ret SUCCESS
    \<and> (snd (cmd_verify_slot xof b3 sg ''tamper'') = Ret 2
          \<and> last (fst (cmd_verify_slot xof b3 sg ''tamper''))
            = SlotMismatch (checksum b3 (transitions_delta xof (demo_transitions b_new)))
                (checksum b3 (transitions_delta xof (demo_transitions b_new_tampered)))
        \<or> account_bytes b_new_tampered \<noteq> account_bytes b_new
          \<and> xof (account_bytes b_new_tampered) BYTES_PER_HASH = xof (account_bytes b_new) BYTES_PER_HASH)
    \<and> (mode \<noteq> ''ok'' \<and> mode \<noteq> ''tamper'' \<longrightarrow> snd (cmd_verify_slot xof b3 sg mode) = Ret FAILURE)"
  using hash_account_eqD [OF assms demo_accounts(2,1,4,3) _ demo_accounts(5)]
  by (auto simp: verify_slot_modes Let_def)

text \<open>An extended output that shows one byte of the message.\<close>

definition byte_xof :: "nat \<Rightarrow> bytes \<Rightarrow> nat \<Rightarrow> bytes" where
  "byte_xof i m n = replicate n (m ! i)"

lemma byte_xof_ok: "xof_ok (byte_xof i)"
  by (simp add: xof_ok_def byte_xof_def)

lemma byte_xof_eq: "byte_xof i m BYTES_PER_HASH = byte_xof i m' BYTES_PER_HASH \<longleftrightarrow> m ! i = m' ! i"
  by (simp add: byte_xof_def BYTES_PER_HASH_def N_LIMBS_def)

theorem verify_slot_exit_witness:
  "snd (cmd_verify_slot (byte_xof 8) (\<lambda>m. []) \<lparr>sk_sign = (\<lambda>k m. []), sk_public = (\<lambda>k. k)\<rparr> ''ok'') = Ret 0
   \<and> snd (cmd_verify_slot (byte_xof 8) (\<lambda>m. []) \<lparr>sk_sign = (\<lambda>k m. []), sk_public = (\<lambda>k. k)\<rparr> ''tamper'') = Ret 2
   \<and> snd (cmd_verify_slot (byte_xof 8) (\<lambda>m. []) \<lparr>sk_sign = (\<lambda>k m. []), sk_public = (\<lambda>k. k)\<rparr> ''x'') = Ret 1"
proof -
  have "account_bytes b_new_tampered ! 8 \<noteq> account_bytes b_new ! 8"
    by (simp add: account_bytes_def b_new_tampered_def b_new_def nth_append)
  with verify_slot_exit [OF byte_xof_ok [of 8], of "\<lambda>m. []"
      "\<lparr>sk_sign = (\<lambda>k m. []), sk_public = (\<lambda>k. k)\<rparr>" "''x''"]
  show ?thesis by (simp add: byte_xof_eq SUCCESS_def FAILURE_def)
qed

text \<open>
  C16: The polling loop of \<open>rpc-attest\<close> returns exactly when some poll fails or shows a slot that has
  reached the target, and then with the answer of the first such poll, after one line of progress for each
  poll before it; otherwise it runs forever.
\<close>

theorem poll_slot_outcome:
  "poll_slot api url target w out =
     (if \<exists>n. poll_ends api url target (before_poll api url w n)
      then let n = LEAST n. poll_ends api url target (before_poll api url w n)
           in Some (poll_result api url (before_poll api url w n)
                (out @ map (\<lambda>m. progress api url target (before_poll api url w m)) [0..<n]))
      else None)"
  by (rule poll_slot_eq)

text \<open>
  C17: A run of \<open>rpc-attest\<close> whose two snapshots arrive and whose polling reaches the target ends with
  success and with the line that says so: the truthful transition always verifies and the tampered one is
  caught, and the checksums of the true and of the tampered difference are printed. The exceptions end with
  failure although the verifier works: an account without lamports but with data, whose hash does not
  depend on the data, and a collision of the extended hash output.
\<close>

theorem rpc_attest_exit:
  fixes api :: "('w, 'j) cli_api"
  assumes "parse_u64 wait_slots_str = Some wait_slots" and "1 \<le> wait_slots"
    and "env_url (host_of api) = Ret url"
    and "unat wait_slots * 400 < 2 ^ 64"
    and "fetch_snapshot api url pubkey_str w = (w1, Ret old)"
    and "unat (as_slot old) + unat wait_slots < 2 ^ 64"
    and "poll_slot api url (as_slot old + wait_slots) w1 [] = Some (w2, polls, Ret s)"
    and "fetch_snapshot api url pubkey_str w2 = (w3, Ret new)"
    and "xof_ok xof"
  shows "\<exists>out r. cmd_rpc_attest oc api xof b3 sg pubkey_str wait_slots_str w = Some (w3, out, Ret r)
     \<and> TruthVerified \<in> set out
     \<and> (r = SUCCESS \<and> last out = (if as_data new = [] then NoData
            else TamperCaught (checksum b3 (change xof old (as_for_hash new))) (checksum b3 (change xof old (tamper new))))
       \<or> r = FAILURE \<and> last out = TamperAccepted \<and> as_data new \<noteq> [] \<and>
          (as_lamports new = 0 \<or>
           account_bytes (tamper new) \<noteq> account_bytes (as_for_hash new) \<and>
           xof (account_bytes (tamper new)) BYTES_PER_HASH
             = xof (account_bytes (as_for_hash new)) BYTES_PER_HASH))"
proof -
  let ?out = "[AttestTitle pubkey_str, WaitLine wait_slots (wait_slots * 400 div 1000), FetchOld,
      snapshot_line xof b3 old, PollUntil (as_slot old) wait_slots] @ polls @ [FetchNew, snapshot_line xof b3 new]"
  obtain ls :: "'j attest_line list" and r where att: "attest_snapshots xof b3 sg old new = (ls, r)" by fastforce
  have "cmd_rpc_attest oc api xof b3 sg pubkey_str wait_slots_str w = Some (w3, ?out @ ls, r)"
    using att assms(1-6,8) poll_slot_out [OF assms(7)]
    by (simp add: cmd_rpc_attest_def rust_mul_def rust_add_def split_beta)
  then obtain out where "cmd_rpc_attest oc api xof b3 sg pubkey_str wait_slots_str w = Some (w3, out @ ls, r)"
    by (rule that)
  moreover have "account_bytes (tamper new) \<noteq> account_bytes (as_for_hash new) \<and>
      xof (account_bytes (tamper new)) BYTES_PER_HASH = xof (account_bytes (as_for_hash new)) BYTES_PER_HASH"
    if "as_data new \<noteq> []" "as_lamports new \<noteq> 0"
      "hash_account xof (tamper new) = hash_account xof (as_for_hash new)"
    using that assms(9) fetch_snapshot_wf [OF assms(8)] tamper_changes
    by (intro hash_account_eqD) (auto simp: tamper_def as_for_hash_def account_wf_def)
  moreover note att [unfolded attest_snapshots_eq Let_def]
  ultimately show ?thesis by (auto split: if_splits)
qed

definition snapshot_reply :: "u64 \<Rightarrow> u64 \<Rightarrow> string \<Rightarrow> sample_json http_reply" where
  "snapshot_reply slot lam d =
     Body (JObj [(''result'', JObj
       [(''context'', JObj [(''slot'', JNum slot)]),
        (''value'', JObj [(''lamports'', JNum lam), (''owner'', JText ''o''), (''executable'', JBool False),
                          (''data'', JList [JText d])])])])"

definition slot_reply :: "u64 \<Rightarrow> sample_json http_reply" where
  "slot_reply slot = Body (JObj [(''result'', JNum slot)])"

definition scripted_snapshot :: "u64 \<Rightarrow> u64 \<Rightarrow> string \<Rightarrow> account_snapshot" where
  "scripted_snapshot slot lam d =
     \<lparr>as_slot = slot, as_lamports = lam, as_data = map of_char d, as_executable = False,
      as_owner = replicate 32 1, as_pubkey = replicate 32 3\<rparr>"

lemma scripted_fetch:
  "fetch_snapshot scripted_api url ''abc'' (snapshot_reply slot lam d # rs) = (rs, Ret (scripted_snapshot slot lam d))"
  by (simp add: fetch_snapshot_def snapshot_reply_def scripted_snapshot_def decode_snapshot_def scripted_api_def
      sample_json_api_def pubkey_from_b58_def rindex_def)

lemma scripted_slot:
  "fetch_current_slot scripted_api url (slot_reply s # rs) = (rs, Ret s)"
  by (simp add: fetch_current_slot_def slot_reply_def scripted_api_def sample_json_api_def)

theorem rpc_attest_exit_witness:
  "\<exists>out a r. cmd_rpc_attest True scripted_api (byte_xof 8) (\<lambda>m. []) \<lparr>sk_sign = (\<lambda>k m. []), sk_public = (\<lambda>k. k)\<rparr>
         ''abc'' ''2''
         [snapshot_reply 100 5 ''AB'', slot_reply 101, slot_reply 102, snapshot_reply 102 7 ''CD'']
       = Some ([], out, Ret 0) \<and> TruthVerified \<in> set out \<and> last out = TamperCaught a r"
proof -
  let ?w = "[slot_reply 101, slot_reply 102, snapshot_reply 102 7 ''CD'']"
  let ?sg = "\<lparr>sk_sign = (\<lambda>k m. []), sk_public = (\<lambda>k. k)\<rparr> :: bytes signer_api"
  let ?new = "scripted_snapshot 102 7 ''CD''"
  let ?old = "scripted_snapshot 100 5 ''AB''"
  have p: "parse_u64 ''2'' = Some 2" by (simp add: parse_u64_def char_digit_def)
  have slots: "as_slot ?old = 100" by (simp add: scripted_snapshot_def)
  have poll: "poll_slot scripted_api ''http://rpc'' (as_slot ?old + 2) ?w []
      = Some ([snapshot_reply 102 7 ''CD''], [PollAt 101 102 1, PollReached 102], Ret 102)"
    by (simp add: slots poll_slot.simps scripted_slot scripted_api_def [THEN arg_cong [where f = sleep]])
  have new: "account_bytes (tamper ?new) ! 8 \<noteq> account_bytes (as_for_hash ?new) ! 8"
    by (simp add: account_bytes_def tamper_def as_for_hash_def scripted_snapshot_def nth_append)
  have live: "as_lamports ?new \<noteq> 0" "as_data ?new \<noteq> []" by (simp_all add: scripted_snapshot_def)
  from rpc_attest_exit [OF p _ scripted_simps(2) _ scripted_fetch _ poll scripted_fetch byte_xof_ok [of 8],
      where oc = True and ?b3.0 = "\<lambda>m. []" and sg = ?sg]
  obtain out r where "cmd_rpc_attest True scripted_api (byte_xof 8) (\<lambda>m. []) ?sg ''abc'' ''2''
          (snapshot_reply 100 5 ''AB'' # ?w) = Some ([], out, Ret r)" "TruthVerified \<in> set out"
    and "r = SUCCESS \<and> (\<exists>a b. last out = TamperCaught a b)"
    using new live by (auto simp: slots byte_xof_eq)
  then show ?thesis by (auto simp: SUCCESS_def)
qed

end
