(* ===== verification/Cli_Demo.thy ===== *)
theory Cli_Demo
  imports Cli_Rpc Listener_Props
begin

text \<open>
  The commands of \<open>crates/cli/src/main.rs\<close> about shreds: \<open>verify-shred\<close>, \<open>das-demo\<close> (a built FEC set of
  which the first \<open>n\<close> shreds are delivered) and \<open>slot-demo\<close> (a slot of two built sets). They run the
  builder and the assembler of the other theories under one environment; a signing key is its seed.
  A command returns the lines it prints, as values that \<open>Cli_Text\<close> turns into text, and its exit code.
\<close>

section \<open>Feeding an assembler and looking at its events\<close>

definition feed ::
  "('r, 's) listener_env \<Rightarrow> (fec_event \<Rightarrow> 'c \<Rightarrow> 'c) \<Rightarrow> bytes list \<Rightarrow> 's assembler \<times> 'c
     \<Rightarrow> (nat, 's assembler \<times> 'c) outcome" where
  "feed env see = ofold (\<lambda>raw (asm, c). obind (expect (ingest env asm raw)) (\<lambda>(asm, evs).
     Ret (asm, fold see evs c)))"

datatype demo_line =
    ConstructedFec nat bytes bytes \<comment> \<open>payload length, leader, root\<close>
  | Simulating nat
  | StartLine fec_key
  | ShredLine nat nat
  | DoneLine bytes f64
  | SetDone u32 f64
  | FinalizedLine u64 "bytes list" bytes nat f64
  | RejectLine reject_reason
  | Verdict bool f64 \<comment> \<open>recovered, probability printed otherwise\<close>
  | ConstructedSlot u64
  | Delivering string
  | SlotVerdict nat

definition demo_payload :: "nat \<Rightarrow> bytes" where
  "demo_payload n = concat (map (\<lambda>i. to_le_bytes (word_of_nat i :: u32)) [0..<n])"

section \<open>das-demo\<close>

definition das_params :: "bytes fec_set_params" where
  "das_params = \<lparr>fp_slot = 999999, fp_fec_set_index = 0, fp_version = 1, fp_parent_offset = 1,
     fp_flags = 0x40, fp_chained_root = replicate 32 0, fp_signing_key = replicate 32 0x4c\<rparr>"

fun das_see :: "fec_event \<Rightarrow> demo_line list \<times> bool \<Rightarrow> demo_line list \<times> bool" where
  "das_see (Started key r) (out, rec) = (out @ [StartLine key], rec)"
| "das_see (ShredAccepted key n i) (out, rec) = (out @ [ShredLine n i], rec)"
| "das_see (Reconstructed key r c) (out, rec) = (out @ [DoneLine r c], True)"
| "das_see (SlotFinalized s rs r n c) (out, rec) = (out, rec)"
| "das_see (Rejected reason) (out, rec) = (out @ [RejectLine reason], rec)"

definition cmd_das_demo ::
  "('r, bytes) listener_env \<Rightarrow> bytes signer_api \<Rightarrow> string \<Rightarrow> (nat, demo_line list \<times> nat) outcome" where
  "cmd_das_demo env sg n_str =
     (case parse_u64 n_str of
        None \<Rightarrow> Fail FAILURE
      | Some v \<Rightarrow>
          if 64 < v then Fail FAILURE
          else
            let n = unat v; leader_pk = sk_public sg (replicate 32 0x4c)
            in
            obind (expect (build_fec_set (le_sha env) (le_rs env) sg (le_oc env) (demo_payload 4000) das_params)) (\<lambda>fec.
            obind (omap (rindex (shreds fec)) [0..<n]) (\<lambda>raws.
            obind (feed env das_see raws (assembler_new leader_pk, [], False)) (\<lambda>(asm, out, reconstructed).
              Ret (ConstructedFec (length (demo_payload 4000)) leader_pk (fs_merkle_root fec) # Simulating n # out
                     @ [Verdict reconstructed (if reconstructed then 0 else f64_sub 1 (das_confidence n))],
                   SUCCESS)))))"

section \<open>slot-demo\<close>

definition demo_slot :: u64 where "demo_slot = 0xdead0042"

definition slot_params :: "u32 \<Rightarrow> bool \<Rightarrow> bytes fec_set_params" where
  "slot_params idx last_set =
     \<lparr>fp_slot = demo_slot, fp_fec_set_index = idx, fp_version = 1, fp_parent_offset = 1,
      fp_flags = (if last_set then SHRED_FLAG_DATA_COMPLETE OR SHRED_FLAG_LAST_IN_SLOT else 0),
      fp_chained_root = replicate 32 0, fp_signing_key = replicate 32 0x5a\<rparr>"

definition mk_set ::
  "('r, bytes) listener_env \<Rightarrow> bytes signer_api \<Rightarrow> u32 \<Rightarrow> bool \<Rightarrow> (nat, bytes list) outcome" where
  "mk_set env sg idx last_set =
     obind (expect (build_fec_set (le_sha env) (le_rs env) sg (le_oc env) (demo_payload 3000) (slot_params idx last_set)))
       (\<lambda>fec. Ret (shreds fec))"

fun slot_see :: "fec_event \<Rightarrow> demo_line list \<times> nat \<Rightarrow> demo_line list \<times> nat" where
  "slot_see (Reconstructed key r c) (out, seen) = (out @ [SetDone (fk_index key) c], seen)"
| "slot_see (SlotFinalized s rs r n c) (out, seen) = (out @ [FinalizedLine s rs r n c], seen + 1)"
| "slot_see (Rejected reason) (out, seen) = (out @ [RejectLine reason], seen)"
| "slot_see ev (out, seen) = (out, seen)"

definition cmd_slot_demo ::
  "('r, bytes) listener_env \<Rightarrow> bytes signer_api \<Rightarrow> (nat, demo_line list \<times> nat) outcome" where
  "cmd_slot_demo env sg =
     (let leader_pk = sk_public sg (replicate 32 0x5a) in
      obind (mk_set env sg 0 False) (\<lambda>set_a.
      obind (mk_set env sg 32 True) (\<lambda>set_b.
      obind (ofold (\<lambda>(label, set) (asm, out, seen). feed env slot_see (take 32 set) (asm, out @ [Delivering label], seen))
               [(''A'', set_a), (''B'', set_b)] (assembler_new leader_pk, [ConstructedSlot demo_slot], 0))
        (\<lambda>(asm, out, finalized_seen).
          Ret (out @ [SlotVerdict finalized_seen], if finalized_seen = 1 then SUCCESS else FAILURE)))))"

section \<open>verify-shred\<close>

definition is_hexdigit :: "byte \<Rightarrow> bool" where
  "is_hexdigit b \<longleftrightarrow> (48 \<le> b \<and> b \<le> 57) \<or> (65 \<le> b \<and> b \<le> 70) \<or> (97 \<le> b \<and> b \<le> 102)"

definition is_ascii_space :: "byte \<Rightarrow> bool" where
  "is_ascii_space b \<longleftrightarrow> b \<in> {0x20, 0x09, 0x0A, 0x0C, 0x0D}"

text \<open>The bytes of the file, decoded when it is a hex text. \<open>hex_decode\<close> is \<open>hex::decode\<close>.\<close>

definition shred_file :: "(bytes \<Rightarrow> bytes option) \<Rightarrow> bytes \<Rightarrow> ('e, bytes) outcome" where
  "shred_file hex_decode content =
     (if list_all (\<lambda>b. is_hexdigit b \<or> is_ascii_space b) content
      then unwrap (hex_decode (filter (\<lambda>b. \<not> is_ascii_space b) content))
      else Ret content)"

definition cmd_verify_shred ::
  "('r, 's) listener_env \<Rightarrow> ('w, 'j) cli_api \<Rightarrow> (bytes \<Rightarrow> bytes option) \<Rightarrow> bytes option \<Rightarrow> string
     \<Rightarrow> (nat, verified_shred option \<times> nat) outcome" where
  "cmd_verify_shred env api hex_decode content leader_b58 =
     obind (unwrap content) (\<lambda>content.
     obind (shred_file hex_decode content) (\<lambda>raw.
     obind (pubkey_from_b58 api leader_b58) (\<lambda>leader.
     case verify_shred (le_sha env) (le_ed env) (le_oc env) raw leader of
       Ret v \<Rightarrow> Ret (Some v, SUCCESS)
     | Fail e \<Rightarrow> Ret (None, FAILURE)
     | Panic \<Rightarrow> Panic)))"

section \<open>What the demonstrations see\<close>

lemma feed_run:
  "ingest_all env raws asm = Ret (asm', evs) \<Longrightarrow> feed env see raws (asm, c) = Ret (asm', fold see evs c)"
proof (induction raws arbitrary: asm c evs)
  case (Cons raw raws)
  then obtain asm1 evs1 evs2 where "ingest env asm raw = Ret (asm1, evs1)"
    "ingest_all env raws asm1 = Ret (asm', evs2)" "evs = evs1 @ evs2"
    by (auto simp: obind_eq_Ret)
  with Cons.IH [of asm1 evs2 "fold see evs1 c"] show ?case by (simp add: feed_def)
qed (simp add: feed_def)

lemma feed_append: "feed env see (xs @ ys) ac = obind (feed env see xs ac) (feed env see ys)"
  by (simp add: feed_def ofold_append)

lemma das_see_flag: "snd (fold das_see evs c) \<longleftrightarrow> snd c \<or> (\<exists>k r x. Reconstructed k r x \<in> set evs)"
proof (induction evs arbitrary: c)
  case (Cons ev evs)
  show ?case by (cases c; cases ev) (auto simp: Cons.IH)
qed simp

lemma das_see_lines:
  "DoneLine r x \<in> set (fst (fold das_see evs c)) \<longleftrightarrow>
     DoneLine r x \<in> set (fst c) \<or> (\<exists>k. Reconstructed k r x \<in> set evs)"
proof (induction evs arbitrary: c)
  case (Cons ev evs)
  show ?case by (cases c; cases ev) (auto simp: Cons.IH)
qed simp

definition slot_reports :: "fec_event list \<Rightarrow> nat" where
  "slot_reports evs = length (filter (\<lambda>e. case e of SlotFinalized s rs r n x \<Rightarrow> True | _ \<Rightarrow> False) evs)"

lemma slot_reports_simps [simp]:
  "slot_reports [] = 0" "slot_reports (xs @ ys) = slot_reports xs + slot_reports ys"
  "slot_reports (e # xs) = (case e of SlotFinalized s rs r n x \<Rightarrow> 1 | _ \<Rightarrow> 0) + slot_reports xs"
  by (auto simp: slot_reports_def split: fec_event.split)

lemma slot_see_count: "snd (fold slot_see evs c) = snd c + slot_reports evs"
proof (induction evs arbitrary: c)
  case (Cons ev evs)
  show ?case by (cases c; cases ev) (auto simp: Cons.IH)
qed simp

lemma slot_see_lines:
  "FinalizedLine s rs r n x \<in> set (fst (fold slot_see evs c)) \<longleftrightarrow>
     FinalizedLine s rs r n x \<in> set (fst c) \<or> SlotFinalized s rs r n x \<in> set evs"
proof (induction evs arbitrary: c)
  case (Cons ev evs)
  show ?case by (cases c; cases ev) (auto simp: Cons.IH)
qed simp

lemma length_demo_payload: "length (demo_payload n) = 4 * n"
proof -
  have "(\<Sum>i\<leftarrow>[0..<m]. length (to_le_bytes (word_of_nat i :: u32))) = 4 * m" for m
    by (induction m) simp_all
  then show ?thesis by (simp add: demo_payload_def length_concat o_def)
qed

lemma builds:
  assumes "sha_ok sha" and "rs_ok rs" and "signer_ok sg ed (fp_signing_key ps)"
    and "length (fp_chained_root ps) = 32" and "length payload \<le> 30816" and "no_overflow oc ps"
  shows "\<exists>fs :: fec_set. build_fec_set sha rs sg oc payload ps = Ret fs \<and> length (shreds fs) = 64
     \<and> leader_pubkey fs = sk_public sg (fp_signing_key ps)"
proof -
  obtain qs where "build_fec_set sha rs sg oc payload ps =
       (if 30816 < length payload then Fail (PayloadTooSmall (length payload))
        else if \<not> no_overflow oc ps then Panic
        else Ret (finished_set sha sg ps (shred_bodies payload ps qs)))"
    by (rule build_fec_set_eq [OF assms(1-4)])
  with assms(5,6) show ?thesis by (simp add: finished_set_def Let_def shred_bodies_def)
qed

text \<open>Fewer than 32 delivered shreds of one set are never reported reconstructed.\<close>

lemma few_not_reconstructed:
  assumes d: "delivers env pk key rt lst raw" and static: "le_resolve env = static_leader" and rs: "rs_total (le_rs env)"
    and run: "ingest_all env (map raw ns) (assembler_new pk) = Ret (asm, evs)"
    and ns: "set ns \<subseteq> {..<64}" "length ns < 32"
  shows "Reconstructed k r x \<notin> set evs"
proof
  assume rec: "Reconstructed k r x \<in> set evs"
  have ans: "answers_only (le_resolve env) (\<lambda>s. s = pk) (\<lambda>slot key. key = pk)"
    using static by (simp add: static_answers)
  note sound = reconstructed_positions [OF run [unfolded assembler_new_def] rs ans refl rec]
  obtain P where P: "P \<subseteq> {..<64}" "32 \<le> card P"
    and vouch: "\<forall>i \<in> P. \<exists>w \<in> set (map raw ns). \<exists>p v. p = pk
        \<and> verify_shred (le_sha env) (le_ed env) (le_oc env) w p = Ret v
        \<and> key_of v = k \<and> v_merkle_root v = r \<and> v_erasure_shard_index v = i"
    using conjunct2 [OF sound] by (elim exE conjE) (rule that)
  have "P \<subseteq> set ns"
  proof
    fix i assume "i \<in> P"
    from bspec [OF vouch this] obtain j v where j: "j \<in> set ns"
      and v: "verify_shred (le_sha env) (le_ed env) (le_oc env) (raw j) pk = Ret v" "v_erasure_shard_index v = i"
      by auto
    moreover from j ns(1) have "j < 64" by auto
    with d v have "v_erasure_shard_index v = j" unfolding delivers_def by fastforce
    ultimately show "i \<in> set ns" by simp
  qed
  then have "card P \<le> length ns" by (meson card_length card_mono finite_set le_trans)
  with P(2) ns(2) show False by simp
qed

text \<open>A run that is fed shreds of one slot only reports that slot.\<close>

lemma reports_slot:
  assumes "ingest_all env raws (assembler_new pk) = Ret (asm, evs)" and "rs_total (le_rs env)"
    and "le_resolve env = static_leader"
    and "\<forall>raw \<in> set raws. \<forall>v. verify_shred (le_sha env) (le_ed env) (le_oc env) raw pk = Ret v \<longrightarrow> v_slot v = slot"
    and "SlotFinalized s rts r n x \<in> set evs"
  shows "s = slot"
proof -
  note run = assms(1) [unfolded assembler_new_def]
  have ans: "answers_only (le_resolve env) (\<lambda>s. s = pk) (\<lambda>slot key. key = pk)"
    using assms(3) by (simp add: static_answers)
  from run_finalized [OF run assms(2,5)] obtain idxs where "rts \<noteq> []" "length idxs = length rts"
    and rec: "\<forall>j < length rts. Reconstructed (fkey s (idxs ! j)) (rts ! j) 1 \<in> set evs"
    by (auto simp: report_backed_def)
  then have "Reconstructed (fkey s (idxs ! 0)) (rts ! 0) 1 \<in> set evs" by simp
  note sound = reconstructed_positions [OF run assms(2) ans refl this]
  obtain P :: "nat set" where P: "32 \<le> card P"
    and vouch: "\<forall>i \<in> P. \<exists>raw \<in> set raws. \<exists>p v. p = pk
        \<and> verify_shred (le_sha env) (le_ed env) (le_oc env) raw p = Ret v
        \<and> key_of v = fkey s (idxs ! 0) \<and> v_merkle_root v = rts ! 0 \<and> v_erasure_shard_index v = i"
    using conjunct2 [OF sound] by (elim exE conjE) (rule that)
  have "P \<noteq> {}" using P by auto
  then obtain i where "i \<in> P" by auto
  from bspec [OF vouch this] obtain raw v where "raw \<in> set raws"
    "verify_shred (le_sha env) (le_ed env) (le_oc env) raw pk = Ret v" "key_of v = fkey s (idxs ! 0)" by auto
  with assms(4) show ?thesis by (auto simp: key_of_def)
qed

text \<open>The environments the demonstrations need: a working codec, hash and signer.\<close>

definition demo_env :: "('r, bytes) listener_env \<Rightarrow> bytes signer_api \<Rightarrow> bytes \<Rightarrow> bool" where
  "demo_env env sg seed \<longleftrightarrow> sha_ok (le_sha env) \<and> rs_ok (le_rs env) \<and> rs_total (le_rs env)
     \<and> signer_ok sg (le_ed env) seed \<and> le_resolve env = static_leader"

lemma das_params_simps [simp]:
  "fp_signing_key das_params = replicate 32 0x4c" "length (fp_chained_root das_params) = 32"
  "no_overflow oc das_params"
  by (simp_all add: das_params_def no_overflow_def)

lemma slot_params_simps [simp]:
  "fp_signing_key (slot_params i l) = replicate 32 0x5a" "length (fp_chained_root (slot_params i l)) = 32"
  "fp_slot (slot_params i l) = demo_slot" "fp_fec_set_index (slot_params i l) = i"
  by (simp_all add: slot_params_def)

lemma ends_slot_params: "ends_slot (slot_params i l) j \<longleftrightarrow> j < 32 \<and> l"
  by (simp add: ends_slot_def slot_params_def SHRED_FLAG_DATA_COMPLETE_def SHRED_FLAG_LAST_IN_SLOT_def)

lemma das_set:
  assumes "demo_env env sg (replicate 32 0x4c)"
  obtains fs :: fec_set where
    "build_fec_set (le_sha env) (le_rs env) sg (le_oc env) (demo_payload 4000) das_params = Ret fs"
    "length (shreds fs) = 64"
    "delivers env (sk_public sg (replicate 32 0x4c)) (built_key das_params) (fs_merkle_root fs) (ends_slot das_params)
       ((!) (shreds fs))"
proof -
  have e: "sha_ok (le_sha env)" "rs_ok (le_rs env)" "signer_ok sg (le_ed env) (fp_signing_key das_params)"
    using assms by (simp_all add: demo_env_def)
  obtain fs :: fec_set where fs:
    "build_fec_set (le_sha env) (le_rs env) sg (le_oc env) (demo_payload 4000) das_params = Ret fs"
    "length (shreds fs) = 64" "leader_pubkey fs = sk_public sg (fp_signing_key das_params)"
    using builds [OF e(1-3), of "demo_payload 4000" "le_oc env"] by (auto simp: length_demo_payload)
  with built_delivers [OF e(1-3) _ _ fs(1)] show ?thesis by (intro that [OF fs(1,2)]) simp
qed

text \<open>One set of \<open>slot-demo\<close>, with its data shreds delivered.\<close>

definition demo_built :: "u32 \<Rightarrow> bool \<Rightarrow> fec_set \<Rightarrow> bytes built_set" where
  "demo_built i l fs =
     \<lparr>bs_payload = demo_payload 3000, bs_params = slot_params i l, bs_set = fs, bs_order = [0..<32]\<rparr>"

definition builds_demo_set ::
  "('r, bytes) listener_env \<Rightarrow> bytes signer_api \<Rightarrow> u32 \<Rightarrow> bool \<Rightarrow> fec_set \<Rightarrow> bool" where
  "builds_demo_set env sg i l fs \<longleftrightarrow>
     build_fec_set (le_sha env) (le_rs env) sg (le_oc env) (demo_payload 3000) (slot_params i l) = Ret fs
     \<and> length (shreds fs) = 64 \<and> unat i + 31 < 2 ^ 32"

lemma demo_set_built:
  assumes "demo_env env sg (replicate 32 0x5a)" and "unat i + 31 < 2 ^ 32"
  obtains fs where "builds_demo_set env sg i l fs"
proof -
  have "\<exists>fs :: fec_set. build_fec_set (le_sha env) (le_rs env) sg (le_oc env) (demo_payload 3000) (slot_params i l) = Ret fs
      \<and> length (shreds fs) = 64"
    using builds [of "le_sha env" "le_rs env" sg "le_ed env" "slot_params i l" "demo_payload 3000" "le_oc env"] assms
    by (auto simp: length_demo_payload no_overflow_def demo_env_def)
  with assms(2) that show ?thesis by (auto simp: builds_demo_set_def)
qed

lemma demo_built_simps:
  "marked (demo_built i l fs) \<longleftrightarrow> l" "bs_set (demo_built i l fs) = fs" "bs_params (demo_built i l fs) = slot_params i l"
  by (auto simp: marked_def demo_built_def ends_slot_params intro: exI [of _ 0])

lemma demo_built_datagrams: "length (shreds fs) = 64 \<Longrightarrow> bs_datagrams (demo_built i l fs) = take 32 (shreds fs)"
  by (simp add: bs_datagrams_def demo_built_def list_eq_iff_nth_eq)

lemma demo_built_ok:
  assumes "builds_demo_set env sg i l fs"
  shows "built_ok env (le_rs env) sg (le_oc env) demo_slot (replicate 32 0x5a) (demo_built i l fs)"
proof -
  have "set [0..<32] \<subseteq> {..<64::nat}" "card (set [0..<32::nat]) = 32" by auto
  with assms show ?thesis by (simp add: built_ok_def demo_built_def no_overflow_def builds_demo_set_def)
qed

lemma demo_built_slot:
  assumes "demo_env env sg (replicate 32 0x5a)" and "builds_demo_set env sg i l fs" and "raw \<in> set (take 32 (shreds fs))"
    and "verify_shred (le_sha env) (le_ed env) (le_oc env) raw (sk_public sg (replicate 32 0x5a)) = Ret v"
  shows "v_slot v = demo_slot"
proof -
  have e: "sha_ok (le_sha env)" "rs_ok (le_rs env)" "signer_ok sg (le_ed env) (replicate 32 0x5a)"
    using assms(1) by (simp_all add: demo_env_def)
  have len: "length (shreds fs) = 64" using assms(2) by (simp add: builds_demo_set_def)
  obtain j where j: "j < 64" "raw = shreds fs ! j"
    using in_set_takeD [OF assms(3)] len by (metis in_set_conv_nth)
  have "delivers env (sk_public sg (replicate 32 0x5a)) (fkey demo_slot i) (fs_merkle_root fs) (ends_slot (slot_params i l))
      ((!) (shreds fs))"
    using built_delivery_ok [OF demo_built_ok [OF assms(2)] e]
    by (simp add: ds_ok_def delivery_of_def demo_built_simps)
  with j assms(4) show ?thesis by (fastforce simp: delivers_def key_of_def)
qed

lemma demo_slot_run:
  assumes env: "demo_env env sg (replicate 32 0x5a)"
    and a: "builds_demo_set env sg 0 False fa" and b: "builds_demo_set env sg 32 True fb"
  shows "\<exists>asm evs. ingest_all env (take 32 (shreds fa) @ take 32 (shreds fb)) (assembler_new (sk_public sg (replicate 32 0x5a)))
        = Ret (asm, evs)
     \<and> SlotFinalized demo_slot [fs_merkle_root fa, fs_merkle_root fb]
        (aggregate_root (le_sha env) [fs_merkle_root fa, fs_merkle_root fb]) 64 1 \<in> set evs
     \<and> snd (fold slot_see evs ([], 0)) = 1"
proof -
  let ?pk = "sk_public sg (replicate 32 0x5a)" and ?raws = "take 32 (shreds fa) @ take 32 (shreds fb)"
  have e: "sha_ok (le_sha env)" "rs_ok (le_rs env)" "rs_total (le_rs env)"
    "signer_ok sg (le_ed env) (replicate 32 0x5a)" "le_resolve env = static_leader"
    using env by (simp_all add: demo_env_def)
  have len: "length (shreds fa) = 64" "length (shreds fb) = 64" using a b by (simp_all add: builds_demo_set_def)
  obtain asm evs where run: "ingest_all env ?raws (assembler_new ?pk) = Ret (asm, evs)"
    and fin: "SlotFinalized demo_slot [fs_merkle_root fa, fs_merkle_root fb]
        (aggregate_root (le_sha env) [fs_merkle_root fa, fs_merkle_root fb]) 64 1 \<in> set evs"
    and once: "finalizations demo_slot evs = 1"
    using built_slot_run [OF e(1,2,4,5,2,3), of "[demo_built 0 False fa]" "le_oc env" demo_slot "demo_built 32 True fb"]
      demo_built_ok [OF a] demo_built_ok [OF b]
    by (auto simp: demo_built_simps demo_built_datagrams len)
  have "v_slot v = demo_slot" if "raw \<in> set ?raws"
    "verify_shred (le_sha env) (le_ed env) (le_oc env) raw ?pk = Ret v" for raw v
    using that demo_built_slot [OF env a, of raw v] demo_built_slot [OF env b, of raw v] by auto
  then have "s = demo_slot" if "SlotFinalized s rts r n x \<in> set evs" for s rts r n x
    using that by (intro reports_slot [OF run e(3,5)]) blast+
  then have "filter (\<lambda>ev. case ev of SlotFinalized s rs r n x \<Rightarrow> True | _ \<Rightarrow> False) evs
      = filter (\<lambda>ev. case ev of SlotFinalized s rs r n x \<Rightarrow> s = demo_slot | _ \<Rightarrow> False) evs"
    by (intro filter_cong) (auto split: fec_event.splits)
  with run fin once show ?thesis by (simp add: slot_see_count slot_reports_def finalizations_def)
qed

section \<open>Properties\<close>

lemma das_demo_run:
  assumes "demo_env env sg (replicate 32 0x4c)" and "parse_u64 n_str = Some v" and "v \<le> 64"
  shows "\<exists>root out. cmd_das_demo env sg n_str =
       Ret (ConstructedFec (length (demo_payload 4000)) (sk_public sg (replicate 32 0x4c)) root
              # Simulating (unat v) # out
              @ [Verdict (32 \<le> unat v) (if 32 \<le> unat v then 0 else f64_sub 1 (das_confidence (unat v)))], SUCCESS)
     \<and> ((\<exists>r x. DoneLine r x \<in> set out) \<longleftrightarrow> 32 \<le> unat v)"
proof -
  let ?n = "unat v" and ?pk = "sk_public sg (replicate 32 0x4c)"
  have rs: "rs_ok (le_rs env)" "rs_total (le_rs env)" and static: "le_resolve env = static_leader"
    using assms(1) by (simp_all add: demo_env_def)
  obtain fs :: fec_set where
    fs: "build_fec_set (le_sha env) (le_rs env) sg (le_oc env) (demo_payload 4000) das_params = Ret fs"
    and len: "length (shreds fs) = 64"
    and d: "delivers env ?pk (built_key das_params) (fs_merkle_root fs) (ends_slot das_params) ((!) (shreds fs))"
    by (rule das_set [OF assms(1)])
  have n: "?n \<le> 64" using assms(3) by (simp add: word_le_nat_alt)
  then have order: "set [0..<?n] \<subseteq> {..<64}" by auto
  have raws: "omap (rindex (shreds fs)) [0..<?n] = Ret (map ((!) (shreds fs)) [0..<?n])"
    using n len by (intro omap_Ret) (simp add: rindex_def)
  have wf: "asm_wf (assembler_new ?pk)" using with_resolver_wf by (simp add: assembler_new_def)
  from ingest_all_static_Ret [OF wf rs(2) d order static] obtain asm evs where
    run: "ingest_all env (map ((!) (shreds fs)) [0..<?n]) (assembler_new ?pk) = Ret (asm, evs)" by blast
  have iff: "(\<exists>k r x. Reconstructed k r x \<in> set evs) \<longleftrightarrow> 32 \<le> ?n"
  proof (cases "32 \<le> ?n")
    case True
    then show ?thesis using delivery [OF d rs order _ static] run by auto
  next
    case False
    then show ?thesis using few_not_reconstructed [OF d static rs(2) run order] by auto
  qed
  obtain out rec where seen: "fold das_see evs ([], False) = (out, rec)" by fastforce
  have rec: "rec \<longleftrightarrow> 32 \<le> ?n" and out: "(\<exists>r x. DoneLine r x \<in> set out) \<longleftrightarrow> 32 \<le> ?n"
    using iff das_see_flag [of evs "([], False)"] das_see_lines [of _ _ evs "([], False)"]
    by (auto simp: seen)
  have "cmd_das_demo env sg n_str = Ret (ConstructedFec (length (demo_payload 4000)) ?pk (fs_merkle_root fs) # Simulating ?n # out
      @ [Verdict rec (if rec then 0 else f64_sub 1 (das_confidence ?n))], SUCCESS)"
    using assms(2,3) by (simp add: cmd_das_demo_def Let_def fs raws feed_run [OF run] seen not_less)
  with rec out show ?thesis by auto
qed

text \<open>
  The verdict of \<open>das-demo\<close>. For every count up to 64 the command builds its set, delivers the first
  \<open>n\<close> shreds and reports the block recovered exactly from 32 shreds on; below that it prints what the
  confidence at \<open>n\<close> leaves.
\<close>

theorem das_demo_verdict:
  assumes "demo_env env sg (replicate 32 0x4c)" and "parse_u64 n_str = Some v" and "v \<le> 64"
  shows "\<exists>out. cmd_das_demo env sg n_str = Ret (out, SUCCESS)
     \<and> Verdict (32 \<le> unat v) (if 32 \<le> unat v then 0 else f64_sub 1 (das_confidence (unat v))) \<in> set out
     \<and> ((\<exists>r x. DoneLine r x \<in> set out) \<longleftrightarrow> 32 \<le> unat v)"
  using das_demo_run [OF assms] by fastforce

text \<open>
  \<open>slot-demo\<close> succeeds: the two built sets, of which only the 32 data shreds each are delivered, end in
  exactly one report of the slot, with both builders' roots in order, their aggregate, and 64 shreds.
\<close>

theorem slot_demo_succeeds:
  assumes "demo_env env sg (replicate 32 0x5a)"
  shows "\<exists>out fa fb. cmd_slot_demo env sg = Ret (out, SUCCESS)
     \<and> build_fec_set (le_sha env) (le_rs env) sg (le_oc env) (demo_payload 3000) (slot_params 0 False) = Ret fa
     \<and> build_fec_set (le_sha env) (le_rs env) sg (le_oc env) (demo_payload 3000) (slot_params 32 True) = Ret fb
     \<and> FinalizedLine demo_slot [fs_merkle_root fa, fs_merkle_root fb]
          (aggregate_root (le_sha env) [fs_merkle_root fa, fs_merkle_root fb]) 64 1 \<in> set out"
proof -
  let ?pk = "sk_public sg (replicate 32 0x5a)"
  have bound: "unat (0 :: u32) + 31 < 2 ^ 32" "unat (32 :: u32) + 31 < 2 ^ 32" by simp_all
  obtain fa where fa: "builds_demo_set env sg 0 False fa" using demo_set_built [OF assms bound(1)] by blast
  obtain fb where fb: "builds_demo_set env sg 32 True fb" using demo_set_built [OF assms bound(2)] by blast
  let ?roots = "[fs_merkle_root fa, fs_merkle_root fb]"
  from demo_slot_run [OF assms fa fb] obtain asm evs where
    "ingest_all env (take 32 (shreds fa) @ take 32 (shreds fb)) (assembler_new ?pk) = Ret (asm, evs)"
    and fin: "SlotFinalized demo_slot ?roots (aggregate_root (le_sha env) ?roots) 64 1 \<in> set evs"
    and count: "snd (fold slot_see evs ([], 0)) = 1" by blast
  then obtain asm1 evs1 evs2 where
    run: "ingest_all env (take 32 (shreds fa)) (assembler_new ?pk) = Ret (asm1, evs1)"
      "ingest_all env (take 32 (shreds fb)) asm1 = Ret (asm, evs2)" and evs: "evs = evs1 @ evs2"
    by (auto simp: ingest_all_append obind_eq_Ret)
  obtain out1 n1 where see1: "fold slot_see evs1 ([ConstructedSlot demo_slot, Delivering ''A''], 0) = (out1, n1)" by fastforce
  obtain out n where see2: "fold slot_see evs2 (out1 @ [Delivering ''B''], n1) = (out, n)" by fastforce
  have "n1 = slot_reports evs1"
    using slot_see_count [of evs1 "([ConstructedSlot demo_slot, Delivering ''A''], 0)"] by (simp add: see1)
  moreover have "n = n1 + slot_reports evs2"
    using slot_see_count [of evs2 "(out1 @ [Delivering ''B''], n1)"] by (simp add: see2)
  moreover have "slot_reports evs1 + slot_reports evs2 = 1"
    using count slot_see_count [of evs "([], 0)"] by (simp add: evs del: fold_append)
  ultimately have "n = 1" by simp
  have line: "FinalizedLine demo_slot ?roots (aggregate_root (le_sha env) ?roots) 64 1 \<in> set out"
    using fin slot_see_lines [of _ _ _ _ _ evs1 "([ConstructedSlot demo_slot, Delivering ''A''], 0)"]
      slot_see_lines [of _ _ _ _ _ evs2 "(out1 @ [Delivering ''B''], n1)"]
    by (auto simp: see1 see2 evs)
  have "cmd_slot_demo env sg = Ret (out @ [SlotVerdict 1], SUCCESS)"
    using fa fb \<open>n = 1\<close>
    by (simp add: cmd_slot_demo_def mk_set_def builds_demo_set_def feed_run [OF run(1)] feed_run [OF run(2)] see1 see2)
  with fa fb line show ?thesis unfolding builds_demo_set_def by auto
qed

text \<open>
  A shred may be given as raw bytes or as their hex text, with white space anywhere in the text: both
  print the same fields and end the same way. The raw form is taken for a text only when every byte of
  it is a hex digit or white space.
\<close>

theorem hex_text_same_as_raw:
  assumes "\<And>bs. hex_decode (hex_encode bs) = Some bs" and "\<And>bs. list_all is_hexdigit (hex_encode bs)"
    and "filter (\<lambda>b. \<not> is_ascii_space b) text = hex_encode raw"
    and "\<not> list_all (\<lambda>b. is_hexdigit b \<or> is_ascii_space b) raw"
  shows "cmd_verify_shred env api hex_decode (Some text) leader_b58
       = cmd_verify_shred env api hex_decode (Some raw) leader_b58"
proof -
  have "is_hexdigit b \<or> is_ascii_space b" if "b \<in> set text" for b
  proof (cases "is_ascii_space b")
    case False
    then have "b \<in> set (hex_encode raw)" using that assms(3) [symmetric] by simp
    then show ?thesis using assms(2) [of raw] by (simp add: list_all_iff)
  qed simp
  then have "list_all (\<lambda>b. is_hexdigit b \<or> is_ascii_space b) text" by (simp add: list_all_iff)
  then have "shred_file hex_decode text = (Ret raw :: (nat, bytes) outcome)"
    using assms(1,3) by (simp add: shred_file_def)
  then show ?thesis using assms(4) by (simp add: cmd_verify_shred_def shred_file_def)
qed

text \<open>Hex digits of both cases, as the crate reads them; lower case, as it writes them.\<close>

definition hex_digit_value :: "byte \<Rightarrow> byte option" where
  "hex_digit_value b =
     (if 48 \<le> b \<and> b \<le> 57 then Some (b - 48)
      else if 65 \<le> b \<and> b \<le> 70 then Some (b - 55)
      else if 97 \<le> b \<and> b \<le> 102 then Some (b - 87) else None)"

fun sample_hex_decode :: "bytes \<Rightarrow> bytes option" where
  "sample_hex_decode [] = Some []"
| "sample_hex_decode [b] = None"
| "sample_hex_decode (b # c # bs) =
     Option.bind (hex_digit_value b) (\<lambda>x. Option.bind (hex_digit_value c) (\<lambda>y.
       map_option (\<lambda>ys. (16 * x + y) # ys) (sample_hex_decode bs)))"

definition hex_char :: "byte \<Rightarrow> byte" where
  "hex_char d = (if d < 10 then 48 + d else 87 + d)"

definition sample_hex_encode :: "bytes \<Rightarrow> bytes" where
  "sample_hex_encode bs = concat (map (\<lambda>b. [hex_char (b div 16), hex_char (b mod 16)]) bs)"

lemma small_digit: "(d :: byte) < 16 \<Longrightarrow> \<exists>n < 16. d = word_of_nat n"
  by (intro exI [of _ "unat d"]) (simp add: word_less_nat_alt)

lemma hex_char_digit:
  assumes "d < 16"
  shows "hex_digit_value (hex_char d) = Some d \<and> is_hexdigit (hex_char d)"
proof -
  have "\<forall>n \<in> {..<16}. hex_digit_value (hex_char (word_of_nat n)) = Some (word_of_nat n)
      \<and> is_hexdigit (hex_char (word_of_nat n))"
    by (simp add: lessThan_nat_numeral lessThan_Suc hex_char_def hex_digit_value_def is_hexdigit_def)
  with small_digit [OF assms] show ?thesis by auto
qed

lemma byte_nibbles: "b div 16 < 16" "b mod 16 < 16" "16 * (b div 16) + b mod 16 = b" for b :: byte
proof -
  have "unat b < 256" using unsigned_less [of b] by simp
  then show "b div 16 < 16" by (simp add: word_less_nat_alt unat_div less_mult_imp_div_less)
  show "b mod 16 < 16" by (simp add: word_less_nat_alt unat_mod)
  show "16 * (b div 16) + b mod 16 = b" by (rule mult_div_mod_eq)
qed

lemma sample_hex_ok:
  "sample_hex_decode (sample_hex_encode bs) = Some bs" "list_all is_hexdigit (sample_hex_encode bs)"
  by (induction bs) (simp_all add: sample_hex_encode_def hex_char_digit byte_nibbles)

theorem hex_text_same_as_raw_witness:
  "cmd_verify_shred sample_env scripted_api sample_hex_decode (Some (sample_hex_encode sample_raw)) ''key''
     = cmd_verify_shred sample_env scripted_api sample_hex_decode (Some sample_raw) ''key''"
proof (rule hex_text_same_as_raw [OF sample_hex_ok])
  have "\<not> is_ascii_space b" if "is_hexdigit b" for b
    using that by (auto simp: is_hexdigit_def is_ascii_space_def)
  then show "filter (\<lambda>b. \<not> is_ascii_space b) (sample_hex_encode sample_raw) = sample_hex_encode sample_raw"
    using sample_hex_ok(2) [of sample_raw] by (simp add: filter_id_conv list_all_iff)
  have "0 \<in> set sample_raw" by (simp add: sample_raw_def)
  then show "\<not> list_all (\<lambda>b. is_hexdigit b \<or> is_ascii_space b) sample_raw"
    by (auto simp: list_all_iff is_hexdigit_def is_ascii_space_def intro!: bexI [of _ 0])
qed

section \<open>Concrete runs\<close>

definition seed_signer :: "bytes signer_api" where
  "seed_signer = \<lparr>sk_sign = (\<lambda>k m. replicate 64 0), sk_public = (\<lambda>k. k)\<rparr>"

lemma sample_demo_env: "demo_env sample_env seed_signer seed"
  by (simp add: demo_env_def copy_rs_ok copy_rs_total signer_ok_def seed_signer_def accept_all_def)

theorem das_demo_verdict_witness:
  "(\<exists>out. cmd_das_demo sample_env seed_signer ''32'' = Ret (out, 0) \<and> Verdict True 0 \<in> set out)
   \<and> (\<exists>out. cmd_das_demo sample_env seed_signer ''31'' = Ret (out, 0)
        \<and> Verdict False (f64_sub 1 (das_confidence 31)) \<in> set out)"
proof -
  have p: "parse_u64 ''32'' = Some 32" "parse_u64 ''31'' = Some 31"
    by (simp_all add: parse_u64_def char_digit_def)
  show ?thesis
    using das_demo_verdict [OF sample_demo_env p(1)] das_demo_verdict [OF sample_demo_env p(2)]
    by (auto simp: SUCCESS_def)
qed

theorem slot_demo_succeeds_witness:
  "\<exists>out ra rb r. cmd_slot_demo sample_env seed_signer = Ret (out, 0)
     \<and> FinalizedLine demo_slot [ra, rb] r 64 1 \<in> set out"
  using slot_demo_succeeds [OF sample_demo_env] unfolding SUCCESS_def by blast

end
