(* ===== verification/Cli_Status.thy ===== *)
theory Cli_Status
  imports Cli_Attest Cli_Demo
begin

text \<open>
  The exit code of each command of \<open>crates/cli/src/main.rs\<close>, stated without the command's own steps: from
  its arguments, the answers of the RPC server and what the verifier says. 101 is a panic, 2 a missing URL
  and 3 an error answer of the server. \<open>Cli\<close> adds \<open>keygen\<close> and the choice of the command.
\<close>

section \<open>What decides the code\<close>

text \<open>A call of the server, and what its result decides.\<close>

definition rpc_end ::
  "('w, 'j) cli_api \<Rightarrow> string \<Rightarrow> string \<Rightarrow> rpc_param list \<Rightarrow> 'w \<Rightarrow> ('j \<Rightarrow> nat) \<Rightarrow> nat" where
  "rpc_end api url method params w next_code =
     (case snd (http_post api w url method params) of
        Body resp \<Rightarrow>
          if j_get (js api) resp ''error'' \<noteq> None then 3 else next_code (j_index (js api) resp ''result'')
      | _ \<Rightarrow> 101)"

definition slot_status :: "('w, 'j) cli_api \<Rightarrow> 'w \<Rightarrow> nat" where
  "slot_status api w =
     (case env_url (host_of api) of
        Ret url \<Rightarrow> rpc_end api url ''getSlot'' [] w (\<lambda>_. 0)
      | _ \<Rightarrow> 2)"

text \<open>\<open>leaders\<close>: the answer is a list of strings, and the slot after the last one is a \<open>u64\<close>.\<close>

definition leaders_status :: "bool \<Rightarrow> ('w, 'j) cli_api \<Rightarrow> string \<Rightarrow> string \<Rightarrow> 'w \<Rightarrow> nat" where
  "leaders_status oc api start_str count_str w =
     (case env_url (host_of api) of
        Ret url \<Rightarrow>
          (case (parse_u64 start_str, parse_u64 count_str) of
             (Some start, Some n) \<Rightarrow>
               if unat n < 1 \<or> 5000 < unat n then 1
               else rpc_end api url ''getSlotLeaders'' [PNum start, PNum n] w (\<lambda>v.
                 case j_as_array (js api) v of
                   None \<Rightarrow> 101
                 | Some arr \<Rightarrow>
                     if list_all (\<lambda>x. j_as_str (js api) x \<noteq> None) arr
                        \<and> (\<not> oc \<or> arr = [] \<or> unat start + length arr < 2 ^ 64) then 0 else 101)
           | _ \<Rightarrow> 1)
      | _ \<Rightarrow> 2)"

definition names_key :: "('w, 'j) cli_api \<Rightarrow> string \<Rightarrow> bool" where
  "names_key api s \<longleftrightarrow> (case bs58_decode api s of Some v \<Rightarrow> length v = 32 | None \<Rightarrow> False)"

text \<open>\<open>hash-account\<close>: all fields of the account are there and decode.\<close>

definition account_decodes :: "('w, 'j) cli_api \<Rightarrow> 'j \<Rightarrow> bool" where
  "account_decodes api val \<longleftrightarrow>
     (let J = js api; field = j_index J val in
      js_as_u64 api (field ''lamports'') \<noteq> None \<and> js_as_bool api (field ''executable'') \<noteq> None
      \<and> (case j_as_str J (field ''owner'') of Some s \<Rightarrow> names_key api s | None \<Rightarrow> False)
      \<and> (case j_as_array J (field ''data'') of
           Some (x # xs) \<Rightarrow> (case j_as_str J x of Some t \<Rightarrow> base64_decode api t \<noteq> None | None \<Rightarrow> False)
         | _ \<Rightarrow> False))"

definition hash_account_status :: "('w, 'j) cli_api \<Rightarrow> string \<Rightarrow> 'w \<Rightarrow> nat" where
  "hash_account_status api pk w =
     (case env_url (host_of api) of
        Ret url \<Rightarrow> rpc_end api url ''getAccountInfo'' (account_info_params pk ''finalized'') w (\<lambda>v.
          let val = j_index (js api) v ''value'' in
          if js_is_null api val then 1
          else if account_decodes api val \<and> names_key api pk then 0 else 101)
      | _ \<Rightarrow> 2)"

text \<open>\<open>verify-shred\<close>: the file, a hex text or not, the key, and the verifier.\<close>

definition verify_shred_status ::
  "('r, 's) listener_env \<Rightarrow> ('w, 'j) cli_api \<Rightarrow> (bytes \<Rightarrow> bytes option) \<Rightarrow> bytes option \<Rightarrow> string \<Rightarrow> nat" where
  "verify_shred_status env api hex_decode content leader_b58 =
     (case Option.bind content (\<lambda>bs.
             if list_all (\<lambda>b. is_hexdigit b \<or> is_ascii_space b) bs
             then hex_decode (filter (\<lambda>b. \<not> is_ascii_space b) bs) else Some bs) of
        None \<Rightarrow> 101
      | Some raw \<Rightarrow>
          if \<not> names_key api leader_b58 then 101
          else (case verify_shred (le_sha env) (le_ed env) (le_oc env) raw (the (bs58_decode api leader_b58)) of
                  Ret v \<Rightarrow> 0 | Fail e \<Rightarrow> 1 | Panic \<Rightarrow> 101))"

definition verify_slot_status :: "(bytes \<Rightarrow> nat \<Rightarrow> bytes) \<Rightarrow> string \<Rightarrow> nat" where
  "verify_slot_status xof mode =
     (if mode = ''ok'' then 0
      else if mode \<noteq> ''tamper'' then 1
      else if hash_account xof b_new_tampered = hash_account xof b_new then 0 else 2)"

text \<open>
  \<open>rpc-attest\<close>: the arguments, the overflows, the first snapshot, the first poll that ends the loop (without
  one the command runs forever), the second snapshot, and the two verdicts.
\<close>

definition attest_status ::
  "bool \<Rightarrow> ('w, 'j) cli_api \<Rightarrow> (bytes \<Rightarrow> nat \<Rightarrow> bytes) \<Rightarrow> string \<Rightarrow> string \<Rightarrow> 'w \<Rightarrow> nat option" where
  "attest_status oc api xof pk wait_slots_str w =
     (case parse_u64 wait_slots_str of
        None \<Rightarrow> Some 1
      | Some n \<Rightarrow>
      if n = 0 then Some 1 else
     (case env_url (host_of api) of
        Ret url \<Rightarrow>
          if oc \<and> 2 ^ 64 \<le> unat n * 400 then Some 101 else
          (case fetch_snapshot api url pk w of
             (w1, Fail e) \<Rightarrow> Some 1
           | (w1, Panic) \<Rightarrow> Some 101
           | (w1, Ret old) \<Rightarrow>
          if oc \<and> 2 ^ 64 \<le> unat (as_slot old) + unat n then Some 101 else
          let ends = (\<lambda>k. poll_ends api url (as_slot old + n) (before_poll api url w1 k)) in
          if \<not> (\<exists>k. ends k) then None else
          (case fetch_current_slot api url (before_poll api url w1 (LEAST k. ends k)) of
             (w2, Ret s) \<Rightarrow>
               (case fetch_snapshot api url pk w2 of
                  (w3, Fail e) \<Rightarrow> Some 1
                | (w3, Panic) \<Rightarrow> Some 101
                | (w3, Ret new) \<Rightarrow>
                    Some (if as_data new \<noteq> [] \<and> hash_account xof (tamper new) = hash_account xof (as_for_hash new)
                          then 1 else 0))
           | (w2, _) \<Rightarrow> Some 1))
      | _ \<Rightarrow> Some 2))"

section \<open>The commands end with it\<close>

abbreviation code_of :: "('w, 'j, nat) cli_io \<Rightarrow> 'w \<Rightarrow> nat" where
  "code_of m w \<equiv> exit_code (snd (snd (m w)))"

lemma io_bind_outcome:
  "snd (snd (io_bind m f w)) =
     (case snd (snd (m w)) of Ret x \<Rightarrow> snd (snd (f x (fst (m w)))) | Fail c \<Rightarrow> Fail c | Panic \<Rightarrow> Panic)"
  by (cases "m w" rule: prod_cases3) (simp add: io_bind_def split: outcome.split prod.split)

lemma io_prim [simp]:
  "snd (snd (io_ret x w)) = Ret x" "snd (snd (io_print ls w)) = Ret ()" "snd (snd (io_lift r w)) = r"
  "fst (io_ret x w) = w" "fst (io_print ls w) = w" "fst (io_lift r w) = w"
  by (simp_all add: io_ret_def io_print_def io_lift_def)

lemma print_bind [simp]: "code_of (io_bind (io_print ls) (\<lambda>_. io_ret c)) w = c"
  by (simp add: io_bind_outcome)

lemma url_bind:
  "code_of (io_bind (io_lift (env_url h)) f) w = (case env_url h of Ret url \<Rightarrow> code_of (f url) w | _ \<Rightarrow> 2)"
  by (cases "env_url h") (simp_all add: io_bind_outcome env_url_Fail)

lemma rpc_bind:
  assumes "\<And>v w'. code_of (f v) w' = g v"
  shows "code_of (io_bind (rpc api url method ps) f) w = rpc_end api url method ps w g"
  using assms
  by (simp add: io_bind_outcome rpc_def rpc_end_def split: prod.split http_reply.split option.split)

lemma slot_code: "code_of (cmd_slot api) w = slot_status api w"
  unfolding cmd_slot_def url_bind slot_status_def
  by (intro outcome.case_cong refl rpc_bind) (simp add: io_bind_outcome SUCCESS_def)

text \<open>The ranges that \<open>leaders\<close> prints.\<close>

lemma run_end_not_Fail [simp]: "run_end oc start i \<noteq> Fail c"
  by (simp add: run_end_def obind_eq_Fail)

lemma run_end_release [simp]: "run_end False start i = Ret (start + word_of_nat i - 1)"
  by (simp add: run_end_def)

lemma leader_runs_not_Fail: "snd (leader_runs oc api start i arr prev run_start out) \<noteq> Fail c"
  by (induction oc api start i arr prev run_start out rule: leader_runs.induct)
    (auto simp: obind_eq_Fail split: option.split outcome.split)

lemma leader_runs_strings:
  "snd (leader_runs oc api start i arr prev run_start out) = Ret r \<Longrightarrow>
     list_all (\<lambda>x. j_as_str (js api) x \<noteq> None) arr \<and> (arr \<noteq> [] \<or> prev \<noteq> None \<longrightarrow> fst (snd r) \<noteq> None)"
  by (induction oc api start i arr prev run_start out rule: leader_runs.induct)
    (auto split: option.splits outcome.splits if_splits)

lemma leader_runs_fit:
  assumes "list_all (\<lambda>x. j_as_str (js api) x \<noteq> None) arr" and "\<not> oc \<or> unat start + i + length arr < 2 ^ 64"
    and "prev = None \<or> 0 < i"
  shows "\<exists>r. snd (leader_runs oc api start i arr prev run_start out) = Ret r \<and> (arr = [] \<longrightarrow> fst (snd r) = prev)"
  using assms
proof (induction arr arbitrary: i prev run_start out)
  case (Cons x arr)
  then obtain s where s: "j_as_str (js api) x = Some s" by auto
  have IH: "\<exists>r. snd (leader_runs oc api start (Suc i) arr p rs o') = Ret r" for p rs o'
  proof -
    have "list_all (\<lambda>x. j_as_str (js api) x \<noteq> None) arr" and "\<not> oc \<or> unat start + Suc i + length arr < 2 ^ 64"
      using Cons.prems(1,2) by auto
    from Cons.IH [OF this, of p rs o'] show ?thesis by blast
  qed
  have "\<exists>e. run_end oc start i = Ret e" if "prev \<noteq> None"
    using Cons.prems(2,3) that run_end_ok [of start i oc] by (cases oc) auto
  moreover have "\<exists>e. rust_add oc start (word_of_nat i) = (Ret e :: (nat, u64) outcome)"
    using Cons.prems(2) slot_plus_ok [of start i oc] by (cases oc) auto
  ultimately show ?case using IH s by (auto split: option.split)
qed simp

lemma print_runs_outcome:
  assumes "length arr < 2 ^ 64"
  shows "snd (print_runs oc api start arr) =
     (if list_all (\<lambda>x. j_as_str (js api) x \<noteq> None) arr \<and> (\<not> oc \<or> arr = [] \<or> unat start + length arr < 2 ^ 64)
      then Ret SUCCESS else Panic)"
proof -
  obtain out r where run: "leader_runs oc api start 0 arr None start [] = (out, r)" by fastforce
  have last: "run_end oc start (length arr) = Panic" if "oc" "\<not> unat start + length arr < 2 ^ 64"
    using that assms by (simp add: run_end_def rust_add_def unat_of_nat)
  have fit: "\<exists>e. run_end oc start (length arr) = Ret e" if "arr \<noteq> []" "\<not> oc \<or> unat start + length arr < 2 ^ 64"
    using that run_end_ok [of start "length arr" oc] by (cases oc) auto
  show ?thesis
  proof (cases r)
    case (Ret v)
    obtain n p rs where v: "v = (n, p, rs)" by (cases v)
    have "list_all (\<lambda>x. j_as_str (js api) x \<noteq> None) arr" and p: "arr \<noteq> [] \<Longrightarrow> p \<noteq> None"
      using leader_runs_strings [of oc api start 0 arr None start "[]" v] run Ret by (simp_all add: v)
    moreover have "p = None" if "arr = []" using run that Ret by (simp add: v)
    ultimately show ?thesis
      using last fit by (cases "arr = []") (auto simp: print_runs_def run Ret v)
  next
    case (Fail c)
    with leader_runs_not_Fail [of oc api start 0 arr None start "[]" c] run show ?thesis by simp
  next
    case Panic
    with leader_runs_fit [of api arr oc start 0 None start "[]"] run show ?thesis
      by (cases "arr = []") (auto simp: print_runs_def)
  qed
qed

text \<open>A \<open>Vec\<close> has fewer than \<open>2 ^ 64\<close> elements.\<close>

definition short_arrays :: "'j json_api \<Rightarrow> bool" where
  "short_arrays J \<longleftrightarrow> (\<forall>v. case j_as_array J v of Some arr \<Rightarrow> length arr < 2 ^ 64 | None \<Rightarrow> True)"

lemma leaders_code:
  assumes "short_arrays (js api)"
  shows "code_of (cmd_leaders oc api a b) w = leaders_status oc api a b w"
proof -
  have short: "length arr < 2 ^ 64" if "j_as_array (js api) v = Some arr" for v arr
    using assms that by (fastforce simp: short_arrays_def split: option.splits)
  have ranges: "code_of (io_bind (io_lift (unwrap (j_as_array (js api) v)))
        (\<lambda>arr w. (w, print_runs oc api start arr))) w'
      = (case j_as_array (js api) v of None \<Rightarrow> 101 | Some arr \<Rightarrow>
          if list_all (\<lambda>x. j_as_str (js api) x \<noteq> None) arr
             \<and> (\<not> oc \<or> arr = [] \<or> unat start + length arr < 2 ^ 64) then 0 else 101)" for v w' start
    using print_runs_outcome [OF short, of v _ oc api start]
    by (cases "j_as_array (js api) v") (auto simp: io_bind_outcome SUCCESS_def split: prod.split)
  have count: "\<not> (1 \<le> c \<and> c \<le> 5000) \<longleftrightarrow> unat c < 1 \<or> 5000 < unat c" for c :: u64
    by (simp add: word_le_nat_alt not_le)
  show ?thesis
    unfolding cmd_leaders_def url_bind leaders_status_def count
    by (intro outcome.case_cong refl, cases "parse_u64 a"; cases "parse_u64 b")
      (simp_all add: rpc_bind [OF ranges] FAILURE_def)
qed

lemma key_outcome:
  "pubkey_from_b58 api s = (if names_key api s then Ret (the (bs58_decode api s)) else Panic)"
  by (auto simp: pubkey_from_b58_def names_key_def split: option.split)

lemma lift_bind:
  assumes "\<And>x. code_of (f x) w = n"
  shows "code_of (io_bind (io_lift r) f) w = (case r of Ret x \<Rightarrow> n | Fail c \<Rightarrow> c | Panic \<Rightarrow> 101)"
  using assms by (simp add: io_bind_outcome split: outcome.split)

lemma case_unwrap:
  "(case obind (unwrap m) f of Ret x \<Rightarrow> a x | Fail c \<Rightarrow> b c | Panic \<Rightarrow> p) =
     (case m of None \<Rightarrow> p | Some y \<Rightarrow> case f y of Ret x \<Rightarrow> a x | Fail c \<Rightarrow> b c | Panic \<Rightarrow> p)"
  by (cases m) simp_all

lemma hash_account_code: "code_of (cmd_hash_account api xof b3 pk) w = hash_account_status api pk w"
proof -
  have undo: "mix_out (mix_in lt_identity h) h = lt_identity" for h by (simp add: lt_group)
  let ?show = "\<lambda>(s, acct).
      io_bind (io_print [AccountReport pk s (lamports acct) (executable acct) (length (data acct))
        (take 8 (limbs (hash_account xof acct))) (checksum b3 (hash_account xof acct))]) (\<lambda>_.
      if \<not> is_identity (mix_out (mix_in lt_identity (hash_account xof acct)) (hash_account xof acct)) then io_lift Panic
      else io_bind (io_print [HomomorphismOk]) (\<lambda>_. io_ret SUCCESS))"
  have "code_of (?show x) w' = 0" for x w'
    by (simp add: io_bind_outcome undo SUCCESS_def is_identity_iff lt_group split: prod.split)
  from lift_bind [where f = ?show, OF this]
  have lift: "code_of (io_bind (io_lift r) ?show) w' = (case r of Ret x \<Rightarrow> 0 | Fail c \<Rightarrow> c | Panic \<Rightarrow> 101)" for r w' .
  show ?thesis
    unfolding cmd_hash_account_def hash_account_status_def Let_def url_bind
    by (intro outcome.case_cong refl rpc_bind)
      (simp add: lift case_unwrap FAILURE_def account_decodes_def key_outcome rindex_def Let_def io_bind_outcome [of "io_print _"]
        split: option.split list.split)
qed

lemma verify_shred_code:
  "exit_code (obind (cmd_verify_shred env api hx content leader) (\<lambda>(shown, c). Ret c))
     = verify_shred_status env api hx content leader"
proof (cases content)
  case (Some bs)
  let ?hex = "list_all (\<lambda>b. is_hexdigit b \<or> is_ascii_space b) bs"
  let ?raw = "if ?hex then hx (filter (\<lambda>b. \<not> is_ascii_space b) bs) else Some bs"
  have content: "shred_file hx bs = ((case ?raw of None \<Rightarrow> Panic | Some raw \<Rightarrow> Ret raw) :: (nat, bytes) outcome)"
    by (cases ?hex; cases "hx (filter (\<lambda>b. \<not> is_ascii_space b) bs)") (simp_all add: shred_file_def)
  have bind: "Option.bind content (\<lambda>bs. if list_all (\<lambda>b. is_hexdigit b \<or> is_ascii_space b) bs
      then hx (filter (\<lambda>b. \<not> is_ascii_space b) bs) else Some bs) = ?raw" by (simp add: Some)
  show ?thesis
    unfolding verify_shred_status_def bind
    by (cases ?raw) (auto simp: cmd_verify_shred_def Some content key_outcome SUCCESS_def FAILURE_def split: outcome.split)
qed (simp add: cmd_verify_shred_def verify_shred_status_def)

lemma das_demo_code:
  assumes "demo_env env sg (replicate 32 0x4c)"
  shows "exit_code (obind (cmd_das_demo env sg n_str) (\<lambda>(out, c). Ret c))
     = (case parse_u64 n_str of Some n \<Rightarrow> if unat n \<le> 64 then 0 else 1 | None \<Rightarrow> 1)"
proof (cases "parse_u64 n_str")
  case (Some n)
  show ?thesis
  proof (cases "n \<le> 64")
    case True
    from das_demo_run [OF assms Some True] obtain out where "cmd_das_demo env sg n_str = Ret (out, SUCCESS)" by blast
    with Some True show ?thesis by (simp add: SUCCESS_def word_le_nat_alt)
  next
    case False
    with Some show ?thesis by (simp add: cmd_das_demo_def FAILURE_def word_le_nat_alt not_le word_less_nat_alt)
  qed
qed (simp add: cmd_das_demo_def FAILURE_def)

lemma verify_slot_code: "exit_code (snd (cmd_verify_slot xof b3 sg mode)) = verify_slot_status xof mode"
  by (simp add: verify_slot_modes Let_def verify_slot_status_def SUCCESS_def FAILURE_def)

lemma attest_snapshots_code:
  "exit_code (snd (attest_snapshots xof b3 sg old new)) =
     (if as_data new \<noteq> [] \<and> hash_account xof (tamper new) = hash_account xof (as_for_hash new) then 1 else 0)"
  by (simp add: attest_snapshots_eq Let_def SUCCESS_def FAILURE_def)

lemma slot_demo_code:
  assumes "demo_env env sg (replicate 32 0x5a)"
  shows "exit_code (obind (cmd_slot_demo env sg) (\<lambda>(out, c). Ret c)) = 0"
  using slot_demo_succeeds [OF assms] by (auto simp: SUCCESS_def)

lemma fetch_slot_not_Panic [simp]: "fetch_current_slot api url w \<noteq> (w', Panic)"
  by (auto simp: fetch_current_slot_def split: prod.split http_reply.split option.split)

lemma rpc_attest_code:
  "map_option (\<lambda>(w', out, r). exit_code r) (cmd_rpc_attest oc api xof b3 sg pk ws w) = attest_status oc api xof pk ws w"
proof (cases "parse_u64 ws")
  case (Some n)
  show ?thesis
  proof (cases "1 \<le> n")
    case True
    then have n0: "n \<noteq> 0" by auto
    have mul: "rust_mul c n 400 = (if c \<and> 2 ^ 64 \<le> unat n * 400 then Panic else Ret (n * 400) :: (unit, u64) outcome)"
      and add: "rust_add c a n = (if c \<and> 2 ^ 64 \<le> unat a + unat n then Panic else Ret (a + n) :: (unit, u64) outcome)"
      for c a by (auto simp: rust_mul_def rust_add_def)
    note start = cmd_rpc_attest_def attest_status_def Some True n0
    show ?thesis
    proof (cases "env_url (host_of api)")
      case (Ret url)
      obtain w1 r1 where f1: "fetch_snapshot api url pk w = (w1, r1)" by fastforce
      show ?thesis
      proof (cases r1)
        case (Ret old)
        obtain w2 r2 where f2: "fetch_current_slot api url (before_poll api url w1
            (LEAST k. poll_ends api url (as_slot old + n) (before_poll api url w1 k))) = (w2, r2)" by fastforce
        then have "r2 \<noteq> Panic" by auto
        with f2 show ?thesis
          by (cases "fetch_snapshot api url pk w2"; cases "snd (fetch_snapshot api url pk w2)"; cases r2)
            (simp_all add: start \<open>env_url (host_of api) = Ret url\<close> f1 Ret mul add poll_slot_eq poll_result_def
              FAILURE_def Let_def split_beta attest_snapshots_code)
      qed (simp_all add: start Ret f1 mul FAILURE_def)
    qed (auto simp: start dest: env_url_Fail)
  next
    case False
    then have "n = 0" by (cases "unat n") (simp_all add: word_le_nat_alt unat_eq_0)
    then show ?thesis by (simp add: cmd_rpc_attest_def attest_status_def Some FAILURE_def)
  qed
qed (simp add: cmd_rpc_attest_def attest_status_def FAILURE_def)

end
