(* ===== verification/Cli.thy ===== *)
theory Cli
  imports Cli_Status
begin

text \<open>
  \<open>crates/cli/src/main.rs\<close>: the command \<open>keygen\<close>, which writes a key file, and \<open>main\<close>, which chooses the
  command by its arguments. The file system is the record \<open>disk\<close>: which paths can be written depends on
  the directories that exist, a new file gets a default mode, changing a mode may fail.
\<close>

section \<open>keygen\<close>

record disk =
  files :: "string \<Rightarrow> (string \<times> nat) option" \<comment> \<open>content and mode\<close>
  dirs :: "string set"
  can_mkdir :: "string \<Rightarrow> bool"
  can_write :: "string set \<Rightarrow> string \<Rightarrow> bool"
  can_chmod :: "string \<Rightarrow> bool"
  fresh_mode :: nat

definition create_dir_all :: "string \<Rightarrow> disk \<Rightarrow> disk" where
  "create_dir_all p d = (if can_mkdir d p then d\<lparr>dirs := insert p (dirs d)\<rparr> else d)"

definition fs_write :: "string \<Rightarrow> string \<Rightarrow> disk \<Rightarrow> disk option" where
  "fs_write p content d =
     (if can_write d (dirs d) p
      then Some (d\<lparr>files := (files d)(p \<mapsto> (content, case files d p of Some (_, m) \<Rightarrow> m | None \<Rightarrow> fresh_mode d))\<rparr>)
      else None)"

definition set_mode :: "string \<Rightarrow> nat \<Rightarrow> disk \<Rightarrow> disk" where
  "set_mode p m d =
     (if can_chmod d p then d\<lparr>files := (files d)(p := map_option (\<lambda>(c, _). (c, m)) (files d p))\<rparr> else d)"

record keygen_api =
  getrandom :: "bytes option" \<comment> \<open>the 32 bytes drawn\<close>
  json_bytes :: "bytes \<Rightarrow> string" \<comment> \<open>\<open>serde_json::to_string\<close> of a byte vector\<close>
  bs58_encode :: "bytes \<Rightarrow> string"
  path_parent :: "string \<Rightarrow> string option"

text \<open>Prints the public key and the path.\<close>

definition cmd_keygen ::
  "keygen_api \<Rightarrow> bytes signer_api \<Rightarrow> (string \<Rightarrow> string option) \<Rightarrow> string option \<Rightarrow> disk
     \<Rightarrow> disk \<times> (string \<times> string) option \<times> nat" where
  "cmd_keygen kg sg var out_path d =
     (case getrandom kg of
        None \<Rightarrow> (d, None, FAILURE)
      | Some seed \<Rightarrow>
          let pubkey = sk_public sg seed;
              json = json_bytes kg (seed @ pubkey);
              default_path = (case var ''HOME'' of
                                Some home \<Rightarrow> home @ ''/.config/solana/lattica.json''
                              | None \<Rightarrow> ''lattica.json'');
              path = (case out_path of Some p \<Rightarrow> p | None \<Rightarrow> default_path);
              d1 = (case path_parent kg path of Some parent \<Rightarrow> create_dir_all parent d | None \<Rightarrow> d)
          in (case fs_write path json d1 of
                None \<Rightarrow> (d1, None, FAILURE)
              | Some d2 \<Rightarrow> (set_mode path 384 d2, Some (bs58_encode kg pubkey, path), SUCCESS)))"

section \<open>main\<close>

text \<open>Everything the commands depend on.\<close>

record ('r, 'w, 'j) cli_host =
  ch_api :: "('w, 'j) cli_api"
  ch_env :: "('r, bytes) listener_env" \<comment> \<open>hash, signatures, codec and the build profile\<close>
  ch_signer :: "bytes signer_api"
  ch_xof :: "bytes \<Rightarrow> nat \<Rightarrow> bytes"
  ch_b3 :: "bytes \<Rightarrow> bytes"
  ch_hex :: "bytes \<Rightarrow> bytes option"
  ch_keygen :: keygen_api
  ch_read :: "string \<Rightarrow> bytes option" \<comment> \<open>\<open>fs::read\<close>\<close>

definition run_io :: "('w, 'j, nat) cli_io \<Rightarrow> disk \<times> 'w \<Rightarrow> ((disk \<times> 'w) \<times> (nat, nat) outcome) option" where
  "run_io m s = (case m (snd s) of (w', ls, r) \<Rightarrow> Some ((fst s, w'), r))"

definition usage :: "disk \<times> 'w \<Rightarrow> ((disk \<times> 'w) \<times> (nat, nat) outcome) option" where
  "usage s = Some (s, Ret FAILURE)"

definition cli_main ::
  "('r, 'w, 'j) cli_host \<Rightarrow> string list \<Rightarrow> disk \<times> 'w \<Rightarrow> ((disk \<times> 'w) \<times> (nat, nat) outcome) option" where
  "cli_main h args s =
     (let n = length args; oc = le_oc (ch_env h); api = ch_api h in
      if n < 2 then usage s
      else if args ! 1 = ''slot'' then run_io (cmd_slot api) s
      else if args ! 1 = ''hash-account'' \<and> n = 3 then
        run_io (cmd_hash_account api (ch_xof h) (ch_b3 h) (args ! 2)) s
      else if args ! 1 = ''verify-shred'' \<and> n = 4 then
        Some (s, obind (cmd_verify_shred (ch_env h) api (ch_hex h) (ch_read h (args ! 2)) (args ! 3))
                   (\<lambda>(shown, c). Ret c))
      else if args ! 1 = ''das-demo'' \<and> n = 3 then
        Some (s, obind (cmd_das_demo (ch_env h) (ch_signer h) (args ! 2)) (\<lambda>(out, c). Ret c))
      else if args ! 1 = ''slot-demo'' then
        Some (s, obind (cmd_slot_demo (ch_env h) (ch_signer h)) (\<lambda>(out, c). Ret c))
      else if args ! 1 = ''verify-slot'' \<and> n = 3 then
        Some (s, snd (cmd_verify_slot (ch_xof h) (ch_b3 h) (ch_signer h) (args ! 2)))
      else if args ! 1 = ''rpc-attest'' \<and> n = 4 then
        map_option (\<lambda>(w', out, r). ((fst s, w'), r))
          (cmd_rpc_attest oc api (ch_xof h) (ch_b3 h) (ch_signer h) (args ! 2) (args ! 3) (snd s))
      else if args ! 1 = ''keygen'' then
        (case cmd_keygen (ch_keygen h) (ch_signer h) (env_var (host_of api))
                (if 2 < n then Some (args ! 2) else None) (fst s) of
           (d', shown, c) \<Rightarrow> Some ((d', snd s), Ret c))
      else if args ! 1 = ''leaders'' \<and> n = 4 then run_io (cmd_leaders oc api (args ! 2) (args ! 3)) s
      else usage s)"

section \<open>How the program ends\<close>

text \<open>\<open>keygen\<close> needs 32 random bytes and a path that can be written once its parent is made.\<close>

definition keygen_status :: "keygen_api \<Rightarrow> (string \<Rightarrow> string option) \<Rightarrow> string option \<Rightarrow> disk \<Rightarrow> nat" where
  "keygen_status kg var out_path d =
     (let path = (case out_path of
                    Some p \<Rightarrow> p
                  | None \<Rightarrow> (case var ''HOME'' of
                      Some home \<Rightarrow> home @ ''/.config/solana/lattica.json'' | None \<Rightarrow> ''lattica.json''));
          made = (case path_parent kg path of Some p \<Rightarrow> if can_mkdir d p then {p} else {} | None \<Rightarrow> {})
      in if getrandom kg \<noteq> None \<and> can_write d (made \<union> dirs d) path then 0 else 1)"

lemma keygen_code: "snd (snd (cmd_keygen kg sg var out_path d)) = keygen_status kg var out_path d"
  by (simp add: cmd_keygen_def keygen_status_def Let_def fs_write_def create_dir_all_def SUCCESS_def FAILURE_def
      split: option.split)

text \<open>The exit code of a command line; \<open>None\<close> is a run that never ends.\<close>

definition cli_status :: "('r, 'w, 'j) cli_host \<Rightarrow> string list \<Rightarrow> disk \<times> 'w \<Rightarrow> nat option" where
  "cli_status h args s =
     (let n = length args; api = ch_api h; oc = le_oc (ch_env h); w = snd s in
      if n < 2 then Some 1
      else if args ! 1 = ''slot'' then Some (slot_status api w)
      else if args ! 1 = ''hash-account'' \<and> n = 3 then Some (hash_account_status api (args ! 2) w)
      else if args ! 1 = ''verify-shred'' \<and> n = 4 then
        Some (verify_shred_status (ch_env h) api (ch_hex h) (ch_read h (args ! 2)) (args ! 3))
      else if args ! 1 = ''das-demo'' \<and> n = 3 then
        Some (case parse_u64 (args ! 2) of Some k \<Rightarrow> if unat k \<le> 64 then 0 else 1 | None \<Rightarrow> 1)
      else if args ! 1 = ''slot-demo'' then Some 0
      else if args ! 1 = ''verify-slot'' \<and> n = 3 then Some (verify_slot_status (ch_xof h) (args ! 2))
      else if args ! 1 = ''rpc-attest'' \<and> n = 4 then attest_status oc api (ch_xof h) (args ! 2) (args ! 3) w
      else if args ! 1 = ''keygen'' then
        Some (keygen_status (ch_keygen h) (env_var (host_of api)) (if 2 < n then Some (args ! 2) else None) (fst s))
      else if args ! 1 = ''leaders'' \<and> n = 4 then Some (leaders_status oc api (args ! 2) (args ! 3) w)
      else Some 1)"

abbreviation end_code :: "('s \<times> (nat, nat) outcome) option \<Rightarrow> nat option" where
  "end_code r \<equiv> map_option (\<lambda>(s', r). exit_code r) r"

lemma run_io_code: "end_code (run_io m s) = Some (code_of m (snd s))"
  by (simp add: run_io_def split: prod.split)

section \<open>Properties\<close>

text \<open>
  C31: The exit code of every run of the command line tool, and whether it ends. The code is the one that
  \<open>cli_status\<close> gives from the arguments, the answers of the RPC server, the file system and the verifier: 1
  for a wrong usage, argument or input and for a rejected shred, 2 without a URL and for a caught tampering
  of \<open>verify-slot\<close>, 3 for an error answer of the server, 101 for a panic, and 0 otherwise; only
  \<open>rpc-attest\<close> may run forever, when no poll of its loop fails or reaches the target. The demonstrations
  need the contracts of the hash, the codec and the two demo keys; an array of the server is a \<open>Vec\<close>.
\<close>

theorem cli_ends:
  assumes "demo_env (ch_env h) (ch_signer h) (replicate 32 0x4c)"
    and "demo_env (ch_env h) (ch_signer h) (replicate 32 0x5a)"
    and "short_arrays (js (ch_api h))"
  shows "map_option (\<lambda>(s', r). exit_code r) (cli_main h args s) = cli_status h args s"
proof -
  have keygen: "end_code (case cmd_keygen kg sg var p d of (d', shown, c) \<Rightarrow> Some ((d', w), Ret c))
      = Some (keygen_status kg var p d)" for kg sg var p d and w :: 'b
    by (simp add: keygen_code [of kg sg, symmetric] split: prod.split)
  have attest: "end_code (map_option (\<lambda>(w', out, r). ((d, w'), r)) m)
      = map_option (\<lambda>(w', out, r). exit_code r) m" for m :: "('b \<times> 'c attest_line list \<times> (nat, nat) outcome) option"
      and d :: disk
    by (cases m) (simp_all add: split_beta)
  show ?thesis
    unfolding cli_main_def cli_status_def Let_def if_distrib [of end_code] keygen attest rpc_attest_code run_io_code
      slot_code hash_account_code leaders_code [OF assms(3)]
    by (intro if_cong refl)
      (simp_all add: usage_def FAILURE_def verify_shred_code das_demo_code [OF assms(1)] slot_demo_code [OF assms(2)]
        verify_slot_code)
qed

definition sample_disk :: disk where
  "sample_disk = \<lparr>files = (\<lambda>_. None), dirs = {}, can_mkdir = (\<lambda>_. True), can_write = (\<lambda>ds p. ''/h'' \<in> ds),
     can_chmod = (\<lambda>_. False), fresh_mode = 420\<rparr>"

definition sample_keygen :: keygen_api where
  "sample_keygen = \<lparr>getrandom = Some (replicate 32 9), json_bytes = map (\<lambda>b. char_of (unat b)),
     bs58_encode = (\<lambda>bs. ''key''), path_parent = (\<lambda>_. Some ''/h'')\<rparr>"

definition short_json_api :: "sample_json json_api" where
  "short_json_api = sample_json_api\<lparr>j_as_array :=
     (\<lambda>v. case v of JList xs \<Rightarrow> if length xs < 2 ^ 64 then Some xs else None | _ \<Rightarrow> None)\<rparr>"

definition short_api :: "(sample_json http_reply list, sample_json) cli_api" where
  "short_api = scripted_api\<lparr>js := short_json_api\<rparr>"

lemma short_api_simps [simp]:
  "js short_api = short_json_api" "env_url (host_of short_api) = Ret ''http://rpc''"
  "http_post short_api (r # rs) url m ps = (rs, r)" "http_post short_api [] url m ps = ([], TransportError)"
  "js_as_u64 short_api (JNum n) = Some n" "js_as_bool short_api (JBool b) = Some b"
  "js_is_null short_api v \<longleftrightarrow> v = JNull" "bs58_decode short_api s = Some (replicate 32 (word_of_nat (length s)))"
  "base64_decode short_api s = Some (map of_char s)"
  "j_get short_json_api = sample_get" "j_as_str short_json_api (JText s) = Some s" "j_as_str short_json_api JNull = None"
  "j_as_array short_json_api (JList [x]) = Some [x]" "j_index short_json_api (JObj ((k, x) # kvs)) k = x"
  "k' \<noteq> k \<Longrightarrow> j_index short_json_api (JObj ((k', x) # kvs)) k = j_index short_json_api (JObj kvs) k"
  by (simp_all add: short_api_def scripted_api_def short_json_api_def sample_json_api_def env_url_def)

definition sample_host :: "(unit, sample_json http_reply list, sample_json) cli_host" where
  "sample_host = \<lparr>ch_api = short_api, ch_env = sample_env, ch_signer = seed_signer,
     ch_xof = byte_xof 8, ch_b3 = (\<lambda>m. []), ch_hex = (\<lambda>bs. None), ch_keygen = sample_keygen,
     ch_read = (\<lambda>p. None)\<rparr>"

lemma sample_host_ok:
  "demo_env (ch_env sample_host) (ch_signer sample_host) seed" "short_arrays (js (ch_api sample_host))"
  by (simp_all add: sample_host_def sample_demo_env short_arrays_def) (simp add: short_json_api_def split: sample_json.split)

lemma short_attest:
  assumes "parse_u64 ''2'' = Some 2"
  shows "attest_status oc short_api xof ''abc'' ''2'' [snapshot_reply 100 5 ''AB'', slot_reply 103] = Some 1"
proof -
  let ?ends = "\<lambda>k. poll_ends short_api ''http://rpc'' 102 (before_poll short_api ''http://rpc'' [slot_reply 103] k)"
  have first: "fetch_snapshot short_api url ''abc'' [snapshot_reply 100 5 ''AB'', slot_reply 103]
      = ([slot_reply 103], Ret (scripted_snapshot 100 5 ''AB''))" for url
    by (simp add: fetch_snapshot_def snapshot_reply_def scripted_snapshot_def decode_snapshot_def
        pubkey_from_b58_def rindex_def)
  have slot: "fetch_current_slot short_api url [slot_reply 103] = ([], Ret 103)" for url
    by (simp add: fetch_current_slot_def slot_reply_def)
  have reached: "?ends 0" by (simp add: poll_ends_def slot)
  have "Least ?ends = 0" "\<exists>k. ?ends k" by (rule Least_eq_0 [of ?ends, OF reached], rule exI [of ?ends, OF reached])
  moreover have "fetch_snapshot short_api url ''abc'' [] = ([], Fail FetchTransport)" for url
    by (simp add: fetch_snapshot_def)
  ultimately show ?thesis
    by (simp add: attest_status_def assms first slot scripted_snapshot_def Let_def)
qed

text \<open>
  A range of leaders that is too short; a schedule that is not a list of names; a directory that cannot be
  made for the key; a caught tampering; and an attestation whose second snapshot does not arrive.
\<close>

theorem cli_ends_witness:
  "map (\<lambda>(args, s). map_option (\<lambda>(s', r). exit_code r) (cli_main sample_host args s))
     [([''lattica'', ''leaders'', ''7'', ''0''], sample_disk, []),
      ([''lattica'', ''leaders'', ''7'', ''1''], sample_disk, [Body (JObj [(''result'', JList [JNull])])]),
      ([''lattica'', ''keygen''], sample_disk\<lparr>can_mkdir := (\<lambda>p. False)\<rparr>, []),
      ([''lattica'', ''verify-slot'', ''tamper''], sample_disk, []),
      ([''lattica'', ''rpc-attest'', ''abc'', ''2''], sample_disk, [snapshot_reply 100 5 ''AB'', slot_reply 103])]
   = [Some 1, Some 101, Some 1, Some 2, Some 1]"
proof -
  have p: "parse_u64 ''0'' = Some 0" "parse_u64 ''1'' = Some 1" "parse_u64 ''2'' = Some 2" "parse_u64 ''7'' = Some 7"
    by (simp_all add: parse_u64_def char_digit_def)
  have "leaders_status oc short_api ''7'' ''0'' [] = 1"
    "leaders_status oc short_api ''7'' ''1'' [Body (JObj [(''result'', JList [JNull])])] = 101" for oc
    by (simp_all add: leaders_status_def p rpc_end_def)
  moreover have "keygen_status (ch_keygen sample_host) v None (sample_disk\<lparr>can_mkdir := (\<lambda>p. False)\<rparr>) = 1" for v
    by (simp add: keygen_status_def sample_host_def sample_keygen_def sample_disk_def Let_def)
  moreover have "verify_slot_status (ch_xof sample_host) ''tamper'' = 2"
  proof -
    have "account_bytes b_new_tampered ! 8 \<noteq> account_bytes b_new ! 8"
      by (simp add: account_bytes_def b_new_tampered_def b_new_def nth_append)
    with hash_account_eqD [OF byte_xof_ok [of 8] demo_accounts(2,1,4,3) _ demo_accounts(5)] show ?thesis
      by (auto simp: verify_slot_status_def sample_host_def byte_xof_eq)
  qed
  moreover have "attest_status oc short_api xof ''abc'' ''2'' [snapshot_reply 100 5 ''AB'', slot_reply 103] = Some 1"
    for oc xof
    using p by (intro short_attest)
  ultimately show ?thesis
    unfolding list.map prod.case cli_ends [OF sample_host_ok(1) sample_host_ok(1) sample_host_ok(2)]
    by (simp add: cli_status_def sample_host_def Let_def)
qed

text \<open>
  A key reported by \<open>keygen\<close> is on disk: the file at the printed path holds the drawn seed followed by
  its public key, which is the printed one, and no other file changes. The file is private only if the
  change of its mode works; otherwise it keeps the mode it had, or the default, although the command
  still prints that it is 0600.
\<close>

theorem keygen_result:
  assumes "cmd_keygen kg sg var out_path d = (d', Some (shown, path), c)"
  shows "c = SUCCESS \<and>
     (\<exists>seed. getrandom kg = Some seed \<and> shown = bs58_encode kg (sk_public sg seed)
       \<and> files d' path = Some (json_bytes kg (seed @ sk_public sg seed),
           if can_chmod d path then 384
           else case files d path of Some (_, m) \<Rightarrow> m | None \<Rightarrow> fresh_mode d)
       \<and> (\<forall>p. p \<noteq> path \<longrightarrow> files d' p = files d p))"
  using assms
  by (auto simp: cmd_keygen_def Let_def fs_write_def set_mode_def create_dir_all_def
      split: option.splits if_splits)

theorem keygen_result_witness:
  "\<exists>d'. cmd_keygen sample_keygen seed_signer (\<lambda>_. None) (Some ''/h/k'') sample_disk
        = (d', Some (''key'', ''/h/k''), 0)
     \<and> files d' ''/h/k'' = Some (replicate 64 (char_of (9 :: nat)), 420)"
proof -
  obtain d' where run: "cmd_keygen sample_keygen seed_signer (\<lambda>_. None) (Some ''/h/k'') sample_disk
      = (d', Some (''key'', ''/h/k''), 0)"
    by (simp add: cmd_keygen_def sample_keygen_def sample_disk_def fs_write_def set_mode_def create_dir_all_def
        SUCCESS_def Let_def)
  from keygen_result [OF run] have "files d' ''/h/k'' = Some (replicate 64 (char_of (9 :: nat)), 420)"
    by (auto simp: sample_keygen_def sample_disk_def seed_signer_def map_replicate_const
        replicate_add [symmetric] simp flip: replicate_append_same)
  with run show ?thesis by blast
qed

end
