(* ===== verification/Cli_Text.thy ===== *)
theory Cli_Text
  imports Cli Daemon Das
begin

text \<open>
  The texts of \<open>crates/cli/src/main.rs\<close>: what each command prints for the lines of \<open>Cli_Rpc\<close>, \<open>Cli_Attest\<close>
  and \<open>Cli_Demo\<close>, \<open>verify-shred\<close> for a shred, \<open>keygen\<close> for a key, the usage, and the \<open>Display\<close> of \<open>VerifyError\<close>. Strings are UTF-8
  bytes, so the characters outside ASCII are written as the bytes they take.
\<close>

section \<open>Numbers and errors\<close>

definition fmt_prob :: "f64 \<Rightarrow> string" where
  "fmt_prob p =
     (if p = 0 then ''0'' else if f64_round (1 / 1000) \<le> p then show_fixed 6 p else show_exp 3 p)"

fun verify_error_text :: "(bytes \<Rightarrow> string) \<Rightarrow> verify_error \<Rightarrow> string" where
  "verify_error_text hex EmptyTransition = ''transition has neither old nor new state''"
| "verify_error_text hex MalformedDelta = ''attestation delta_lthash limb count != 1024''"
| "verify_error_text hex (DeltaMismatch a r) =
     ''delta mismatch: attested='' @ hex a @ '' recomputed='' @ hex r"

definition ellipsis :: string where "ellipsis = map char_of [0xE2 :: nat, 0x80, 0xA6]"
definition em_dash :: string where "em_dash = map char_of [0xE2 :: nat, 0x80, 0x94]"

section \<open>The demonstrations\<close>

text \<open>\<open>hex\<close> and \<open>enc58\<close> are \<open>hex::encode\<close> and \<open>bs58::encode\<close>.\<close>

fun das_text :: "(bytes \<Rightarrow> string) \<Rightarrow> (bytes \<Rightarrow> string) \<Rightarrow> demo_line \<Rightarrow> line list" where
  "das_text hex enc58 (ConstructedFec n leader rt) = map Out
     [''constructed FEC: 64 shreds, payload='' @ show_nat n @ ''B, leader='' @ enc58 leader,
      ''merkle_root: '' @ hex rt, '''']"
| "das_text hex enc58 (Simulating n) = map Out
     [''simulating delivery of '' @ show_nat n @ '' of 64 shreds (withholding = '' @ show_nat (64 - n) @ '')...'',
      ''a priori DAS confidence at n='' @ show_nat n @ '' (random multi-listener sampling): ''
        @ fmt_prob (das_confidence n), '''']"
| "das_text hex enc58 (StartLine key) = [Out (''  [start ] '' @ slot_set key)]"
| "das_text hex enc58 (ShredLine n i) =
     [Out (''  [shred ] have='' @ show_nat n @ ''/64 erasure_idx='' @ show_nat i)]"
| "das_text hex enc58 (DoneLine rt das) =
     [Out (''  [DONE  ] reconstructed; root='' @ hex rt @ '' das_conf='' @ show_fixed 6 das)]"
| "das_text hex enc58 (RejectLine reason) = [Out (''  [reject] '' @ reason_text reason)]"
| "das_text hex enc58 (Verdict recovered p) = map Out
     ['''', if recovered then ''verdict: block recovered with cryptographic certainty.''
            else ''verdict: NOT recovered. P[adversary undetected | random sampling] = '' @ fmt_prob p]"
| "das_text hex enc58 _ = []"

fun slot_text :: "(bytes \<Rightarrow> string) \<Rightarrow> demo_line \<Rightarrow> line list" where
  "slot_text hex (ConstructedSlot slot) = map Out
     [''constructed 2-FEC-set slot '' @ show_nat (unat slot) @ '':'',
      ''  set A: fec_set_index=0,  flags=0       (32 + 32 shreds)'',
      ''  set B: fec_set_index=32, flags=0xc0    (DATA_COMPLETE | LAST_IN_SLOT)'', '''']"
| "slot_text hex (Delivering label) =
     [Out (''delivering set '' @ label @ '' (32 data shreds)'' @ ellipsis)]"
| "slot_text hex (SetDone i das) =
     [Out (''  [done  ] fec_set='' @ show_nat (unat i) @ '' reconstructed das_conf='' @ show_fixed 6 das)]"
| "slot_text hex (FinalizedLine slot roots rt n das) = map Out
     (['''', ''[SLOT FINALIZED] slot='' @ show_nat (unat slot),
       ''  n_fec_sets         = '' @ show_nat (length roots),
       ''  total_shreds       = '' @ show_nat n,
       ''  slot_das_conf      = '' @ fmt_prob das,
       ''  slot_root          = '' @ hex rt]
      @ map (\<lambda>(i, r). ''    fec_roots['' @ show_nat i @ '']       = '' @ hex r) (enumerate 0 roots))"
| "slot_text hex (RejectLine reason) = [Out (''  [reject] '' @ reason_text reason)]"
| "slot_text hex (SlotVerdict n) = Out '''' #
     (if n = 1
      then map Out
        [''verdict: 2-FEC slot finalized into a single 32-byte slot_root.'',
         ''         Phase 3 milestone '' @ em_dash @ '' multi-FEC + LAST_IN_SLOT detection works.'']
      else [Err (''expected exactly 1 SlotFinalized event, got '' @ show_nat n)])"
| "slot_text hex _ = []"

text \<open>The whole output of \<open>das-demo\<close> and of \<open>slot-demo\<close>.\<close>

definition das_output :: "(bytes \<Rightarrow> string) \<Rightarrow> (bytes \<Rightarrow> string) \<Rightarrow> demo_line list \<Rightarrow> line list" where
  "das_output hex enc58 out = concat (map (das_text hex enc58) out)"

definition slot_output :: "(bytes \<Rightarrow> string) \<Rightarrow> demo_line list \<Rightarrow> line list" where
  "slot_output hex out = concat (map (slot_text hex) out)"

text \<open>What \<open>verify-shred\<close> prints for a shred that verifies.\<close>

definition verified_text :: "(bytes \<Rightarrow> string) \<Rightarrow> verified_shred \<Rightarrow> line list" where
  "verified_text hex v = map Out
     ([''slot:          '' @ show_nat (unat (v_slot v)),
       ''fec_set_index: '' @ show_nat (unat (v_fec_set_index v)),
       ''shred index:   '' @ show_nat (unat (v_index v)),
       ''erasure idx:   '' @ show_nat (v_erasure_shard_index v),
       ''kind:          '' @ (case v_kind v of Data \<Rightarrow> ''Data'' | Code \<Rightarrow> ''Code''),
       ''merkle_root:   '' @ hex (v_merkle_root v)]
      @ (case v_chained_root v of None \<Rightarrow> [] | Some cr \<Rightarrow> [''chained_root:  '' @ hex cr])
      @ [''sig:           OK''])"

section \<open>The commands on the network\<close>

definition arrow :: string where "arrow = map char_of [0xE2 :: nat, 0x86, 0x92]"
definition check_mark :: string where "check_mark = map char_of [0xE2 :: nat, 0x9C, 0x93]"
definition cross_mark :: string where "cross_mark = map char_of [0xE2 :: nat, 0x9C, 0x97]"
definition delta_sign :: string where "delta_sign = map char_of [0xCE :: nat, 0x94]"
definition minus_sign :: string where "minus_sign = map char_of [0xE2 :: nat, 0x88, 0x92]"
definition at_least :: string where "at_least = map char_of [0xE2 :: nat, 0x89, 0xA5]"

definition show_bool :: "bool \<Rightarrow> string" where
  "show_bool b = (if b then ''true'' else ''false'')"

text \<open>The \<open>Debug\<close> text of a slice of limbs.\<close>

fun show_more :: "u16 list \<Rightarrow> string" where
  "show_more [] = '']''"
| "show_more (x # xs) = '', '' @ show_nat (unat x) @ show_more xs"

definition show_limbs :: "u16 list \<Rightarrow> string" where
  "show_limbs xs = (case xs of [] \<Rightarrow> ''[]'' | x # xs \<Rightarrow> ''['' @ show_nat (unat x) @ show_more xs)"

text \<open>
  \<open>jtext\<close> is the \<open>Display\<close> of a JSON value, \<open>int_error\<close> that of the error of parsing a number, \<open>why\<close> what a
  library says of its failure.
\<close>

fun rpc_text :: "(bytes \<Rightarrow> string) \<Rightarrow> ('j \<Rightarrow> string) \<Rightarrow> (string \<Rightarrow> string) \<Rightarrow> 'j cli_line \<Rightarrow> line list" where
  "rpc_text hex jtext int_error (MainnetSlot v) = [Out (''mainnet slot: '' @ jtext v)]"
| "rpc_text hex jtext int_error (SlotRange a b p) =
     [Out (''  slot '' @ show_nat (unat a) @ ''..'' @ show_nat (unat b) @ '' '' @ arrow @ '' '' @ p)]"
| "rpc_text hex jtext int_error (BadStart s) = [Err (''invalid start slot: '' @ int_error s)]"
| "rpc_text hex jtext int_error BadCount = [Err ''count must be 1..=5000'']"
| "rpc_text hex jtext int_error (NotFound pk) = [Err (''account not found: '' @ pk)]"
| "rpc_text hex jtext int_error (AccountReport pk own lam exe n ls ck) = map Out
     [''pubkey:       '' @ pk, ''owner:        '' @ own, ''lamports:     '' @ show_nat (unat lam),
      ''executable:   '' @ show_bool exe, ''data size:    '' @ show_nat n @ '' bytes'',
      ''lthash[0..8]: '' @ show_limbs ls, ''checksum:     '' @ hex ck]"
| "rpc_text hex jtext int_error HomomorphismOk =
     [Out ''homomorphism: OK (mix_in(a) + mix_out(a) == identity)'']"
| "rpc_text hex jtext int_error (RpcErrorLine e) = [Err (''rpc error: '' @ jtext e)]"

fun fetch_error_text :: "('j \<Rightarrow> string) \<Rightarrow> string \<Rightarrow> 'j fetch_error \<Rightarrow> string" where
  "fetch_error_text jtext why FetchTransport = ''rpc transport: '' @ why"
| "fetch_error_text jtext why FetchParse = ''rpc parse: '' @ why"
| "fetch_error_text jtext why (FetchRpc e) = ''rpc error: '' @ jtext e"
| "fetch_error_text jtext why MissingContextSlot = ''missing context.slot''"
| "fetch_error_text jtext why (AccountNotFound pk) = ''account not found: '' @ pk"
| "fetch_error_text jtext why MissingLamports = ''missing lamports''"
| "fetch_error_text jtext why MissingOwner = ''missing owner''"
| "fetch_error_text jtext why MissingExecutable = ''missing executable''"
| "fetch_error_text jtext why DataNotArray = ''data not array''"
| "fetch_error_text jtext why DataNotStr = ''data[0] not str''"
| "fetch_error_text jtext why DataBase64 = ''data base64: '' @ why"
| "fetch_error_text jtext why MissingSlot = ''missing slot''"

text \<open>A failed \<open>getSlot\<close>: the client's errors, of sending and of parsing, have one text.\<close>

fun poll_error_text :: "('j \<Rightarrow> string) \<Rightarrow> string \<Rightarrow> 'j fetch_error \<Rightarrow> string" where
  "poll_error_text jtext why FetchTransport = ''rpc: '' @ why"
| "poll_error_text jtext why FetchParse = ''rpc: '' @ why"
| "poll_error_text jtext why e = fetch_error_text jtext why e"

section \<open>The commands on attestations\<close>

fun slot_line_text :: "(bytes \<Rightarrow> string) \<Rightarrow> slot_line \<Rightarrow> line list" where
  "slot_line_text hex (AttestedSlot slot ck) = map Out
     [''constructed attestation for slot '' @ show_nat (unat slot) @ '' with 3 account transitions:'',
      ''  - alice    : modified (lamports + data)'', ''  - bob      : modified (lamports + data)'',
      ''  - created  : initialized (None '' @ arrow @ '' Some)'', ''  delta checksum: '' @ hex ck, '''']"
| "slot_line_text hex TrueSet = map Out
     [''verifier mode: ok  '' @ em_dash @ '' supplying the *true* transition set'', '''']"
| "slot_line_text hex TamperedSet = map Out
     [''verifier mode: tamper '' @ em_dash @ '' flipping bob's new-state data ('bob-new' '' @ arrow @ '' 'BOB-new')'', '''']"
| "slot_line_text hex BadMode = [Err (''mode must be 'ok' or 'tamper'' @ [CHR 0x27])]"
| "slot_line_text hex SlotVerified = map Out
     [check_mark @ '' VERIFIED '' @ em_dash @ '' recomputed '' @ delta_sign @ '' matches the attestation.'',
      ''  All claimed transitions are consistent with the slot's published delta.'']"
| "slot_line_text hex (SlotMismatch a r) = map Out
     [cross_mark @ '' MISMATCH '' @ em_dash @ '' recomputed '' @ delta_sign @ '' diverges from the attestation.'',
      ''  attested   = '' @ hex a, ''  recomputed = '' @ hex r, '''',
      ''  This is the cryptographic core: a single bit changed in any of'',
      ''  the account state transitions makes the recomputed sum land in a'',
      ''  different point of (Z/2^16)^1024 '' @ em_dash @ '' collision-resistant under Blake3.'']"
| "slot_line_text hex (SlotError e) = [Err (''verify error: '' @ verify_error_text hex e)]"

definition snapshot_text :: "(bytes \<Rightarrow> string) \<Rightarrow> u64 \<Rightarrow> u64 \<Rightarrow> nat \<Rightarrow> bytes \<Rightarrow> line list" where
  "snapshot_text hex slot lam n ck = map Out
     [''    slot          = '' @ show_nat (unat slot), ''    lamports      = '' @ show_nat (unat lam),
      ''    data size     = '' @ show_nat n @ '' bytes'', ''    lthash chksum = '' @ hex ck, '''']"

text \<open>The progress lines overwrite each other: they begin with a carriage return and have no newline.\<close>

fun attest_text :: "(bytes \<Rightarrow> string) \<Rightarrow> ('j \<Rightarrow> string) \<Rightarrow> string \<Rightarrow> 'j attest_line \<Rightarrow> line list" where
  "attest_text hex jtext why BadWait = [Err (''wait_slots must be '' @ at_least @ '' 1'')]"
| "attest_text hex jtext why (AttestTitle pk) = map Out
     [''===  LATTICA real-mainnet attestation  ==='', ''pubkey      : '' @ pk]"
| "attest_text hex jtext why (WaitLine n secs) = map Out
     [''wait slots  : '' @ show_nat (unat n) @ '' (~'' @ show_nat (unat secs) @ ''s on mainnet at 400ms/slot)'', '''']"
| "attest_text hex jtext why FetchOld =
     [Out (''[1/4] fetching snapshot at current slot via Helius getAccountInfo'' @ ellipsis)]"
| "attest_text hex jtext why (FetchFailed e) = [Err (''fetch failed: '' @ fetch_error_text jtext why e)]"
| "attest_text hex jtext why (SnapshotLine slot lam n ck) = snapshot_text hex slot lam n ck"
| "attest_text hex jtext why (PollUntil slot n) =
     [Out (''[2/4] polling getSlot until current '' @ at_least @ '' '' @ show_nat (unat slot) @ '' + ''
        @ show_nat (unat n) @ ellipsis)]"
| "attest_text hex jtext why (PollAt s target k) =
     [Part ([CHR 0x0D] @ ''    at slot '' @ show_nat (unat s) @ '' (need '' @ show_nat (unat target) @ '', +''
        @ show_nat (unat k) @ '' more)'' @ ellipsis @ ''    '')]"
| "attest_text hex jtext why (PollFailed e) = [Err ([CHR 0x0A] @ ''slot poll failed: '' @ poll_error_text jtext why e)]"
| "attest_text hex jtext why (PollReached s) = map Out [''    reached slot '' @ show_nat (unat s), '''']"
| "attest_text hex jtext why FetchNew = [Out (''[3/4] fetching snapshot at new slot'' @ ellipsis)]"
| "attest_text hex jtext why (DeltaLine ck changed) = map Out
     [''[4/4] computing '' @ delta_sign @ '' = h(new) '' @ minus_sign @ '' h(old)'' @ ellipsis,
      ''    '' @ delta_sign @ '' checksum    = '' @ hex ck,
      ''    account changed between slots: '' @ show_bool changed, '''']"
| "attest_text hex jtext why TruthHead = [Out ''=== verifier (ok mode) ==='']"
| "attest_text hex jtext why TruthVerified = map Out
     [check_mark @ '' VERIFIED '' @ em_dash @ '' recomputed '' @ delta_sign @ '' matches the attestation.'', '''']"
| "attest_text hex jtext why (TruthMismatch e) =
     [Err (''UNEXPECTED MISMATCH on truthful run: '' @ verify_error_text hex e)]"
| "attest_text hex jtext why NoData = [Out ''(account has no data; skipping tamper case)'']"
| "attest_text hex jtext why TamperHead =
     [Out (''=== verifier (tamper mode '' @ em_dash @ '' flipped data[0]) ==='')]"
| "attest_text hex jtext why TamperAccepted =
     [Out (''UNEXPECTED ok on tampered run '' @ em_dash @ '' verifier broken?'')]"
| "attest_text hex jtext why (TamperCaught a r) = map Out
     [check_mark @ '' MISMATCH caught:'', ''    attested   = '' @ hex a, ''    recomputed = '' @ hex r, '''',
      check_mark @ '' end-to-end LATTICA pipeline working on REAL mainnet data:'',
      ''  RPC fetch '' @ arrow @ '' LtHash on real bytes '' @ arrow @ '' attestation '' @ arrow @ '' verifier ''
        @ check_mark @ ''/'' @ cross_mark]"
| "attest_text hex jtext why (TamperError e) = [Err (''unexpected error: '' @ verify_error_text hex e)]"

section \<open>keygen and the usage\<close>

definition keygen_text :: "string \<Rightarrow> string \<Rightarrow> line list" where
  "keygen_text shown path = map Out
     [''pubkey:  '' @ shown, ''path:    '' @ path, ''note:    file is mode 0600; do not share.'', '''',
      ''use this pubkey for:'',
      ''  - Jito ShredStream sign-up (https://docs.jito.wtf/lowlatencytxnfeed/)'',
      ''  - mainnet auth challenge signing (no SOL balance required for ShredStream)'']"

definition cli_usage_text :: "line list" where
  "cli_usage_text = map Err
     [''usage:'',
      ''  lattica slot'',
      ''  lattica hash-account <pubkey-base58>'',
      ''  lattica verify-shred <path-to-shred-bytes-or-hex> <leader-pubkey-base58>'',
      ''  lattica das-demo <n>          # construct synthetic FEC, deliver n of 64 shreds, show DAS outcome'',
      ''  lattica slot-demo             # build 2 FEC sets, finalize the slot, print slot_root (Phase 3.1)'',
      ''  lattica verify-slot <mode>    # all-or-nothing LtHash slot verifier; mode = ok | tamper  (Phase 3.3)'',
      ''  lattica rpc-attest <pubkey> <wait-slots>'',
      ''                                # fetch a real mainnet account at slot S0 and S0+wait_slots,'',
      ''                                # compute the real '' @ delta_sign @ ''_lthash, run verify_slot_delta against it.'',
      ''                                # Demonstrates the entire LATTICA pipeline on REAL mainnet data.'',
      ''  lattica keygen [path]         # generate Solana-format keypair (default ~/.config/solana/lattica.json)'',
      ''  lattica leaders <start> <n>   # print mainnet leaders for n consecutive slots starting at <start>'']"

section \<open>The verdict\<close>

abbreviation NOT_RECOVERED :: string where
  "NOT_RECOVERED \<equiv> ''verdict: NOT recovered. P[adversary undetected | random sampling] = ''"

text \<open>
  C36: What \<open>das-demo\<close> prints last. For every count up to 64 it succeeds; from 32 shreds on it says that the
  block was recovered, below that it prints the chance of an undetected adversary, as a double. With 30
  and 31 shreds, where the block is not recovered and the chance is not 0, it prints 0.
\<close>

theorem das_demo_prints:
  assumes "demo_env env sg (replicate 32 0x4c)" and "parse_u64 n_str = Some v" and "v \<le> 64"
  shows "\<exists>out. cmd_das_demo env sg n_str = Ret (out, SUCCESS)
     \<and> last (das_output hex enc58 out) = Out
          (if 32 \<le> unat v then ''verdict: block recovered with cryptographic certainty.''
           else NOT_RECOVERED @ fmt_prob (f64_sub 1 (das_confidence (unat v))))
     \<and> (unat v \<in> {30, 31} \<longrightarrow> last (das_output hex enc58 out) = Out (NOT_RECOVERED @ ''0''))"
proof -
  let ?p = "if 32 \<le> unat v then 0 else f64_sub 1 (das_confidence (unat v))"
  obtain out0 where run: "cmd_das_demo env sg n_str = Ret (out0 @ [Verdict (32 \<le> unat v) ?p], SUCCESS)"
    using das_demo_run [OF assms] by (metis append_Cons)
  have final: "last (das_output hex enc58 (out0 @ [Verdict (32 \<le> unat v) ?p])) = Out
      (if 32 \<le> unat v then ''verdict: block recovered with cryptographic certainty.''
       else NOT_RECOVERED @ fmt_prob (f64_sub 1 (das_confidence (unat v))))"
    by (simp add: das_output_def)
  have "fmt_prob (f64_sub 1 (das_confidence n)) = ''0''" if "n \<in> {30, 31}" for n
    using das_confidence_one [of n] that by (auto simp: f64_sub_def fmt_prob_def)
  with run final show ?thesis by auto
qed

theorem das_demo_prints_witness:
  "(\<exists>out. cmd_das_demo sample_env seed_signer ''32'' = Ret (out, 0)
      \<and> last (das_output (\<lambda>_. ''h'') (\<lambda>_. ''b'') out) = Out ''verdict: block recovered with cryptographic certainty.'')
   \<and> (\<exists>out. cmd_das_demo sample_env seed_signer ''31'' = Ret (out, 0)
      \<and> last (das_output (\<lambda>_. ''h'') (\<lambda>_. ''b'') out) = Out (NOT_RECOVERED @ ''0''))"
proof -
  have p: "parse_u64 ''32'' = Some 32" "parse_u64 ''31'' = Some 31"
    by (simp_all add: parse_u64_def char_digit_def)
  show ?thesis
    using das_demo_prints [OF sample_demo_env p(1), of "\<lambda>_. ''h''" "\<lambda>_. ''b''"] das_demo_prints [OF sample_demo_env p(2), of "\<lambda>_. ''h''" "\<lambda>_. ''b''"]
    by (auto simp: SUCCESS_def)
qed

end
