(* ===== verification/Tree_Binding.thy ===== *)
theory Tree_Binding
  imports Fec_Set
begin

text \<open>
  The root of a built tree binds its leaves. Whatever number of entries a proof has, a path from the hash
  of a leaf message to the root of a tree with \<open>2^k\<close> leaves starts at the message of that leaf, or the
  messages hashed on the path and in the tree contain two that collide in the 20 bytes that are kept. A
  path that is too short or too long meets a leaf message where the tree has a node message, or the other
  way round, and the two have different prefixes.
\<close>

section \<open>What is hashed in a tree\<close>

definition pair_input :: "bytes list \<Rightarrow> nat \<Rightarrow> bytes" where
  "pair_input level j =
     MERKLE_HASH_PREFIX_NODE @ take SIZE_OF_PROOF_ENTRY (level ! (2 * j)) @ take SIZE_OF_PROOF_ENTRY (level ! (2 * j + 1))"

definition tree_inputs :: "(bytes \<Rightarrow> bytes) \<Rightarrow> bytes list \<Rightarrow> bytes list" where
  "tree_inputs sha leaves =
     concat (map (\<lambda>level. map (pair_input level) [0..<length level div 2]) (build_levels sha leaves))"

definition leaf_message :: "bytes \<Rightarrow> bytes" where
  "leaf_message body = MERKLE_HASH_PREFIX_LEAF @ body"

text \<open>All messages hashed while the tree over the leaves of \<open>bodies\<close> is built.\<close>

definition set_messages :: "(bytes \<Rightarrow> bytes) \<Rightarrow> bytes list \<Rightarrow> bytes list" where
  "set_messages sha bodies =
     map leaf_message bodies @ tree_inputs sha (map (\<lambda>b. sha (leaf_message b)) bodies)"

definition node_message :: "bytes \<Rightarrow> bool" where
  "node_message m \<longleftrightarrow> take 1 m = [1]"

lemma node_messages [simp]:
  "node_message (pair_input level j)" "node_message (merkle_step_input c s)" "\<not> node_message (leaf_message body)"
  by (auto simp: node_message_def pair_input_def merkle_step_input_def leaf_message_def MERKLE_HASH_PREFIX_NODE_def
      MERKLE_HASH_PREFIX_LEAF_def split: prod.splits)

lemma tree_inputs_nodes: "y \<in> set (tree_inputs sha leaves) \<Longrightarrow> node_message y"
  by (auto simp: tree_inputs_def)

lemma tree_inputs_step:
  assumes "1 < length level"
  shows "set (tree_inputs sha (next_level sha level)) \<subseteq> set (tree_inputs sha level)"
    and "j < length level div 2 \<Longrightarrow> pair_input level j \<in> set (tree_inputs sha level)"
  using assms by (auto simp: tree_inputs_def build_levels.simps [of sha level])

lemma next_level_pair:
  assumes "j < length level div 2"
  shows "next_level sha level ! j = sha (pair_input level j)"
proof -
  have "Suc (2 * j) < length level" and "j < length (next_level sha level)"
    using assms by (simp_all add: length_next_level)
  with next_level_nth [of j sha level] show ?thesis by (simp add: pair_input_def node_hash_def)
qed

lemma pow_pos_half: "length level = 2 ^ Suc k \<Longrightarrow> 1 < length level \<and> length level div 2 = 2 ^ k \<and> length (next_level sha level) = 2 ^ k"
  using one_less_power [of "2::nat" "Suc k"] by (simp add: length_next_level)

lemma next_level_long: "sha_ok sha \<Longrightarrow> \<forall>n \<in> set (next_level sha level). 20 \<le> length n"
  by (auto dest: next_level_lengths)

lemma sibling_pair:
  assumes "i < length level" and "even (length level)"
  shows "merkle_step_input (take 20 (sibling level i)) (i, level ! i) = pair_input level (i div 2)"
proof (cases "even i")
  case True
  moreover from this have "2 * (i div 2) = i" by simp
  moreover have "i + 1 < length level" using assms True by (metis Suc_eq_plus1 Suc_lessI even_Suc)
  ultimately show ?thesis
    using assms(1) by (simp add: merkle_step_input_def pair_input_def sibling_even even_iff_mod_2_eq_zero)
next
  case False
  then have "2 * (i div 2) = i - 1" "2 * (i div 2) + 1 = i" by presburger+
  with False assms(1) show ?thesis
    by (simp add: merkle_step_input_def pair_input_def sibling_odd odd_iff_mod_2_eq_one)
qed

text \<open>The path of the tree's own proof hashes messages of the tree.\<close>

lemma honest_inputs:
  assumes "sha_ok sha" and "i < length level" and "\<forall>n \<in> set level. 20 \<le> length n" and "length level = 2 ^ k"
  shows "set (path_inputs sha (chunks_exact 20 (proof_loop (build_levels sha level) i)) (i, level ! i))
           \<subseteq> set (tree_inputs sha level)"
  using assms(2,3,4)
proof (induction k arbitrary: level i)
  case 0
  then show ?case by (simp add: build_levels.simps [of sha level])
next
  case (Suc k)
  note half = pow_pos_half [OF Suc.prems(3), of sha]
  let ?up = "next_level sha level" and ?c = "take 20 (sibling level i)"
  have c: "length ?c = 20" using Suc.prems sibling_in_level [of i level] by auto
  have i: "i div 2 < length level div 2" using Suc.prems(1,3) half by simp
  have input: "merkle_step_input ?c (i, level ! i) = pair_input level (i div 2)"
    using Suc.prems half by (intro sibling_pair) (simp_all)
  have step: "merkle_step sha ?c (i, level ! i) = (i div 2, ?up ! (i div 2))"
    by (simp add: merkle_step_def input next_level_pair [OF i])
  have "set (path_inputs sha (chunks_exact 20 (proof_loop (build_levels sha ?up) (i div 2))) (i div 2, ?up ! (i div 2)))
      \<subseteq> set (tree_inputs sha ?up)"
    using i half by (intro Suc.IH next_level_long [OF assms(1)]) simp_all
  moreover have "chunks_exact 20 (?c @ rest) = ?c # chunks_exact 20 rest" for rest
    using c by (intro chunks_exact_append) simp_all
  ultimately show ?case
    using tree_inputs_step [where level = level and sha = sha] half i
    by (auto simp: build_levels.simps [of sha level] step input)
qed

section \<open>Paths into a tree\<close>

definition collides :: "(bytes \<Rightarrow> bytes) \<Rightarrow> bytes list \<Rightarrow> bytes list \<Rightarrow> bool" where
  "collides sha xs ys \<longleftrightarrow> (\<exists>x \<in> set xs. \<exists>y \<in> set ys. x \<noteq> y \<and> take 20 (sha x) = take 20 (sha y))"

lemma collidesI: "x \<in> set xs \<Longrightarrow> y \<in> set ys \<Longrightarrow> x \<noteq> y \<Longrightarrow> take 20 (sha x) = take 20 (sha y) \<Longrightarrow> collides sha xs ys"
  by (auto simp: collides_def)

lemma collides_mono: "collides sha xs ys \<Longrightarrow> set xs \<subseteq> set xs' \<Longrightarrow> set ys \<subseteq> set ys' \<Longrightarrow> collides sha xs' ys'"
  unfolding collides_def by blast

text \<open>A path as long as the tree is high starts at the node of its index.\<close>

lemma full_path:
  assumes sha: "sha_ok sha" and "length level = 2 ^ length cs" and "\<forall>n \<in> set level. 20 \<le> length n"
    and "\<forall>c \<in> set cs. length c = 20" and "20 \<le> length n"
    and "fold (merkle_step sha) cs (i, n) = (0, last (build_levels sha level) ! 0)"
  shows "i < length level"
    and "take 20 n = take 20 (level ! i) \<or> collides sha (path_inputs sha cs (i, n)) (tree_inputs sha level)"
proof -
  have "i div 2 ^ length cs = 0" using step_index [of sha cs i n] assms(6) by simp
  then show i: "i < length level" using assms(2) by (simp add: div_eq_0_iff)
  let ?cs = "chunks_exact 20 (proof_loop (build_levels sha level) i)"
  have "length ?cs = length cs"
    using length_proof_loop [OF sha i assms(3,2)] by (simp add: length_chunks_exact)
  moreover have "fold (merkle_step sha) ?cs (i, level ! i) = (0, last (build_levels sha level) ! 0)"
    using climb_to_root [OF sha i assms(3)] by simp
  ultimately have "take 20 n = take 20 (level ! i) \<or>
      collides sha (path_inputs sha cs (i, n)) (path_inputs sha ?cs (i, level ! i))"
    unfolding collides_def using assms i by (intro paths_bind) (auto dest: chunks_exact_lengths)
  with collides_mono [OF _ order_refl honest_inputs [OF sha i assms(3,2)]]
  show "take 20 n = take 20 (level ! i) \<or> collides sha (path_inputs sha cs (i, n)) (tree_inputs sha level)"
    by blast
qed

lemma build_levels_up: "1 < length level \<Longrightarrow> last (build_levels sha (next_level sha level)) = last (build_levels sha level)"
  by (simp add: build_levels.simps [of sha level] build_levels_nonempty)

text \<open>A shorter path ends at an inner node of the tree.\<close>

lemma short_path:
  assumes sha: "sha_ok sha" and "length level = 2 ^ k" and "length cs < k"
    and "\<forall>c \<in> set cs. length c = 20" and "\<not> node_message m"
    and "fold (merkle_step sha) cs (i, sha m) = (0, last (build_levels sha level) ! 0)"
  shows "collides sha (m # path_inputs sha cs (i, sha m)) (tree_inputs sha level)"
  using assms(2,3,6)
proof (induction k arbitrary: level)
  case (Suc k)
  let ?up = "next_level sha level"
  note half = pow_pos_half [OF Suc.prems(1), of sha]
  have run: "fold (merkle_step sha) cs (i, sha m) = (0, last (build_levels sha ?up) ! 0)"
    using Suc.prems(3) build_levels_up [of level sha] half by simp
  have "collides sha (m # path_inputs sha cs (i, sha m)) (tree_inputs sha level)"
    if k: "length cs = k"
  proof -
    have "length ?up = 2 ^ length cs" "20 \<le> length (sha m)" using half k sha by (simp_all add: sha_ok_def)
    note f = full_path [OF sha this(1) next_level_long [OF sha] assms(4) this(2) run]
    from f(1) have i: "i < length level div 2" using half by simp
    from f(2) show ?thesis
    proof
      assume "take 20 (sha m) = take 20 (?up ! i)"
      then have eq: "take 20 (sha m) = take 20 (sha (pair_input level i))" by (simp add: next_level_pair [OF i])
      have "m \<noteq> pair_input level i" using assms(5) node_messages(1) by metis
      with eq tree_inputs_step(2) [where level = level and j = i and sha = sha] half i show ?thesis
        by (intro collidesI [of m _ "pair_input level i"]) auto
    next
      assume "collides sha (path_inputs sha cs (i, sha m)) (tree_inputs sha ?up)"
      then show ?thesis by (rule collides_mono) (use tree_inputs_step(1) half in auto)
    qed
  qed
  moreover have "collides sha (m # path_inputs sha cs (i, sha m)) (tree_inputs sha level)"
    if "length cs < k"
    using Suc.IH [of ?up] half that run tree_inputs_step(1) [of level sha] by (auto intro: collides_mono)
  ultimately show ?case using Suc.prems(2) by linarith
qed simp

lemma path_inputs_append:
  "path_inputs sha (us @ vs) s = path_inputs sha us s @ path_inputs sha vs (fold (merkle_step sha) us s)"
  by (induction us arbitrary: s) simp_all

text \<open>A path that is longer than the tree is high meets a node message at the level of the leaves.\<close>

lemma long_path:
  assumes sha: "sha_ok sha" and bodies: "length bodies = 2 ^ k" and long: "k < length cs"
    and "\<forall>c \<in> set cs. length c = 20"
    and run: "fold (merkle_step sha) cs (i, sha m) = (0, last (build_levels sha (map (\<lambda>b. sha (leaf_message b)) bodies)) ! 0)"
  shows "collides sha (path_inputs sha cs (i, sha m)) (set_messages sha bodies)"
proof -
  let ?leaves = "map (\<lambda>b. sha (leaf_message b)) bodies"
  have len: "length ?leaves = 2 ^ k" "\<forall>n \<in> set ?leaves. 20 \<le> length n" "20 \<le> length (sha m)" for m
    using bodies sha by (auto simp: sha_ok_def)
  define us vs where "us = take (length cs - k) cs" and "vs = drop (length cs - k) cs"
  have cs: "cs = us @ vs" "length vs = k" "us \<noteq> []" using long by (auto simp: us_def vs_def)
  obtain us' c where us: "us = us' @ [c]" using cs(3) by (metis rev_exhaust)
  let ?s = "fold (merkle_step sha) us' (i, sha m)"
  let ?x = "merkle_step_input c ?s"
  have st: "fold (merkle_step sha) us (i, sha m) = (fst ?s div 2, sha ?x)"
    by (simp add: us merkle_step_def)
  have x: "?x \<in> set (path_inputs sha cs (i, sha m))" by (simp add: cs(1) us path_inputs_append)
  have "fold (merkle_step sha) vs (fst ?s div 2, sha ?x) = (0, last (build_levels sha ?leaves) ! 0)"
    using run st by (simp add: cs(1))
  note f = full_path [OF sha _ len(2) _ len(3) this]
  have "length ?leaves = 2 ^ length vs" "\<forall>c \<in> set vs. length c = 20" using len(1) cs assms(4) by auto
  note j = f(1) [OF this] and f2 = f(2) [OF this]
  from f2 show ?thesis
  proof
    assume eq: "take 20 (sha ?x) = take 20 (?leaves ! (fst ?s div 2))"
    have "?x \<noteq> leaf_message (bodies ! (fst ?s div 2))" using node_messages(2,3) by metis
    with eq j x show ?thesis
      by (intro collidesI [of ?x _ "leaf_message (bodies ! (fst ?s div 2))"]) (auto simp: set_messages_def)
  next
    assume "collides sha (path_inputs sha vs (fst ?s div 2, sha ?x)) (tree_inputs sha ?leaves)"
    then show ?thesis
      by (rule collides_mono) (auto simp: cs(1) path_inputs_append st set_messages_def)
  qed
qed

text \<open>The root binds the message of every leaf, for paths of any length.\<close>

lemma root_binds:
  assumes sha: "sha_ok sha" and bodies: "length bodies = 2 ^ k" and "\<forall>c \<in> set cs. length c = 20"
    and run: "fold (merkle_step sha) cs (i, sha (leaf_message b))
      = (0, last (build_levels sha (map (\<lambda>b. sha (leaf_message b)) bodies)) ! 0)"
  shows "(i < length bodies \<and> b = bodies ! i)
    \<or> collides sha (leaf_message b # path_inputs sha cs (i, sha (leaf_message b))) (set_messages sha bodies)"
proof -
  let ?leaves = "map (\<lambda>b. sha (leaf_message b)) bodies" and ?m = "leaf_message b"
  have len: "length ?leaves = 2 ^ k" "\<forall>n \<in> set ?leaves. 20 \<le> length n" "20 \<le> length (sha m)" for m
    using bodies sha by (auto simp: sha_ok_def)
  have msgs: "set (tree_inputs sha ?leaves) \<subseteq> set (set_messages sha bodies)" by (auto simp: set_messages_def)
  consider "length cs < k" | "length cs = k" | "k < length cs" by linarith
  then show ?thesis
  proof cases
    case 1
    from short_path [OF sha len(1) this assms(3) node_messages(3) run] collides_mono [OF _ _ msgs] show ?thesis by blast
  next
    case 2
    note f = full_path [OF sha _ len(2) assms(3) len(3) run]
    have "length ?leaves = 2 ^ length cs" using len(1) 2 by simp
    note i = f(1) [OF this] and f2 = f(2) [OF this]
    from f2 show ?thesis
    proof
      assume eq: "take 20 (sha ?m) = take 20 (?leaves ! i)"
      show ?thesis
      proof (cases "b = bodies ! i")
        case False
        then have "?m \<noteq> leaf_message (bodies ! i)" by (simp add: leaf_message_def)
        with eq i show ?thesis
          by (intro disjI2 collidesI [of ?m _ "leaf_message (bodies ! i)"]) (auto simp: set_messages_def)
      qed (use i in simp)
    next
      assume "collides sha (path_inputs sha cs (i, sha ?m)) (tree_inputs sha ?leaves)"
      then show ?thesis by (intro disjI2, rule collides_mono) (use msgs in auto)
    qed
  next
    case 3
    from long_path [OF sha bodies this assms(3) run] show ?thesis by (auto intro: collides_mono)
  qed
qed

end
