(* ===== verification/Gf256.thy ===== *)
theory Gf256
  imports Complex_Main Rust_Prelude
begin

text \<open>
  The field of 256 elements over which FEC sets are coded: bytes as polynomials over two elements modulo
  \<open>x^8 + x^4 + x^3 + x^2 + 1\<close> (0x11d). Doubling, \<open>xt\<close>, is linear and runs through all non-zero bytes when it
  starts at 1, which gives the inverses. The last section counts the roots of polynomial functions over
  any field and interpolates them.
\<close>

section \<open>Doubling\<close>

definition xt :: "byte \<Rightarrow> byte" where
  "xt x = push_bit 1 x XOR (if bit x 7 then 0x1d else 0)"

lemma bit_29: "n < 8 \<Longrightarrow> bit (29 :: byte) n \<longleftrightarrow> n \<in> {0, 2, 3, 4}"
proof -
  assume "n < 8"
  then have "n \<in> {0, 1, 2, 3, 4, 5, 6, 7}" by auto
  then show ?thesis by (auto simp: bit_numeral_rec bit_iff_odd)
qed

lemma bit_xt:
  assumes "n < 8"
  shows "bit (xt x) n \<longleftrightarrow> (0 < n \<and> bit x (n - 1)) \<noteq> (bit x 7 \<and> n \<in> {0, 2, 3, 4})"
proof -
  have "bit (if bit x 7 then 29 else 0 :: byte) n \<longleftrightarrow> bit x 7 \<and> n \<in> {0, 2, 3, 4}"
    using bit_29 [OF assms] by simp
  moreover have "bit (push_bit 1 x) n \<longleftrightarrow> 0 < n \<and> bit x (n - 1)"
    unfolding bit_push_bit_iff using assms by auto
  ultimately show ?thesis unfolding xt_def bit_xor_iff by blast
qed

lemma xt_xor: "xt (x XOR y) = xt x XOR xt y"
  by (rule bit_word_eqI) (auto simp: bit_xt bit_xor_iff)

lemma xt_0 [simp]: "xt 0 = 0"
  by (simp add: xt_def)

lemma xt_eq_0: "xt x = 0 \<longleftrightarrow> x = 0"
proof
  assume "xt x = 0"
  then have b: "\<not> bit (xt x) n" for n by simp
  have 7: "\<not> bit x 7" using b [of 0] by (simp add: bit_xt)
  have "\<not> bit x n" if "n < 8" for n
  proof (cases "n = 7")
    case False
    with b [of "Suc n"] 7 that show ?thesis by (simp add: bit_xt)
  qed (use 7 in simp)
  then show "x = 0" by (intro bit_word_eqI) simp
qed simp

lemma xor_zero_iff: "x XOR y = 0 \<longleftrightarrow> x = (y :: byte)"
proof
  assume "x XOR y = 0"
  then have "(x XOR y) XOR y = y" by simp
  then show "x = y" by (simp add: xor.assoc)
qed simp

lemma xt_inj: "xt x = xt y \<longleftrightarrow> x = y"
  using xt_eq_0 [of "x XOR y"] by (simp add: xt_xor xor_zero_iff)

section \<open>The powers of two\<close>

definition pw :: "nat \<Rightarrow> byte" where
  "pw n = (xt ^^ n) 1"

lemma pw_simps [simp]: "pw 0 = 1" "pw (Suc n) = xt (pw n)"
  by (simp_all add: pw_def)

lemma xt_pow_pw: "(xt ^^ n) (pw m) = pw (n + m)"
  by (simp add: pw_def funpow_add)

lemma xt_pow_inj: "(xt ^^ n) x = (xt ^^ n) y \<longleftrightarrow> x = y"
  by (induction n) (simp_all add: xt_inj)

fun orbit :: "nat \<Rightarrow> byte \<Rightarrow> byte list" where
  "orbit 0 x = []"
| "orbit (Suc n) x = x # orbit n (xt x)"

lemma orbit_pw: "orbit n (pw m) = map (\<lambda>i. pw (i + m)) [0..<n]"
proof (induction n arbitrary: m)
  case (Suc n)
  have "orbit n (xt (pw m)) = map (\<lambda>i. pw (i + Suc m)) [0..<n]" using Suc [of "Suc m"] by simp
  then show ?case by (simp add: upt_conv_Cons map_Suc_upt [symmetric] o_def del: upt_Suc)
qed simp

lemma orbit_256: "list_all (\<lambda>x. x \<noteq> 1) (orbit 254 (xt 1))" "xt (last (orbit 254 (xt 1))) = 1"
  by code_simp+

lemma pw_255: "pw 255 = 1" and pw_not_1: "0 < i \<Longrightarrow> i < 255 \<Longrightarrow> pw i \<noteq> 1"
proof -
  have o: "orbit 254 (xt 1) = map (\<lambda>i. pw (i + 1)) [0..<254]" using orbit_pw [of 254 1] by simp
  have "last (orbit 254 (xt 1)) = pw 254" unfolding o by (simp add: last_map del: pw_simps)
  moreover have "pw 255 = xt (pw 254)" using pw_simps(2) [of 254] by (simp del: pw_simps)
  ultimately show "pw 255 = 1" using orbit_256(2) by simp
  assume "0 < i" "i < 255"
  then have "pw i \<in> set (orbit 254 (xt 1))" unfolding o by (auto intro!: image_eqI [of _ _ "i - 1"] simp del: pw_simps)
  with orbit_256(1) show "pw i \<noteq> 1" by (auto simp: list_all_iff)
qed

lemma pw_inj: "inj_on pw {..<255}"
proof (rule linorder_inj_onI)
  fix i j :: nat
  assume ij: "i < j" "i \<in> {..<255}" "j \<in> {..<255}"
  then have "pw (j - i) \<noteq> 1" by (intro pw_not_1) auto
  moreover have "pw j = (xt ^^ i) (pw (j - i))" using ij by (simp add: xt_pow_pw)
  moreover have "pw i = (xt ^^ i) 1" by (simp add: pw_def)
  ultimately show "pw i \<noteq> pw j" by (simp add: xt_pow_inj)
qed auto

lemma pw_not_0 [simp]: "pw n \<noteq> 0"
  by (induction n) (simp_all add: xt_eq_0)

lemma nonzero_is_pw:
  assumes "x \<noteq> 0"
  obtains i where "i < 255" "x = pw i"
proof -
  have "card (UNIV :: byte set) = 256" by (simp add: card_word)
  then have "card (- {0 :: byte}) = 255" by (simp add: Compl_eq_Diff_UNIV)
  moreover have "card (pw ` {..<255}) = 255" using pw_inj by (simp add: card_image)
  ultimately have "pw ` {..<255} = - {0}" by (intro card_subset_eq) auto
  with assms have "x \<in> pw ` {..<255}" by auto
  then show ?thesis using that by auto
qed

section \<open>Multiplication\<close>

fun mul_bits :: "nat \<Rightarrow> byte \<Rightarrow> byte \<Rightarrow> byte" where
  "mul_bits 0 a b = 0"
| "mul_bits (Suc n) a b = mul_bits n a b XOR (if bit b n then (xt ^^ n) a else 0)"

definition gmul :: "byte \<Rightarrow> byte \<Rightarrow> byte" where
  "gmul a b = mul_bits 8 a b"

lemma xt_pow_xor: "(xt ^^ n) (x XOR y) = (xt ^^ n) x XOR (xt ^^ n) y"
  by (induction n) (simp_all add: xt_xor)

lemma gmul_xor_right: "gmul a (b XOR c) = gmul a b XOR gmul a c"
proof -
  have "mul_bits n a (b XOR c) = mul_bits n a b XOR mul_bits n a c" for n
    by (induction n) (auto simp: bit_xor_iff ac_simps)
  then show ?thesis by (simp add: gmul_def)
qed

lemma gmul_xt: "gmul (xt a) b = xt (gmul a b)"
proof -
  have "mul_bits n (xt a) b = xt (mul_bits n a b)" for n
    by (induction n) (simp_all add: xt_xor funpow_swap1)
  then show ?thesis by (simp add: gmul_def)
qed

lemma pw_bit: "n < 8 \<Longrightarrow> i < 8 \<Longrightarrow> bit (pw n) i \<longleftrightarrow> i = n"
proof (induction n arbitrary: i)
  case (Suc n)
  then show ?case by (auto simp: bit_xt)
qed (simp add: bit_1_iff)

lemma gmul_1: "gmul 1 b = b"
proof -
  have "bit (mul_bits n 1 b) i \<longleftrightarrow> i < n \<and> bit b i" if "n \<le> 8" "i < 8" for n i
    using that
  proof (induction n)
    case (Suc n)
    then have "bit ((xt ^^ n) 1) i \<longleftrightarrow> i = n" using pw_bit [of n i] by (simp add: pw_def)
    with Suc show ?case by (auto simp: bit_xor_iff less_Suc_eq)
  qed simp
  then show ?thesis unfolding gmul_def by (intro bit_word_eqI) simp
qed

lemma gmul_pw: "gmul (pw n) b = (xt ^^ n) b"
  by (induction n) (simp_all add: gmul_1 gmul_xt)

lemma gmul_pw_pw: "gmul (pw n) (pw m) = pw (n + m)"
  by (simp add: gmul_pw xt_pow_pw)

lemma xt_pow_0 [simp]: "(xt ^^ n) 0 = 0"
  by (induction n) simp_all

lemma gmul_0 [simp]: "gmul 0 b = 0" "gmul a 0 = 0"
proof -
  have "mul_bits n 0 b = 0" "mul_bits n a 0 = 0" for n by (induction n) simp_all
  then show "gmul 0 b = 0" "gmul a 0 = 0" by (simp_all add: gmul_def)
qed

lemma zero_or_pw:
  obtains "x = 0" | i where "x = pw i"
  using nonzero_is_pw by metis

lemma gmul_commute: "gmul a b = gmul b a"
  by (rule zero_or_pw [of a]; rule zero_or_pw [of b]) (simp_all add: gmul_pw_pw add.commute)

lemma gmul_assoc: "gmul (gmul a b) c = gmul a (gmul b c)"
  by (rule zero_or_pw [of a]; rule zero_or_pw [of b]; rule zero_or_pw [of c]) (simp_all add: gmul_pw_pw add.assoc)

text \<open>The inverse is the power 254.\<close>

definition ginv :: "byte \<Rightarrow> byte" where
  "ginv a = (gmul a ^^ 254) 1"

lemma gmul_pow_pw: "(gmul (pw i) ^^ n) 1 = pw (n * i)"
  by (induction n) (simp_all add: gmul_pw_pw)

lemma pw_255_times: "pw (255 * n) = 1"
proof (induction n)
  case (Suc n)
  have "pw (255 * Suc n) = (xt ^^ (255 * n)) (pw 255)" by (simp add: xt_pow_pw add.commute)
  with Suc show ?case by (simp add: pw_255) (simp add: pw_def)
qed simp

lemma ginv: "a \<noteq> 0 \<Longrightarrow> gmul (ginv a) a = 1"
proof (rule zero_or_pw [of a])
  fix i assume "a = pw i"
  then show ?thesis
    using pw_255_times [of i] by (simp add: ginv_def gmul_pow_pw gmul_pw_pw algebra_simps)
qed simp

lemma ginv_0: "ginv 0 = 0"
proof -
  have "(gmul 0 ^^ Suc n) 1 = 0" for n by simp
  from this [of 253] show ?thesis by (simp add: ginv_def)
qed

section \<open>The field\<close>

typedef gf = "UNIV :: byte set"
  morphisms gf_byte GF ..

setup_lifting type_definition_gf

instantiation gf :: field
begin
lift_definition zero_gf :: gf is 0 .
lift_definition one_gf :: gf is 1 .
lift_definition plus_gf :: "gf \<Rightarrow> gf \<Rightarrow> gf" is "(XOR)" .
lift_definition minus_gf :: "gf \<Rightarrow> gf \<Rightarrow> gf" is "(XOR)" .
lift_definition uminus_gf :: "gf \<Rightarrow> gf" is "\<lambda>a. a" .
lift_definition times_gf :: "gf \<Rightarrow> gf \<Rightarrow> gf" is gmul .
lift_definition inverse_gf :: "gf \<Rightarrow> gf" is ginv .
lift_definition divide_gf :: "gf \<Rightarrow> gf \<Rightarrow> gf" is "\<lambda>a b. gmul a (ginv b)" .
instance
proof
  fix a b c :: gf
  show "a * b * c = a * (b * c)" by transfer (rule gmul_assoc)
  show "a * b = b * a" by transfer (rule gmul_commute)
  show "1 * a = a" by transfer (rule gmul_1)
  show "a + b + c = a + (b + c)" by transfer (rule xor.assoc)
  show "a + b = b + a" by transfer (rule xor.commute)
  show "0 + a = a" by transfer simp
  show "- a + a = 0" by transfer simp
  show "a - b = a + - b" by transfer simp
  show "(a + b) * c = a * c + b * c" by transfer (metis gmul_commute gmul_xor_right)
  show "(0 :: gf) \<noteq> 1" by transfer simp
  show "a \<noteq> 0 \<Longrightarrow> inverse a * a = 1" by transfer (rule ginv)
  show "a div b = a * inverse b" by transfer simp
  show "inverse (0 :: gf) = 0" by transfer (rule ginv_0)
qed
end

section \<open>Functions of low degree\<close>

text \<open>Polynomial functions with \<open>n\<close> coefficients, by Horner's rule.\<close>

primrec lowdeg :: "nat \<Rightarrow> ('a::field \<Rightarrow> 'a) \<Rightarrow> bool" where
  "lowdeg 0 f \<longleftrightarrow> (\<forall>x. f x = 0)"
| "lowdeg (Suc n) f \<longleftrightarrow> (\<exists>c g. lowdeg n g \<and> (\<forall>x. f x = c + x * g x))"

lemma lowdeg_add: "lowdeg n f \<Longrightarrow> lowdeg n g \<Longrightarrow> lowdeg n (\<lambda>x. f x + g x)"
proof (induction n arbitrary: f g)
  case (Suc n)
  then obtain c f' d g' where "lowdeg n f'" "\<forall>x. f x = c + x * f' x" "lowdeg n g'" "\<forall>x. g x = d + x * g' x"
    by auto
  moreover from this Suc.IH have "lowdeg n (\<lambda>x. f' x + g' x)" by blast
  ultimately show ?case
    by (auto intro!: exI [of _ "c + d"] exI [of _ "\<lambda>x. f' x + g' x"] simp: algebra_simps)
qed simp

lemma lowdeg_scale: "lowdeg n f \<Longrightarrow> lowdeg n (\<lambda>x. k * f x)"
proof (induction n arbitrary: f)
  case (Suc n)
  then obtain c f' where "lowdeg n f'" "\<forall>x. f x = c + x * f' x" by auto
  moreover from this Suc.IH have "lowdeg n (\<lambda>x. k * f' x)" by blast
  ultimately show ?case
    by (auto intro!: exI [of _ "k * c"] exI [of _ "\<lambda>x. k * f' x"] simp: algebra_simps)
qed simp

lemma lowdeg_zero: "lowdeg n (\<lambda>x. 0)"
  by (induction n) (auto intro!: exI [of _ 0])

lemma lowdeg_Suc: "lowdeg n f \<Longrightarrow> lowdeg (Suc n) f"
proof (induction n arbitrary: f)
  case (Suc n)
  then show ?case by (metis lowdeg.simps(2))
qed (auto intro!: exI [of _ 0] exI [of _ "\<lambda>x. 0"])

lemma lowdeg_times_x: "lowdeg n f \<Longrightarrow> lowdeg (Suc n) (\<lambda>x. x * f x)"
  by (auto intro!: exI [of _ 0])

lemma lowdeg_times_root:
  assumes "lowdeg n f"
  shows "lowdeg (Suc n) (\<lambda>x. (x - a) * f x)"
proof -
  have "lowdeg (Suc n) (\<lambda>x. x * f x + (- a) * f x)"
    by (intro lowdeg_add lowdeg_times_x lowdeg_scale lowdeg_Suc assms)
  then show ?thesis by (simp add: algebra_simps)
qed

lemma lowdeg_root:
  assumes "lowdeg (Suc n) f"
  shows "\<exists>g. lowdeg n g \<and> (\<forall>x. f x - f a = (x - a) * g x)"
  using assms
proof (induction n arbitrary: f)
  case 0
  then show ?case by auto
next
  case (Suc n)
  then obtain c h where h: "lowdeg (Suc n) h" "\<forall>x. f x = c + x * h x" by auto
  with Suc.IH obtain g where g: "lowdeg n g" "\<forall>x. h x - h a = (x - a) * g x" by blast
  have "lowdeg (Suc n) (\<lambda>x. h x + a * g x)"
    by (rule lowdeg_add [OF h(1) lowdeg_scale [OF lowdeg_Suc [OF g(1)]]])
  moreover have "f x - f a = (x - a) * (h x + a * g x)" for x
  proof -
    have "f x - f a = (x - a) * h x + a * (h x - h a)" using h(2) by (simp add: algebra_simps)
    also have "\<dots> = (x - a) * h x + a * ((x - a) * g x)" using g(2) by simp
    finally show ?thesis by (simp add: algebra_simps)
  qed
  ultimately show ?case by blast
qed

text \<open>A function with \<open>n\<close> coefficients and \<open>n\<close> zeros is zero.\<close>

lemma lowdeg_zeros:
  assumes "lowdeg n f" and "finite A" and "card A = n" and "\<forall>a \<in> A. f a = 0"
  shows "f x = 0"
  using assms
proof (induction n arbitrary: f A x)
  case (Suc n)
  then obtain a where a: "a \<in> A" by fastforce
  with Suc.prems(1) obtain g where g: "lowdeg n g" "\<forall>x. f x - f a = (x - a) * g x" using lowdeg_root by blast
  have "g b = 0" if "b \<in> A - {a}" for b
    using g(2) Suc.prems(4) a that by (metis DiffE cancel_comm_monoid_add_class.diff_cancel insertI1 mult_eq_0_iff eq_iff_diff_eq_0)
  with Suc.IH [OF g(1), of "A - {a}"] Suc.prems a have "g x = 0" for x by simp
  with g(2) Suc.prems(4) a show ?case by simp
qed simp

section \<open>Interpolation\<close>

text \<open>Through the values \<open>y i\<close> at the points \<open>p i\<close>, for the indices of a list.\<close>

definition basis :: "(nat \<Rightarrow> 'a::field) \<Rightarrow> nat list \<Rightarrow> nat \<Rightarrow> 'a \<Rightarrow> 'a" where
  "basis p S i x = (\<Prod>j \<leftarrow> filter (\<lambda>j. j \<noteq> i) S. (x - p j) / (p i - p j))"

definition interp :: "(nat \<Rightarrow> 'a::field) \<Rightarrow> nat list \<Rightarrow> (nat \<Rightarrow> 'a) \<Rightarrow> 'a \<Rightarrow> 'a" where
  "interp p S y x = (\<Sum>i \<leftarrow> S. y i * basis p S i x)"

lemma interp_cong: "(\<And>i. i \<in> set S \<Longrightarrow> y i = z i) \<Longrightarrow> interp p S y x = interp p S z x"
  unfolding interp_def by (simp cong: map_cong)

lemma lowdeg_prod: "lowdeg (Suc (length js)) (\<lambda>x. \<Prod>j \<leftarrow> js. (x - p j) / (c - p j))"
proof (induction js)
  case (Cons j js)
  have "lowdeg (Suc (Suc (length js))) (\<lambda>x. inverse (c - p j) * ((x - p j) * (\<Prod>j \<leftarrow> js. (x - p j) / (c - p j))))"
    by (intro lowdeg_scale lowdeg_times_root Cons)
  then show ?case by (simp add: divide_inverse mult_ac del: lowdeg.simps)
qed (auto intro!: exI [of _ 1])

lemma lowdeg_interp:
  assumes "distinct S"
  shows "lowdeg (length S) (interp p S y)"
proof -
  have part: "lowdeg (length S) (\<lambda>x. y i * basis p S i x)" if "i \<in> set S" for i
  proof -
    have "Suc (length (filter (\<lambda>j. j \<noteq> i) S)) = length S"
    proof -
      have "set (filter (\<lambda>j. j \<noteq> i) S) = set S - {i}" by auto
      then have "length (filter (\<lambda>j. j \<noteq> i) S) = card (set S - {i})"
        using assms distinct_card [of "filter (\<lambda>j. j \<noteq> i) S"] by simp
      with that assms length_pos_if_in_set [OF that] show ?thesis
        by (simp add: distinct_card card_Diff_singleton)
    qed
    with lowdeg_prod [of "filter (\<lambda>j. j \<noteq> i) S" p "p i"] show ?thesis
      unfolding basis_def by (intro lowdeg_scale) simp
  qed
  have "lowdeg (length S) (\<lambda>x. \<Sum>i \<leftarrow> T. y i * basis p S i x)" if "set T \<subseteq> set S" for T
    using that by (induction T) (simp_all add: lowdeg_zero lowdeg_add part)
  then show ?thesis unfolding interp_def by simp
qed

lemma basis_at:
  assumes "distinct S" and "inj_on p (set S)" and "i \<in> set S" and "k \<in> set S"
  shows "basis p S i (p k) = (if i = k then 1 else 0)"
proof (cases "i = k")
  case True
  have "p k \<noteq> p j" if "j \<in> set S" "j \<noteq> k" for j
    using inj_onD [OF assms(2)] that assms(4) by blast
  then have "map (\<lambda>j. (p k - p j) / (p k - p j)) (filter (\<lambda>j. j \<noteq> k) S) = map (\<lambda>_. 1) (filter (\<lambda>j. j \<noteq> k) S)"
    by (intro map_cong) auto
  moreover have "(\<Prod>j \<leftarrow> js. 1 :: 'a) = 1" for js :: "nat list" by (induction js) simp_all
  ultimately show ?thesis using True by (simp only: basis_def simp_thms if_True)
next
  case False
  then have "k \<in> set (filter (\<lambda>j. j \<noteq> i) S)" using assms(4) by simp
  then have "0 \<in> set (map (\<lambda>j. (p k - p j) / (p i - p j)) (filter (\<lambda>j. j \<noteq> i) S))" by force
  with False show ?thesis by (simp add: basis_def prod_list_zero_iff)
qed

lemma interp_at:
  assumes "distinct S" and "inj_on p (set S)" and "k \<in> set S"
  shows "interp p S y (p k) = y k"
proof -
  have "interp p S y (p k) = (\<Sum>i \<in> set S. y i * basis p S i (p k))"
    unfolding interp_def using assms(1) by (simp add: sum_list_distinct_conv_sum_set)
  also have "\<dots> = (\<Sum>i \<in> set S. if i = k then y k else 0)"
    by (rule sum.cong) (simp_all add: basis_at [OF assms(1,2) _ assms(3)])
  finally show ?thesis using assms(3) by simp
qed

text \<open>What was interpolated at 32 points is interpolated from its values at any other 32.\<close>

lemma interp_unique:
  assumes "lowdeg (length S) f" and "distinct S" and "inj_on p (set S)"
  shows "interp p S (\<lambda>i. f (p i)) x = f x"
proof -
  have "lowdeg (length S) (\<lambda>x. interp p S (\<lambda>i. f (p i)) x + (- 1) * f x)"
    by (intro lowdeg_add lowdeg_interp lowdeg_scale assms)
  moreover have "card (p ` set S) = length S" using assms(2,3) by (simp add: card_image distinct_card)
  moreover have "\<forall>a \<in> p ` set S. interp p S (\<lambda>i. f (p i)) a + (- 1) * f a = 0"
    using interp_at [OF assms(2,3)] by auto
  ultimately have "interp p S (\<lambda>i. f (p i)) x + (- 1) * f x = 0"
    by (intro lowdeg_zeros [where n = "length S" and A = "p ` set S"]) auto
  then show ?thesis by simp
qed

end
