(* ===== verification/Rs_Code.thy ===== *)
theory Rs_Code
  imports Gf256 Reed_Sol
begin

text \<open>
  What the erasure code is for: any 32 shards of an encoded batch give back all 64. \<open>rs_recovers\<close> states
  this documented behaviour of \<open>reed_solomon_erasure\<close>, and \<open>gf_rs\<close>, interpolation over the field of 256
  elements, is a codec that has it, so that the hypothesis is known to be satisfiable (no code that copies
  shards is).
\<close>

section \<open>The contract\<close>

definition rs_recovers :: "'r rs_api \<Rightarrow> bool" where
  "rs_recovers rs \<longleftrightarrow>
     (\<forall>r n ds zs qs xs. rs_new rs 32 32 = Ret r \<and> 0 < n \<and> length ds = 32 \<and> length zs = 32
        \<and> same_size n ds \<and> same_size n zs \<and> rs_encode_sep rs r ds zs = Ret qs
        \<and> length xs = 64 \<and> 32 \<le> length (present xs)
        \<and> (\<forall>i < 64. xs ! i = None \<or> xs ! i = Some ((ds @ qs) ! i))
        \<longrightarrow> rs_reconstruct rs r xs = Ret (map Some (ds @ qs)))"

section \<open>Interpolation as a codec\<close>

definition pt :: "nat \<Rightarrow> gf" where
  "pt i = GF (word_of_nat i)"

lemma pt_inj: "inj_on pt {..<64}"
proof (rule inj_onI)
  fix i j :: nat
  assume ij: "i \<in> {..<64}" "j \<in> {..<64}" "pt i = pt j"
  then have "(word_of_nat i :: byte) = word_of_nat j" by (simp add: pt_def GF_inject)
  then have "unat (word_of_nat i :: byte) = unat (word_of_nat j :: byte)" by simp
  with ij(1,2) show "i = j" by (simp add: unat_of_nat)
qed

text \<open>Column \<open>c\<close> of the shards that are listed in \<open>S\<close>, and the shard at position \<open>i\<close> that they determine.\<close>

definition column :: "(nat \<Rightarrow> bytes) \<Rightarrow> nat \<Rightarrow> nat \<Rightarrow> gf" where
  "column sh c i = GF (sh i ! c)"

definition shard_from :: "nat \<Rightarrow> nat list \<Rightarrow> (nat \<Rightarrow> bytes) \<Rightarrow> nat \<Rightarrow> bytes" where
  "shard_from n S sh i = map (\<lambda>c. gf_byte (interp pt S (column sh c) (pt i))) [0..<n]"

definition shard_size :: "bytes list \<Rightarrow> nat" where
  "shard_size xs = (case xs of [] \<Rightarrow> 0 | x # _ \<Rightarrow> length x)"

definition gf_rs :: "unit rs_api" where
  "gf_rs =
     \<lparr>rs_new = (\<lambda>_ _. Ret ()),
      rs_encode_sep = (\<lambda>_ ds zs. Ret (map (\<lambda>j. shard_from (shard_size ds) [0..<32] ((!) ds) (32 + j)) [0..<length zs])),
      rs_reconstruct = (\<lambda>_ xs.
        let S = take 32 (filter (\<lambda>i. xs ! i \<noteq> None) [0..<length xs]) in
        Ret (map (\<lambda>i. Some (case xs ! i of Some b \<Rightarrow> b
          | None \<Rightarrow> shard_from (shard_size (present xs)) S (\<lambda>k. the (xs ! k)) i)) [0..<length xs]))\<rparr>"

lemma length_shard_from [simp]: "length (shard_from n S sh i) = n"
  by (simp add: shard_from_def)

lemma shard_size: "same_size n xs \<Longrightarrow> xs \<noteq> [] \<Longrightarrow> shard_size xs = n"
  by (cases xs) (simp_all add: shard_size_def same_size_def)

lemma length_present: "length (present xs) = length (filter (\<lambda>i. xs ! i \<noteq> None) [0..<length xs])"
proof -
  have "length (present xs) = length (filter (\<lambda>x. x \<noteq> None) xs)"
    by (induction xs) (auto simp: present_def List.map_filter_simps)
  also have "filter (\<lambda>x. x \<noteq> None) xs = map ((!) xs) (filter (\<lambda>i. xs ! i \<noteq> None) [0..<length xs])"
    using filter_map [of "\<lambda>x. x \<noteq> None" "(!) xs" "[0..<length xs]"] by (simp add: map_nth o_def)
  finally show ?thesis by simp
qed

text \<open>A shard of the batch is what the data shards determine, and so is what any 32 shards determine.\<close>

lemma shard_from_data:
  assumes "i < 32" and "length (ds ! i) = n"
  shows "shard_from n [0..<32] ((!) ds) i = ds ! i"
proof -
  have "inj_on pt (set [0..<32])" using pt_inj by (rule inj_on_subset) auto
  then show ?thesis
    using assms interp_at [of "[0..<32]" pt i] by (simp add: shard_from_def list_eq_iff_nth_eq column_def GF_inverse)
qed

lemma shard_from_shards:
  assumes "distinct S" and "set S \<subseteq> {..<64}" and "length S = 32" and "\<And>k. k \<in> set S \<Longrightarrow> sh k = shard_from n [0..<32] ds k"
  shows "shard_from n S sh i = shard_from n [0..<32] ds i"
proof (rule nth_equalityI)
  fix c assume "c < length (shard_from n S sh i)"
  then have c: "c < n" by simp
  let ?f = "interp pt [0..<32] (column ds c)"
  have col: "column sh c k = ?f (pt k)" if "k \<in> set S" for k
    using c by (simp add: column_def assms(4) [OF that] shard_from_def gf_byte_inverse)
  have inj: "inj_on pt (set S)" by (rule inj_on_subset [OF pt_inj assms(2)])
  have "lowdeg (length S) ?f" using lowdeg_interp [of "[0..<32]" pt "column ds c"] assms(3) by simp
  from interp_unique [OF this assms(1) inj, of "pt i"]
  have "interp pt S (\<lambda>k. ?f (pt k)) (pt i) = ?f (pt i)" .
  moreover have "interp pt S (column sh c) (pt i) = interp pt S (\<lambda>k. ?f (pt k)) (pt i)"
    by (rule interp_cong) (rule col)
  ultimately show "shard_from n S sh i ! c = shard_from n [0..<32] ds i ! c" using c by (simp add: shard_from_def)
qed simp

lemma gf_rs_ok: "rs_ok gf_rs"
  unfolding rs_ok_def
proof (intro exI [of _ "()"] conjI allI impI; (elim conjE)?)
  fix n :: nat and ds ps :: "bytes list"
  assume "0 < n" "length ds = 32" "length ps = 32" "same_size n ds" "same_size n ps"
  moreover from this have "shard_size ds = n" by (intro shard_size) auto
  ultimately show "\<exists>qs. rs_encode_sep gf_rs () ds ps = Ret qs \<and> length qs = 32 \<and> same_size n qs"
    by (simp add: gf_rs_def same_size_def)
next
  fix n :: nat and xs :: "bytes option list"
  assume xs: "0 < n" "length xs = 64" "32 \<le> length (present xs)" "same_size n (present xs)"
  let ?ys = "map (\<lambda>i. case xs ! i of Some b \<Rightarrow> b
      | None \<Rightarrow> shard_from (shard_size (present xs)) (take 32 (filter (\<lambda>i. xs ! i \<noteq> None) [0..<length xs]))
          (\<lambda>k. the (xs ! k)) i) [0..<length xs]"
  have n: "shard_size (present xs) = n" using xs by (intro shard_size) auto
  have "length b = n" if "xs ! i = Some b" "i < 64" for i b
    using xs(2,4) that nth_mem [of i xs] by (auto simp: same_size_def set_present)
  then have "same_size n ?ys" using xs(2) by (auto simp: same_size_def n split: option.splits)
  moreover have "rs_reconstruct gf_rs () xs = Ret (map Some ?ys)"
    by (simp add: gf_rs_def Let_def o_def del: not_None_eq)
  moreover have "\<forall>i < 64. \<forall>x. xs ! i = Some x \<longrightarrow> ?ys ! i = x" using xs(2) by simp
  ultimately show "\<exists>ys. rs_reconstruct gf_rs () xs = Ret (map Some ys) \<and> length ys = 64
      \<and> same_size n ys \<and> (\<forall>i < 64. \<forall>x. xs ! i = Some x \<longrightarrow> ys ! i = x)"
    using xs(2) by (intro exI [of _ ?ys]) simp
qed (simp add: gf_rs_def)

text \<open>The whole codeword from any 32 of its shards.\<close>

lemma codeword_from_shards:
  assumes xs: "length xs = 64" "32 \<le> length (present xs)"
    and cw: "\<forall>i < 64. xs ! i = None \<or> xs ! i = Some (ws ! i)"
    and ws: "\<And>i. i < 64 \<Longrightarrow> ws ! i = shard_from n [0..<32] ds i" "length ws = 64"
  shows "rs_reconstruct gf_rs r xs = Ret (map Some ws)"
proof -
  let ?S = "take 32 (filter (\<lambda>i. xs ! i \<noteq> None) [0..<64])"
  have S: "distinct ?S" "set ?S \<subseteq> {..<64}" "length ?S = 32"
    using length_present [of xs] xs by (auto simp: distinct_take dest!: in_set_takeD)
  have Some: "the (xs ! k) = shard_from n [0..<32] ds k" if "k \<in> set ?S" for k
    using that cw ws(1) [of k] by (auto dest!: in_set_takeD)
  have "same_size n (present xs)"
    unfolding same_size_def set_present
  proof clarify
    fix b assume "Some b \<in> set xs"
    then obtain i where "i < 64" "xs ! i = Some b" using xs(1) by (metis in_set_conv_nth)
    with cw have "b = ws ! i" by (metis option.distinct(1) option.inject)
    then show "length b = n" using ws(1) [OF \<open>i < 64\<close>] by simp
  qed
  then have size: "shard_size (present xs) = n" using xs(2) by (intro shard_size) auto
  have "(case xs ! i of Some b \<Rightarrow> b | None \<Rightarrow> shard_from n ?S (\<lambda>k. the (xs ! k)) i) = ws ! i" if "i < 64" for i
    using that cw shard_from_shards [OF S Some] ws(1) [of i] by (auto split: option.splits)
  then have "map (\<lambda>i. Some (case xs ! i of Some b \<Rightarrow> b | None \<Rightarrow> shard_from n ?S (\<lambda>k. the (xs ! k)) i)) [0..<64]
      = map (\<lambda>i. Some (ws ! i)) [0..<64]" by (intro map_cong) auto
  also have "\<dots> = map Some ws" using ws(2) by (simp add: list_eq_iff_nth_eq)
  finally have "map (\<lambda>i. Some (case xs ! i of Some b \<Rightarrow> b | None \<Rightarrow> shard_from n ?S (\<lambda>k. the (xs ! k)) i)) [0..<64]
      = map Some ws" .
  moreover have "rs_reconstruct gf_rs r xs = Ret (map (\<lambda>i. Some (case xs ! i of Some b \<Rightarrow> b
      | None \<Rightarrow> shard_from (shard_size (present xs)) (take 32 (filter (\<lambda>i. xs ! i \<noteq> None) [0..<length xs]))
          (\<lambda>k. the (xs ! k)) i)) [0..<length xs])"
    by (simp add: gf_rs_def Let_def del: not_None_eq)
  ultimately show ?thesis unfolding size xs(1) by (simp only:)
qed

lemma gf_rs_recovers: "rs_recovers gf_rs"
  unfolding rs_recovers_def
proof (intro allI impI; elim conjE)
  fix r :: unit and n and ds zs qs :: "bytes list" and xs :: "bytes option list"
  assume n: "0 < n" "length ds = 32" "length zs = 32" "same_size n ds"
    and enc: "rs_encode_sep gf_rs r ds zs = Ret qs"
    and xs: "length xs = 64" "32 \<le> length (present xs)"
    and cw: "\<forall>i < 64. xs ! i = None \<or> xs ! i = Some ((ds @ qs) ! i)"
  have "shard_size ds = n" using n by (intro shard_size) auto
  then have qs: "qs = map (\<lambda>j. shard_from n [0..<32] ((!) ds) (32 + j)) [0..<32]"
    using enc n(3) by (simp add: gf_rs_def)
  have "(ds @ qs) ! i = shard_from n [0..<32] ((!) ds) i" if "i < 64" for i
  proof (cases "i < 32")
    case True
    then show ?thesis using n(2,4) by (simp add: nth_append shard_from_data same_size_def)
  next
    case False
    then show ?thesis using that n(2) nth_upt [of 0 "i - 32" 32] by (simp add: qs nth_append)
  qed
  then show "rs_reconstruct gf_rs r xs = Ret (map Some (ds @ qs))"
    by (rule codeword_from_shards [OF xs cw]) (simp_all add: qs n(2))
qed

end
