(* ===== verification/Recovery.thy ===== *)
theory Recovery
  imports Tree_Binding Rs_Code Listener_Props
begin

text \<open>
  What a reconstructed set is good for: the erasure shards that the assembler holds determine the payload.
  \<open>regions_decode\<close> is the codec's part, for any 32 regions of a built set; \<open>shard_bound\<close> is the tree's part,
  that a verified datagram brings the region of its position, whoever sent it.
\<close>

section \<open>The regions of a built set\<close>

definition fec_regions :: "fec_set \<Rightarrow> bytes list" where
  "fec_regions fs = map (\<lambda>i. erasure_region i (shreds fs ! i)) [0..<64]"

definition fec_bodies :: "fec_set \<Rightarrow> bytes list" where
  "fec_bodies fs = map (\<lambda>i. slice 64 (proof_start_at i) (shreds fs ! i)) [0..<64]"

text \<open>The data of a data shred, read from its erasure region: the size field counts from the signature.\<close>

definition region_data :: "bytes \<Rightarrow> bytes" where
  "region_data r = slice 24 (unat (from_le_bytes (slice 22 24 r) :: u16) - 64) r"

definition body_region :: "nat \<Rightarrow> bytes \<Rightarrow> bytes" where
  "body_region i body = (if i < 32 then slice 0 987 body else slice 25 1012 body)"

lemma slice_drop: "slice (n + i) (n + j) xs = slice i j (drop n xs)"
  by (simp add: slice_def add.commute)

lemma slice_slice: "j \<le> b - a \<Longrightarrow> slice i j (slice a b xs) = slice (a + i) (a + j) xs"
  by (simp add: slice_def drop_take min_def add.commute)

lemma erasure_region_body:
  "proof_start_at i \<le> n \<Longrightarrow> erasure_region i s = body_region i (slice 64 n s)"
  by (cases "i < 32") (simp_all add: erasure_region_def body_region_def slice_slice proof_start_at_def)

lemma region_data_body:
  assumes "length (fp_chained_root ps) = 32"
  shows "region_data (data_region payload ps i) = payload_part payload i"
proof -
  let ?n = "length (payload_part payload i)" and ?r = "data_region payload ps i"
  have n: "?n \<le> 963" by (rule length_payload_part)
  have r: "?r = [0x96] @ to_le_bytes (fp_slot ps) @ to_le_bytes (fp_fec_set_index ps + word_of_nat i)
     @ to_le_bytes (fp_version ps) @ to_le_bytes (fp_fec_set_index ps)
     @ to_le_bytes (fp_parent_offset ps) @ [fp_flags ps] @ to_le_bytes (word_of_nat (88 + ?n) :: u16)
     @ payload_part payload i @ replicate (963 - ?n) 0"
    using n by (simp add: data_region_def data_body_def)
  have "slice 22 24 ?r = to_le_bytes (word_of_nat (88 + ?n) :: u16)"
    unfolding r by (simp add: slice_simps)
  then have "unat (from_le_bytes (slice 22 24 ?r) :: u16) = 88 + ?n"
    using n by (simp only: from_to_le unat_of_nat) simp
  then show ?thesis unfolding region_data_def using n by (simp add: r slice_simps)
qed

lemma built_regions:
  assumes "sha_ok sha" and "rs_ok rs" and "signer_ok sg ed (fp_signing_key ps)"
    and "length (fp_chained_root ps) = 32" and "build_fec_set sha rs sg oc payload ps = Ret fs"
  obtains qs where "encodes rs (data_regions payload ps) qs" "length qs = 32" "same_size 987 qs"
    "fec_regions fs = data_regions payload ps @ qs" "fec_bodies fs = shred_bodies payload ps qs"
    "fs_merkle_root fs = tree_root (set_tree sha (shred_bodies payload ps qs))" "length payload \<le> 30816"
proof -
  obtain qs where enc: "encodes rs (data_regions payload ps) qs" and q: "length qs = 32" "same_size 987 qs"
    and fs: "fs = finished_set sha sg ps (shred_bodies payload ps qs)" and len: "length payload \<le> 30816"
    and sig: "length (sk_sign sg (fp_signing_key ps) (fs_merkle_root fs)) = 64"
    by (rule build_fec_set_RetE [OF assms])
  have body: "slice 64 (proof_start_at i) (shreds fs ! i) = shred_body payload ps qs i" if "i < 64" for i
  proof -
    have "64 + length (shred_body payload ps qs i) = proof_start_at i"
      using length_shred_body [OF assms(4) q that, of payload] proof_start_at_bounds [of i] by simp
    then show ?thesis using sig that by (simp add: fs finished_shred slice_def)
  qed
  have "fec_bodies fs = shred_bodies payload ps qs" by (simp add: fec_bodies_def shred_bodies_def body)
  moreover have "fec_regions fs = data_regions payload ps @ qs"
  proof (rule nth_equalityI)
    show "length (fec_regions fs) = length (data_regions payload ps @ qs)"
      using q by (simp add: fec_regions_def data_regions_def)
    fix i assume "i < length (fec_regions fs)"
    then have i: "i < 64" by (simp add: fec_regions_def)
    then have "fec_regions fs ! i = body_region i (shred_body payload ps qs i)"
      by (simp add: fec_regions_def erasure_region_body [of i "proof_start_at i"] body)
    also have "\<dots> = (data_regions payload ps @ qs) ! i"
    proof (cases "i < 32")
      case True
      then show ?thesis
        by (simp add: body_region_def shred_body_def data_regions_def data_region_def nth_append slice_def)
    next
      case False
      then have "length (qs ! (i - 32)) = 987" using i q by (simp add: same_size_def)
      with False show ?thesis
        by (simp add: body_region_def shred_body_def code_body_def nth_append slice_simps data_regions_def)
    qed
    finally show "fec_regions fs ! i = (data_regions payload ps @ qs) ! i" .
  qed
  moreover have "fs_merkle_root fs = tree_root (set_tree sha (shred_bodies payload ps qs))"
    by (simp add: fs finished_set_def Let_def)
  ultimately show ?thesis using that [OF enc q] len by blast
qed

lemma regions_payload:
  assumes "length (fp_chained_root ps) = 32" and "length payload \<le> 30816"
  shows "concat (map region_data (data_regions payload ps)) = payload"
proof -
  have "map region_data (data_regions payload ps) = map (payload_part payload) [0..<32]"
    by (simp add: data_regions_def region_data_body [OF assms(1)])
  with assms(2) show ?thesis by (simp add: concat_payload_parts)
qed

text \<open>Any 32 regions give back all of them, and the payload.\<close>

lemma regions_decode:
  assumes "sha_ok sha" and "rs_ok rs" and rec: "rs_recovers rs" and "signer_ok sg ed (fp_signing_key ps)"
    and "length (fp_chained_root ps) = 32" and "build_fec_set sha rs sg oc payload ps = Ret fs"
    and xs: "length xs = 64" "32 \<le> length (present xs)" "\<forall>i < 64. xs ! i = None \<or> xs ! i = Some (fec_regions fs ! i)"
  shows "reconstruct rs xs = Ret (map Some (fec_regions fs)) \<and> concat (map region_data (take 32 (fec_regions fs))) = payload"
proof -
  obtain qs where enc: "encodes rs (data_regions payload ps) qs"
    and reg: "fec_regions fs = data_regions payload ps @ qs" and len: "length payload \<le> 30816"
    by (rule built_regions [OF assms(1,2,4-6)])
  obtain r where r: "rs_new rs 32 32 = Ret r"
    "rs_encode_sep rs r (data_regions payload ps) (replicate 32 (replicate 987 0)) = Ret qs"
    using enc by (auto simp: encodes_def)
  have "length (data_regions payload ps) = 32" by (simp add: data_regions_def)
  moreover have "same_size 987 (replicate 32 (replicate 987 0))" by (simp add: same_size_def)
  ultimately have "rs_reconstruct rs r xs = Ret (map Some (fec_regions fs))"
    using rec [unfolded rs_recovers_def, rule_format, of r 987 "data_regions payload ps"
        "replicate 32 (replicate 987 0)" qs xs] r xs data_regions_size [OF assms(5), of payload] reg by simp
  then have "reconstruct rs xs = Ret (map Some (fec_regions fs))" by (simp add: reconstruct_def r(1))
  moreover have "concat (map region_data (take 32 (fec_regions fs))) = payload"
    using regions_payload [OF assms(5) len] by (simp add: reg data_regions_def)
  ultimately show ?thesis ..
qed

section \<open>What a verified datagram brings\<close>

lemma shred_body_first:
  "shred_body payload ps qs i = (if i < 32 then 0x96 else 0x66) # tl (shred_body payload ps qs i)"
  by (simp add: shred_body_def data_body_def code_body_def)

text \<open>The variant byte is the first byte of the signed body, so the body fixes where its region lies.\<close>

lemma body_fixes_region:
  assumes "parse_shred oc raw = Ret p" and "verify_shred sha ed oc raw pk = Ret v"
    and "slice (fst (leaf_range p)) (snd (leaf_range p)) (p_raw p) = shred_body payload ps qs i"
  shows "shard_of v raw = body_region i (shred_body payload ps qs i)"
proof -
  obtain w where w: "variant_decode (raw ! 64) = Ret w" "payload_size (kind w) \<le> length raw" and p: "p = parse_result raw w"
    using assms(1) by (rule parse_shred_RetE)
  have body: "slice 64 (proof_start_of w) raw = shred_body payload ps qs i" using assms(3) by (simp add: p)
  with shred_body_first [of payload ps qs i] have ne: "slice 64 (proof_start_of w) raw \<noteq> []" by auto
  have "64 < length raw" using w(2) payload_size_bounds(1) [of "kind w"] by linarith
  then have "slice 64 (proof_start_of w) raw ! 0 = raw ! 64" using ne by (simp add: slice_def)
  then have "raw ! 64 = shred_body payload ps qs i ! 0" by (simp add: body)
  also have "\<dots> = (if i < 32 then 0x96 else 0x66)" by (subst shred_body_first) simp
  finally have "raw ! 64 = (if i < 32 then 0x96 else 0x66)" .
  then have "w = (if i < 32 then data_variant else code_variant)" using w(1)
    by (cases "i < 32") (simp_all add: decode_built)
  then have start: "proof_start_of w = proof_start_at i" and kind: "kind w = shred_kind_at i"
    by (auto simp: built_ranges proof_start_at_def shred_kind_at_def data_variant_def code_variant_def
        proof_start_of_def proof_end_of_def)
  have "v = verified_of p (v_merkle_root v)" by (rule verify_shred_parsed [OF assms(2,1)])
  then have "v_kind v = v_kind (verified_of p (v_merkle_root v))" by simp
  also have "\<dots> = shred_kind_at i" by (simp add: verified_of_def p kind)
  finally have "v_kind v = shred_kind_at i" .
  then have "shard_of v raw = erasure_region i raw"
    by (simp add: shard_of_def shard_offset_def shred_kind_at_def erasure_region_def)
  also have "\<dots> = body_region i (slice 64 (proof_start_of w) raw)"
    by (rule erasure_region_body) (simp add: start)
  finally show ?thesis by (simp add: body)
qed

lemma shard_bound:
  assumes sha: "sha_ok sha" and "rs_ok rs" and "signer_ok sg ed' (fp_signing_key ps)"
    and chained: "length (fp_chained_root ps) = 32" and build: "build_fec_set sha rs sg oc' payload ps = Ret fs"
    and v: "verify_shred sha ed oc raw pk = Ret v" and p: "parse_shred oc raw = Ret p"
    and root: "v_merkle_root v = fs_merkle_root fs"
  shows "shard_of v raw = fec_regions fs ! v_erasure_shard_index v \<and> v_erasure_shard_index v < 64
     \<or> collides sha (hashed_messages sha p) (set_messages sha (fec_bodies fs))"
proof -
  obtain qs where reg: "fec_regions fs = data_regions payload ps @ qs" and bodies: "fec_bodies fs = shred_bodies payload ps qs"
    and rt: "fs_merkle_root fs = tree_root (set_tree sha (shred_bodies payload ps qs))"
    by (rule built_regions [OF sha assms(2-4) build])
  let ?i = "v_erasure_shard_index v" and ?cs = "chunks_exact 20 (proof_bytes_of p)"
  let ?b = "slice (fst (leaf_range p)) (snd (leaf_range p)) (p_raw p)"
  have leaf: "leaf_input p = leaf_message ?b" by (simp add: leaf_input_def leaf_message_def)
  note w = verify_shred_parsed [OF v p, unfolded verified_of_def]
  have i: "p_erasure_shard_index p = ?i" using arg_cong [OF w, of v_erasure_shard_index] by simp
  have leaves: "map (body_leaf sha) bs = map (\<lambda>b. sha (leaf_message b)) bs" for bs
    by (simp add: body_leaf_def leaf_message_def)
  have "fold (merkle_step sha) ?cs (?i, sha (leaf_message ?b)) = (0, v_merkle_root v)"
    using verified_signature(1) [OF v p] i leaf by (simp add: compute_merkle_root_Ret_iff)
  then have run: "fold (merkle_step sha) ?cs (?i, sha (leaf_message ?b))
      = (0, last (build_levels sha (map (\<lambda>b. sha (leaf_message b)) (fec_bodies fs))) ! 0)"
    by (simp add: root rt bodies set_tree_def Let_def leaves)
  have "length (fec_bodies fs) = 2 ^ 6" by (simp add: fec_bodies_def)
  from root_binds [OF sha this _ run] have "?i < 64 \<and> ?b = fec_bodies fs ! ?i
      \<or> collides sha (hashed_messages sha p) (set_messages sha (fec_bodies fs))"
    by (auto simp: hashed_messages_def merkle_leaf_def leaf i fec_bodies_def leaf_message_def dest: chunks_exact_lengths)
  then show ?thesis
  proof
    assume b: "?i < 64 \<and> ?b = fec_bodies fs ! ?i"
    then have "?b = shred_body payload ps qs ?i" by (simp add: bodies)
    note body_fixes_region [OF p v this]
    moreover have "fec_regions fs ! ?i = body_region ?i (shred_body payload ps qs ?i)"
    proof -
      have "fec_regions fs ! ?i = body_region ?i (fec_bodies fs ! ?i)"
        using b by (simp add: fec_regions_def fec_bodies_def erasure_region_body [of ?i "proof_start_at ?i"])
      then show ?thesis using b by (simp add: bodies)
    qed
    ultimately show ?thesis using b by simp
  qed simp
qed

text \<open>What a run has collected for a set that it reports under the root of a built set.\<close>

lemma collected_bound:
  assumes run: "ingest_all env raws (with_resolver s) = Ret (asm, evs)" and total: "rs_total (le_rs env)"
    and sha: "sha_ok (le_sha env)" and "rs_ok rs" and sg: "signer_ok sg ed' (fp_signing_key ps)"
    and "length (fp_chained_root ps) = 32" and build: "build_fec_set (le_sha env) rs sg oc' payload ps = Ret fs"
    and rec: "Reconstructed key (fs_merkle_root fs) c \<in> set evs"
    and honest: "\<forall>raw \<in> set raws. \<forall>p. parse_shred (le_oc env) raw = Ret p
      \<longrightarrow> \<not> collides (le_sha env) (hashed_messages (le_sha env) p) (set_messages (le_sha env) (fec_bodies fs))"
  obtains st where "states asm key = Some st" "length (st_shards st) = 64" "32 \<le> length (present (st_shards st))"
    "\<forall>i < 64. st_shards st ! i = None \<or> st_shards st ! i = Some (fec_regions fs ! i)"
proof -
  have new: "asm_wf (with_resolver s)" "backed env (\<lambda>_ _. True) {} (with_resolver s)"
    by (rule with_resolver_wf, rule with_resolver_backed)
  have ans: "answers_only (le_resolve env) (\<lambda>_. True) (\<lambda>_ _. True)" by (simp add: answers_only_def)
  from run_reconstructed [OF run new(1) total rec] obtain st where
    st: "states asm key = Some st" "st_reconstructed st" "st_root st = Some (fs_merkle_root fs)" by blast
  from run_backed [OF run new(1) total ans _ new(2)]
  have wf: "asm_wf asm" and bk: "backed env (\<lambda>_ _. True) (set raws) asm" by blast+
  have f: "fec_wf st" using wf st(1) by (simp add: asm_wf_def)
  have "b = fec_regions fs ! i" if i: "i < 64" "st_shards st ! i = Some b" for i b
  proof -
    from bk [unfolded backed_def, rule_format, OF st(1) i] st(3) obtain raw where raw: "raw \<in> set raws"
      and "vouched env (\<lambda>_ _. True) raw key (fs_merkle_root fs) i b" by force
    then obtain pk v where
      v: "verify_shred (le_sha env) (le_ed env) (le_oc env) raw pk = Ret v" "v_merkle_root v = fs_merkle_root fs"
        "v_erasure_shard_index v = i" "b = shard_of v raw"
      unfolding vouched_def by blast
    obtain p where p: "parse_shred (le_oc env) raw = Ret p"
      using v(1) by (auto simp: verify_shred_def obind_eq_Ret)
    from shard_bound [OF sha assms(4) sg assms(6) build v(1) p v(2)] honest raw p v(3,4) show ?thesis by blast
  qed
  then have all: "\<forall>i < 64. st_shards st ! i = None \<or> st_shards st ! i = Some (fec_regions fs ! i)"
    by (metis option.exhaust)
  have "length (st_shards st) = 64" "32 \<le> length (present (st_shards st))"
    using f st(2) by (simp_all add: fec_wf_def)
  with that [OF st(1)] all show ?thesis by blast
qed

section \<open>A set built with the codec over the field of 256 elements\<close>

definition gf_env :: "(unit, bytes) listener_env" where
  "gf_env = sample_env\<lparr>le_rs := gf_rs\<rparr>"

lemma gf_env_simps [simp]:
  "le_sha gf_env = zero_sha" "le_ed gf_env = accept_all" "le_rs gf_env = gf_rs"
  "le_resolve gf_env = static_leader" "le_oc gf_env = True"
  by (simp_all add: gf_env_def)

lemma gf_rs_total: "rs_total gf_rs"
  by (simp add: rs_total_def reconstruct_def gf_rs_def Let_def)

lemma gf_builds:
  assumes "length payload \<le> 30816"
  shows "\<exists>fs. build_fec_set zero_sha gf_rs zero_signer oc payload sample_params = Ret fs"
  using assms
  by (rule_tac build_fec_set_eq [OF zero_sha_ok gf_rs_ok sample_signer_ok sample_build_ok(2),
        of payload oc]) (simp add: sample_build_ok)

lemma gf_run:
  "\<exists>fs asm evs. build_fec_set zero_sha gf_rs zero_signer True [9] sample_params = Ret fs
     \<and> ingest_all gf_env (map ((!) (shreds fs)) [32..<64]) (with_resolver (leader_pubkey fs)) = Ret (asm, evs)
     \<and> Reconstructed (built_key sample_params) (fs_merkle_root fs) 1 \<in> set evs"
proof -
  obtain fs where fs: "build_fec_set zero_sha gf_rs zero_signer True [9] sample_params = Ret fs"
    using gf_builds [of "[9]" True] by auto
  have "set [32..<64] \<subseteq> {..<64::nat}" by auto
  with built_set_is_reconstructed [of gf_env gf_rs zero_signer True "[9]" sample_params fs "[32..<64]"] fs
  show ?thesis by (simp add: gf_rs_ok gf_rs_total sample_signer_ok sample_build_ok assembler_new_def)
qed

section \<open>Properties\<close>

text \<open>
  C6: Any 32 shreds of a set give back its payload. Take any shreds of a finished set, at least 32 and
  coding shreds as well as data shreds: if the codec recovers what it encoded, reconstructing from their
  erasure regions gives the regions of all 64 shreds, and the data that the first 32 delimit is the
  payload the set was built from.
\<close>

theorem any_32_shreds_recover_payload:
  assumes "sha_ok sha" and "rs_ok rs" and "rs_recovers rs" and "signer_ok sg ed (fp_signing_key ps)"
    and "length (fp_chained_root ps) = 32" and "build_fec_set sha rs sg oc payload ps = Ret fs"
    and "K \<subseteq> {..<64}" and "32 \<le> card K"
  shows "\<exists>ys. reconstruct rs (map (\<lambda>i. if i \<in> K then Some (erasure_region i (shreds fs ! i)) else None) [0..<64])
       = Ret (map Some ys)
     \<and> ys = map (\<lambda>i. erasure_region i (shreds fs ! i)) [0..<64] \<and> concat (map region_data (take 32 ys)) = payload"
proof -
  let ?xs = "map (\<lambda>i. if i \<in> K then Some (erasure_region i (shreds fs ! i)) else None) [0..<64]"
  have "filter (\<lambda>i. ?xs ! i \<noteq> None) [0..<64] = filter (\<lambda>i. i \<in> K) [0..<64]"
    by (rule filter_cong) auto
  then have "length (present ?xs) = card ({..<64} \<inter> K)"
    by (simp add: length_present length_filter_conv_card [of _ "[0..<64]"] Int_def cong: conj_cong)
  with assms(7,8) have "32 \<le> length (present ?xs)" by (simp add: Int_absorb1)
  moreover have "\<forall>i < 64. ?xs ! i = None \<or> ?xs ! i = Some (fec_regions fs ! i)" by (simp add: fec_regions_def)
  ultimately show ?thesis
    using regions_decode [OF assms(1-6), of ?xs] by (simp add: fec_regions_def)
qed

theorem any_32_shreds_recover_payload_witness:
  "\<exists>fs ys. build_fec_set zero_sha gf_rs zero_signer True [1, 2, 3] sample_params = Ret fs
     \<and> reconstruct gf_rs (map (\<lambda>i. if i \<in> {20..<52} then Some (erasure_region i (shreds fs ! i)) else None) [0..<64])
         = Ret (map Some ys)
     \<and> concat (map region_data (take 32 ys)) = [1, 2, 3]"
proof -
  obtain fs where fs: "build_fec_set zero_sha gf_rs zero_signer True [1, 2, 3] sample_params = Ret fs"
    using gf_builds [of "[1, 2, 3]" True] by auto
  have "{20..<52::nat} \<subseteq> {..<64}" and "32 \<le> card {20..<52::nat}" by auto
  note any_32_shreds_recover_payload [OF zero_sha_ok gf_rs_ok gf_rs_recovers sample_signer_ok sample_build_ok(2) fs this]
  with fs show ?thesis by blast
qed

text \<open>
  C4: Only the payload that was signed can be read from what is collected. Whatever datagrams a run takes
  in, from whomever and under whatever keys, if it reports a set reconstructed with the root of a built
  set, then the shards it holds for that set decode to exactly the payload of the built set, unless
  some datagram has hashed messages of which one collides in the 20 bytes that are kept with a message
  hashed while the set was built.
\<close>

theorem collected_shards_decode:
  assumes "ingest_all env raws (with_resolver s) = Ret (asm, evs)" and "rs_total (le_rs env)"
    and "sha_ok (le_sha env)" and "rs_ok (le_rs env)" and "rs_recovers (le_rs env)"
    and "signer_ok sg ed (fp_signing_key ps)" and "length (fp_chained_root ps) = 32"
    and "build_fec_set (le_sha env) (le_rs env) sg oc payload ps = Ret fs"
    and "Reconstructed key (fs_merkle_root fs) c \<in> set evs"
  shows "(\<exists>st ys. states asm key = Some st \<and> reconstruct (le_rs env) (st_shards st) = Ret (map Some ys)
       \<and> concat (map region_data (take 32 ys)) = payload)
     \<or> (\<exists>raw \<in> set raws. \<exists>p. parse_shred (le_oc env) raw = Ret p
       \<and> collides (le_sha env) (hashed_messages (le_sha env) p) (set_messages (le_sha env) (fec_bodies fs)))"
proof (rule disjCI)
  assume "\<not> (\<exists>raw \<in> set raws. \<exists>p. parse_shred (le_oc env) raw = Ret p
       \<and> collides (le_sha env) (hashed_messages (le_sha env) p) (set_messages (le_sha env) (fec_bodies fs)))"
  then obtain st where "states asm key = Some st" and "length (st_shards st) = 64"
    "32 \<le> length (present (st_shards st))"
    "\<forall>i < 64. st_shards st ! i = None \<or> st_shards st ! i = Some (fec_regions fs ! i)"
    using collected_bound [OF assms(1-4,6-9)] by blast
  with regions_decode [OF assms(3-8)]
  show "\<exists>st ys. states asm key = Some st \<and> reconstruct (le_rs env) (st_shards st) = Ret (map Some ys)
       \<and> concat (map region_data (take 32 ys)) = payload" by blast
qed

theorem collected_shards_decode_witness:
  "\<exists>fs asm evs. build_fec_set zero_sha gf_rs zero_signer True [9] sample_params = Ret fs
     \<and> ingest_all gf_env (map ((!) (shreds fs)) [32..<64]) (with_resolver (leader_pubkey fs)) = Ret (asm, evs)
     \<and> ((\<exists>st ys. states asm (built_key sample_params) = Some st \<and> reconstruct gf_rs (st_shards st) = Ret (map Some ys)
           \<and> concat (map region_data (take 32 ys)) = [9])
        \<or> (\<exists>raw \<in> set (map ((!) (shreds fs)) [32..<64]). \<exists>p. parse_shred True raw = Ret p
           \<and> collides zero_sha (hashed_messages zero_sha p) (set_messages zero_sha (fec_bodies fs))))"
proof -
  obtain fs :: fec_set and asm evs where fs: "build_fec_set zero_sha gf_rs zero_signer True [9] sample_params = Ret fs"
    and run: "ingest_all gf_env (map ((!) (shreds fs)) [32..<64]) (with_resolver (leader_pubkey fs)) = Ret (asm, evs)"
    and rec: "Reconstructed (built_key sample_params) (fs_merkle_root fs) 1 \<in> set evs"
    using gf_run by blast
  from collected_shards_decode [OF run, unfolded gf_env_simps, OF gf_rs_total zero_sha_ok gf_rs_ok gf_rs_recovers
      sample_signer_ok sample_build_ok(2) fs rec]
  show ?thesis using fs run by blast
qed

end
