(* ===== verification/Rust_Test.thy ===== *)
theory Rust_Test
  imports Rust_Prelude
begin

text \<open>
  What the \<open>#[test]\<close> functions of the workspace use: assertions, \<open>Result\<close>s taken as values, byte string
  literals. A test is a call that returns the unit value; a failed assertion is a panic, so a test passes
  when it is \<open>Ret ()\<close>. No test returns an error, its error type is arbitrary.
\<close>

definition rust_assert :: "bool \<Rightarrow> ('e, unit) outcome" where
  "rust_assert b = (if b then Ret () else Panic)"

lemma rust_assert_True [simp]: "rust_assert True = Ret ()"
  by (simp add: rust_assert_def)

lemma rust_assert_eq_Ret [simp]: "rust_assert b = Ret u \<longleftrightarrow> b"
  by (simp add: rust_assert_def)

text \<open>A \<open>for\<close> loop whose body only asserts.\<close>

definition for_each :: "'a list \<Rightarrow> ('a \<Rightarrow> ('e, unit) outcome) \<Rightarrow> ('e, unit) outcome" where
  "for_each xs f = ofold (\<lambda>x _. f x) xs ()"

lemma for_each_pass [intro]: "(\<And>x. x \<in> set xs \<Longrightarrow> f x = Ret ()) \<Longrightarrow> for_each xs f = Ret ()"
  by (induction xs) (auto simp: for_each_def)

text \<open>\<open>let result = call();\<close>: the \<open>Result\<close> is kept, only a panic leaves the caller.\<close>

fun as_value :: "('e, 'a) outcome \<Rightarrow> ('f, 'e + 'a) outcome" where
  "as_value (Ret x) = Ret (Inr x)"
| "as_value (Fail e) = Ret (Inl e)"
| "as_value Panic = Panic"

definition bstr :: "string \<Rightarrow> bytes" where
  "bstr s = map of_char s"

lemma bstr_inj [simp]: "bstr s = bstr t \<longleftrightarrow> s = t"
proof
  have inj: "of_char c = (of_char d :: byte) \<longleftrightarrow> c = d" for c d
  proof -
    have "unat (of_char c :: byte) = of_char c" for c
    proof -
      have "unat (of_char c :: byte) = unat (of_nat (of_char c) :: byte)" by (simp only: of_nat_of_char)
      also have "\<dots> = of_char c mod 256" by (simp only: unat_of_nat) simp
      finally show ?thesis by simp
    qed
    then show ?thesis by (metis of_char_eq_iff)
  qed
  assume "bstr s = bstr t"
  then show "s = t"
    by (induction s arbitrary: t) (auto simp: bstr_def inj Cons_eq_map_conv)
qed simp

text \<open>\<open>(0..n as u32).flat_map(|i| i.to_le_bytes()).collect()\<close>, the payload that the tests send.\<close>

definition counting_payload :: "nat \<Rightarrow> bytes" where
  "counting_payload n = concat (map (\<lambda>i. to_le_bytes (word_of_nat i :: u32)) [0..<n])"

lemma length_counting_payload [simp]: "length (counting_payload n) = 4 * n"
  by (induction n) (simp_all add: counting_payload_def)

end
