(* ===== verification/Tests_Attest.thy ===== *)
theory Tests_Attest
  imports Rust_Test Attest
begin

text \<open>
  The tests of \<open>crates/lthash/src/lib.rs\<close> and \<open>crates/attest/src/lib.rs\<close>, as they are written, over any
  Blake3. Those that expect an acceptance pass for every hash function; those that expect a refusal pass,
  or their two accounts exhibit a collision of Blake3.
\<close>

section \<open>The accounts of the tests\<close>

definition dummy_account :: "byte \<Rightarrow> bytes \<Rightarrow> account_for_hash" where
  "dummy_account seed d =
     \<lparr>lamports = 1000000 + ucast seed, data = d, executable = False,
      owner = replicate 32 seed, pubkey = replicate 32 (seed + 1)\<rparr>"

definition acct :: "byte \<Rightarrow> bytes \<Rightarrow> account_for_hash" where
  "acct seed d =
     \<lparr>lamports = 1000000 + ucast seed, data = d, executable = False,
      owner = replicate 32 seed, pubkey = replicate 32 (seed + 1)\<rparr>"

lemma acct_wf [simp]: "account_wf (acct seed d)"
  by (simp add: account_wf_def acct_def)

lemma acct_live [simp]: "lamports (acct seed d) \<noteq> 0"
proof -
  have "unat seed < 256" using unsigned_less [of seed, where ?'a = nat] by simp
  then have "unat (1000000 + ucast seed :: u64) = 1000000 + unat seed"
    by (simp add: unat_word_ariths unsigned_ucast_eq take_bit_eq_mod)
  then show ?thesis by (auto simp: acct_def)
qed

lemma acct_eq_iff [simp]: "acct seed d = acct seed' d' \<longleftrightarrow> seed = seed' \<and> d = d'"
  by (auto simp: acct_def)

section \<open>Tests of the lattice hash\<close>

definition mix_in_then_mix_out_is_identity :: "(bytes \<Rightarrow> nat \<Rightarrow> bytes) \<Rightarrow> (unit, unit) outcome" where
  "mix_in_then_mix_out_is_identity xof =
     (let h = lt_identity;
          a = dummy_account 7 (bstr ''hello'');
          ha = hash_account xof a;
          h = mix_in h ha;
          h = mix_out h ha
      in rust_assert (is_identity h))"

definition additive_homomorphism :: "(bytes \<Rightarrow> nat \<Rightarrow> bytes) \<Rightarrow> (unit, unit) outcome" where
  "additive_homomorphism xof =
     (let a = dummy_account 1 (bstr ''alpha'');
          b = dummy_account 2 (bstr ''beta'');
          s = hash_account xof a;
          s = mix_in s (hash_account xof b);
          rev = hash_account xof b;
          rev = mix_in rev (hash_account xof a)
      in rust_assert (limbs s = limbs rev))"

definition slot_delta_after_state :: "(bytes \<Rightarrow> nat \<Rightarrow> bytes) \<Rightarrow> (unit, unit) outcome" where
  "slot_delta_after_state xof =
     (let a_old = dummy_account 3 (bstr ''old-a'');
          a_new = dummy_account 3 (bstr ''new-a'');
          b_old = dummy_account 4 (bstr ''old-b'');
          b_new = dummy_account 4 (bstr ''new-b'');
          before = lt_identity;
          before = mix_in before (hash_account xof a_old);
          before = mix_in before (hash_account xof b_old);
          d = sd_new;
          d = sd_mix xof d (Some a_old) (Some a_new);
          d = sd_mix xof d (Some b_old) (Some b_new);
          after_via_delta = mix_in before (delta d);
          after_direct = lt_identity;
          after_direct = mix_in after_direct (hash_account xof a_new);
          after_direct = mix_in after_direct (hash_account xof b_new)
      in rust_assert (limbs after_via_delta = limbs after_direct))"

definition tombstone_is_identity :: "(bytes \<Rightarrow> nat \<Rightarrow> bytes) \<Rightarrow> (unit, unit) outcome" where
  "tombstone_is_identity xof =
     (let t = \<lparr>lamports = 0, data = bstr [], executable = False, owner = replicate 32 0,
               pubkey = replicate 32 0\<rparr>
      in rust_assert (is_identity (hash_account xof t)))"

lemma lthash_tests_pass:
  "mix_in_then_mix_out_is_identity xof = Ret ()"
  "additive_homomorphism xof = Ret ()"
  "slot_delta_after_state xof = Ret ()"
  "tombstone_is_identity xof = Ret ()"
  by (simp_all add: mix_in_then_mix_out_is_identity_def additive_homomorphism_def
      slot_delta_after_state_def tombstone_is_identity_def Let_def lt_group is_identity_iff
      limbs_inject delta_sd_mix hash_account_tombstone algebra_simps)

section \<open>Tests of the slot verifier\<close>

definition synthetic_attestation_for ::
  "(bytes \<Rightarrow> nat \<Rightarrow> bytes) \<Rightarrow> (account_for_hash option \<times> account_for_hash option) list
     \<Rightarrow> (unit, attestation) outcome" where
  "synthetic_attestation_for xof transitions =
     (let sd = fold (\<lambda>(old, new) sd. sd_mix xof sd old new) transitions sd_new
      in from_delta 42 0 (replicate 32 0xaa) (replicate 32 0xbb) (replicate 64 0xcc) (delta sd))"

text \<open>\<open>matches!(result, Err(VerifyError::DeltaMismatch))\<close>\<close>

fun is_delta_mismatch :: "verify_error + unit \<Rightarrow> bool" where
  "is_delta_mismatch (Inl (DeltaMismatch _ _)) = True"
| "is_delta_mismatch _ = False"

definition happy_path_complete_set_verifies ::
  "(bytes \<Rightarrow> nat \<Rightarrow> bytes) \<Rightarrow> (bytes \<Rightarrow> bytes) \<Rightarrow> (unit, unit) outcome" where
  "happy_path_complete_set_verifies xof b3 =
     (let a_old = acct 1 (bstr ''old-a''); a_new = acct 1 (bstr ''new-a'');
          b_old = acct 2 (bstr ''old-b''); b_new = acct 2 (bstr ''new-b'')
      in obind (synthetic_attestation_for xof
                  [(Some a_old, Some a_new), (Some b_old, Some b_new)]) (\<lambda>att.
         let transitions = [\<lparr>t_old = Some a_old, t_new = Some a_new\<rparr>,
                            \<lparr>t_old = Some b_old, t_new = Some b_new\<rparr>]
         in expect (verify_slot_delta xof b3 att transitions)))"

definition single_flipped_byte_fails ::
  "(bytes \<Rightarrow> nat \<Rightarrow> bytes) \<Rightarrow> (bytes \<Rightarrow> bytes) \<Rightarrow> (unit, unit) outcome" where
  "single_flipped_byte_fails xof b3 =
     (let a_old = acct 1 (bstr ''old-a''); a_new_real = acct 1 (bstr ''new-a'');
          a_new_tampered = acct 1 (bstr ''new-A'')
      in obind (synthetic_attestation_for xof [(Some a_old, Some a_new_real)]) (\<lambda>att.
         let transitions = [\<lparr>t_old = Some a_old, t_new = Some a_new_tampered\<rparr>]
         in obind (as_value (verify_slot_delta xof b3 att transitions)) (\<lambda>result.
            rust_assert (is_delta_mismatch result))))"

definition spurious_extra_transition_fails ::
  "(bytes \<Rightarrow> nat \<Rightarrow> bytes) \<Rightarrow> (bytes \<Rightarrow> bytes) \<Rightarrow> (unit, unit) outcome" where
  "spurious_extra_transition_fails xof b3 =
     (let a_old = acct 1 (bstr ''old-a''); a_new = acct 1 (bstr ''new-a'');
          spurious_old = acct 99 (bstr ''phantom-old''); spurious_new = acct 99 (bstr ''phantom-new'')
      in obind (synthetic_attestation_for xof [(Some a_old, Some a_new)]) (\<lambda>att.
         let transitions = [\<lparr>t_old = Some a_old, t_new = Some a_new\<rparr>,
                            \<lparr>t_old = Some spurious_old, t_new = Some spurious_new\<rparr>]
         in obind (as_value (verify_slot_delta xof b3 att transitions)) (\<lambda>result.
            rust_assert (is_delta_mismatch result))))"

definition missing_transition_fails ::
  "(bytes \<Rightarrow> nat \<Rightarrow> bytes) \<Rightarrow> (bytes \<Rightarrow> bytes) \<Rightarrow> (unit, unit) outcome" where
  "missing_transition_fails xof b3 =
     (let a_old = acct 1 (bstr ''old-a''); a_new = acct 1 (bstr ''new-a'');
          b_old = acct 2 (bstr ''old-b''); b_new = acct 2 (bstr ''new-b'')
      in obind (synthetic_attestation_for xof
                  [(Some a_old, Some a_new), (Some b_old, Some b_new)]) (\<lambda>att.
         let transitions = [\<lparr>t_old = Some a_old, t_new = Some a_new\<rparr>]
         in obind (as_value (verify_slot_delta xof b3 att transitions)) (\<lambda>result.
            rust_assert (is_delta_mismatch result))))"

definition account_creation_and_closure_verify ::
  "(bytes \<Rightarrow> nat \<Rightarrow> bytes) \<Rightarrow> (bytes \<Rightarrow> bytes) \<Rightarrow> (unit, unit) outcome" where
  "account_creation_and_closure_verify xof b3 =
     (let made = acct 5 (bstr ''hello-world''); closed = acct 6 (bstr ''goodbye'')
      in obind (synthetic_attestation_for xof [(None, Some made), (Some closed, None)]) (\<lambda>att.
         let transitions = [\<lparr>t_old = None, t_new = Some made\<rparr>,
                            \<lparr>t_old = Some closed, t_new = None\<rparr>]
         in expect (verify_slot_delta xof b3 att transitions)))"

definition empty_transition_rejected ::
  "(bytes \<Rightarrow> nat \<Rightarrow> bytes) \<Rightarrow> (bytes \<Rightarrow> bytes) \<Rightarrow> (unit, unit) outcome" where
  "empty_transition_rejected xof b3 =
     obind (synthetic_attestation_for xof []) (\<lambda>att.
     let transitions = [\<lparr>t_old = None, t_new = None\<rparr>]
     in obind (as_value (verify_slot_delta xof b3 att transitions)) (\<lambda>result.
        rust_assert (result = Inl EmptyTransition)))"

definition empty_slot_verifies ::
  "(bytes \<Rightarrow> nat \<Rightarrow> bytes) \<Rightarrow> (bytes \<Rightarrow> bytes) \<Rightarrow> (unit, unit) outcome" where
  "empty_slot_verifies xof b3 =
     obind (synthetic_attestation_for xof []) (\<lambda>att. expect (verify_slot_delta xof b3 att []))"

definition malformed_delta_rejected ::
  "(bytes \<Rightarrow> nat \<Rightarrow> bytes) \<Rightarrow> (bytes \<Rightarrow> bytes) \<Rightarrow> (unit, unit) outcome" where
  "malformed_delta_rejected xof b3 =
     obind (synthetic_attestation_for xof []) (\<lambda>att.
     let att = att\<lparr>att_delta_lthash := take (N_LIMBS div 2) (att_delta_lthash att)\<rparr>
     in obind (as_value (verify_slot_delta xof b3 att [])) (\<lambda>result.
        rust_assert (result = Inl MalformedDelta)))"

section \<open>They pass\<close>

lemma synthetic_attestation_for_eq:
  "synthetic_attestation_for xof ts = Ret
     \<lparr>att_slot = 42, att_fec_set_index = 0, att_leader_pubkey = replicate 32 0xaa,
      att_fec_merkle_root = replicate 32 0xbb, att_leader_sig = replicate 64 0xcc,
      att_delta_lthash = limbs (\<Sum>(old, new) \<leftarrow> ts. hash_opt xof new - hash_opt xof old)\<rparr>"
  using delta_sd_mix_all [of xof ts sd_new]
  by (simp add: synthetic_attestation_for_def sd_mix_all_def from_delta_Ret)

lemma tests_accept:
  "happy_path_complete_set_verifies xof b3 = Ret ()"
  "account_creation_and_closure_verify xof b3 = Ret ()"
  "empty_transition_rejected xof b3 = Ret ()"
  "empty_slot_verifies xof b3 = Ret ()"
  "malformed_delta_rejected xof b3 = Ret ()"
  by (simp_all add: happy_path_complete_set_verifies_def account_creation_and_closure_verify_def
      empty_transition_rejected_def empty_slot_verifies_def malformed_delta_rejected_def Let_def
      synthetic_attestation_for_eq verify_slot_delta_eq empty_transition_def transition_delta_def
      limbs_inject N_LIMBS_def)

lemma refusal_tests:
  "single_flipped_byte_fails xof b3 = Ret () \<longleftrightarrow>
     hash_account xof (acct 1 (bstr ''new-a'')) \<noteq> hash_account xof (acct 1 (bstr ''new-A''))"
  "spurious_extra_transition_fails xof b3 = Ret () \<longleftrightarrow>
     hash_account xof (acct 99 (bstr ''phantom-old'')) \<noteq> hash_account xof (acct 99 (bstr ''phantom-new''))"
  "missing_transition_fails xof b3 = Ret () \<longleftrightarrow>
     hash_account xof (acct 2 (bstr ''old-b'')) \<noteq> hash_account xof (acct 2 (bstr ''new-b''))"
  by (auto simp: single_flipped_byte_fails_def spurious_extra_transition_fails_def
      missing_transition_fails_def Let_def
      synthetic_attestation_for_eq verify_slot_delta_eq empty_transition_def transition_delta_def
      limbs_inject)

definition hash_collision :: "(bytes \<Rightarrow> nat \<Rightarrow> bytes) \<Rightarrow> account_for_hash \<Rightarrow> account_for_hash \<Rightarrow> bool" where
  "hash_collision xof a b \<longleftrightarrow> account_bytes a \<noteq> account_bytes b
     \<and> xof (account_bytes a) BYTES_PER_HASH = xof (account_bytes b) BYTES_PER_HASH"

lemma acct_hash_eqD:
  "xof_ok xof \<Longrightarrow> hash_account xof (acct s d) = hash_account xof (acct s' d') \<Longrightarrow> s \<noteq> s' \<or> d \<noteq> d'
     \<Longrightarrow> hash_collision xof (acct s d) (acct s' d')"
  unfolding hash_collision_def by (rule hash_account_eqD) auto

lemma tests_refuse:
  assumes "xof_ok xof"
  shows "single_flipped_byte_fails xof b3 = Ret () \<or>
           hash_collision xof (acct 1 (bstr ''new-a'')) (acct 1 (bstr ''new-A''))"
    and "spurious_extra_transition_fails xof b3 = Ret () \<or>
           hash_collision xof (acct 99 (bstr ''phantom-old'')) (acct 99 (bstr ''phantom-new''))"
    and "missing_transition_fails xof b3 = Ret () \<or>
           hash_collision xof (acct 2 (bstr ''old-b'')) (acct 2 (bstr ''new-b''))"
  by (auto simp: refusal_tests intro!: acct_hash_eqD [OF assms])

end
