(* ===== verification/Tests_Liq.thy ===== *)
theory Tests_Liq
  imports Rust_Test Liq_Ix
begin

text \<open>
  The tests of \<open>crates/liquidator/src/ix.rs\<close>. The keys that \<open>Pubkey::new_unique\<close> returns are arguments,
  so a test passes for all of them.
\<close>

fun is_oracle :: "'pk remaining_account \<Rightarrow> bool" where
  "is_oracle (Oracle _) = True"
| "is_oracle _ = False"

fun is_spot :: "'pk remaining_account \<Rightarrow> bool" where
  "is_spot (Spot _ _) = True"
| "is_spot _ = False"

fun is_perp :: "'pk remaining_account \<Rightarrow> bool" where
  "is_perp (Perp _ _) = True"
| "is_perp _ = False"

fun is_writable_perp :: "'pk remaining_account \<Rightarrow> bool" where
  "is_writable_perp (Perp _ w) = w"
| "is_writable_perp _ = False"

definition discriminator_matches_idl :: "(unit, unit) outcome" where
  "discriminator_matches_idl =
     rust_assert (LIQUIDATE_PERP_DISCRIMINATOR = [75, 35, 119, 247, 191, 18, 139, 2])"

definition state_pda_is_deterministic :: "'pk sdk_api \<Rightarrow> (unit, unit) outcome" where
  "state_pda_is_deterministic sdk =
     (let a = state_pda sdk; b = state_pda sdk in rust_assert (a = b))"

definition ordering_is_oracles_then_spots_then_perps ::
  "'pk::linorder \<Rightarrow> 'pk \<Rightarrow> 'pk \<Rightarrow> (unit, unit) outcome" where
  "ordering_is_oracles_then_spots_then_perps p1 p2 p3 =
     (let s = [];
          s = bt_insert ra_cmp (Perp p1 True) s;
          s = bt_insert ra_cmp (Spot p2 False) s;
          s = bt_insert ra_cmp (Oracle p3) s;
          v = s
      in
      obind (rindex v 0) (\<lambda>x. obind (rust_assert (is_oracle x)) (\<lambda>_.
      obind (rindex v 1) (\<lambda>x. obind (rust_assert (is_spot x)) (\<lambda>_.
      obind (rindex v 2) (\<lambda>x. rust_assert (is_perp x)))))))"

definition writable_wins_over_readable :: "'pk::linorder \<Rightarrow> (unit, unit) outcome" where
  "writable_wins_over_readable pk =
     (let s = [];
          s = bt_insert ra_cmp (Perp pk True) s;
          s = bt_insert ra_cmp (Perp pk False) s;
          v = s
      in
      obind (rust_assert (length v = 1)) (\<lambda>_.
      obind (rindex v 0) (\<lambda>x. rust_assert (is_writable_perp x))))"

lemma ix_tests_pass:
  "discriminator_matches_idl = Ret ()"
  "state_pda_is_deterministic sdk = Ret ()"
  "ordering_is_oracles_then_spots_then_perps p1 p2 p3 = Ret ()"
  "writable_wins_over_readable p1 = Ret ()"
  by (simp_all add: discriminator_matches_idl_def state_pda_is_deterministic_def
      ordering_is_oracles_then_spots_then_perps_def writable_wins_over_readable_def
      LIQUIDATE_PERP_DISCRIMINATOR_def ra_cmp_def prim_cmp_def rindex_def)

end
