(* ===== verification/Tests_Shred.thy ===== *)
theory Tests_Shred
  imports Rust_Test Fec_Set
begin

text \<open>
  The tests of \<open>crates/shred/src/lib.rs\<close> and \<open>fec_set.rs\<close>. The first has a Merkle tree of its own, which is
  shown to be the one of the builder, root and proofs, for any leaves. \<open>key_of_seed\<close> stands for
  \<open>SigningKey::from_bytes\<close>.
\<close>

section \<open>The tree of the test\<close>

text \<open>\<open>slice::chunks\<close>: the last chunk may be shorter.\<close>

function chunks :: "nat \<Rightarrow> 'a list \<Rightarrow> 'a list list" where
  "chunks n xs = (if n = 0 \<or> xs = [] then [] else take n xs # chunks n (drop n xs))"
  by pat_completeness auto
termination
  by (relation "measure (\<lambda>(n, xs). length xs)") auto

declare chunks.simps [simp del]

text \<open>The body of the \<open>while\<close> loop that \<open>build_root\<close> and \<open>build_proof\<close> share: one layer from the one below.\<close>

definition chunk_hash :: "(bytes \<Rightarrow> bytes) \<Rightarrow> bytes list \<Rightarrow> bytes" where
  "chunk_hash sha chunk =
     (let a = chunk ! 0; b = if length chunk = 2 then chunk ! 1 else chunk ! 0
      in sha (MERKLE_HASH_PREFIX_NODE @ take SIZE_OF_PROOF_ENTRY a @ take SIZE_OF_PROOF_ENTRY b))"

definition next_layer :: "(bytes \<Rightarrow> bytes) \<Rightarrow> bytes list \<Rightarrow> bytes list" where
  "next_layer sha layer = map (chunk_hash sha) (chunks 2 layer)"

lemma next_layer_eq: "next_layer sha layer = next_level sha layer"
proof (induction sha layer rule: next_level.induct)
  case (1 sha)
  show ?case by (simp add: next_layer_def chunks.simps)
next
  case (2 sha a)
  show ?case by (simp add: next_layer_def chunks.simps chunk_hash_def node_hash_def)
next
  case (3 sha a b rest)
  have "chunks 2 (a # b # rest) = [a, b] # chunks 2 rest" by (subst chunks.simps) simp
  with 3 show ?case by (simp add: next_layer_def chunk_hash_def node_hash_def)
qed

interpretation test_tree: merkle_ladder "next_layer sha" "node_hash sha" for sha
  using tree.merkle_ladder_axioms by (simp add: next_layer_eq [abs_def])

function root_loop :: "(bytes \<Rightarrow> bytes) \<Rightarrow> bytes list \<Rightarrow> bytes list" where
  "root_loop sha layer = (if 1 < length layer then root_loop sha (next_layer sha layer) else layer)"
  by pat_completeness auto
termination
  by (relation "measure (\<lambda>(sha, layer). length layer)") (auto intro: test_tree.up_shorter)

definition build_root :: "(bytes \<Rightarrow> bytes) \<Rightarrow> bytes list \<Rightarrow> ('e, bytes) outcome" where
  "build_root sha leaves = rindex (root_loop sha leaves) 0"

function proof_layers :: "(bytes \<Rightarrow> bytes) \<Rightarrow> bytes list \<Rightarrow> nat \<Rightarrow> bytes \<Rightarrow> bytes" where
  "proof_layers sha layer idx out =
     (if 1 < length layer then
        let sibling = idx XOR 1;
            s = if sibling < length layer then layer ! sibling else layer ! (length layer - 1)
        in proof_layers sha (next_layer sha layer) (drop_bit 1 idx) (out @ take SIZE_OF_PROOF_ENTRY s)
      else out)"
  by pat_completeness auto
termination
  by (relation "measure (\<lambda>(sha, layer, idx, out). length layer)") (auto intro: test_tree.up_shorter)

definition build_proof :: "(bytes \<Rightarrow> bytes) \<Rightarrow> bytes list \<Rightarrow> nat \<Rightarrow> bytes" where
  "build_proof sha leaves target = proof_layers sha leaves target []"

declare root_loop.simps [simp del] proof_layers.simps [simp del]

lemma root_loop_eq: "root_loop sha layer = last (build_levels sha layer)"
proof (induction sha layer rule: root_loop.induct)
  case (1 sha layer)
  then show ?case
    by (cases "1 < length layer")
      (simp_all add: root_loop.simps [of sha layer] build_levels.simps [of sha layer]
        build_levels_nonempty next_layer_eq)
qed

lemma proof_layers_step:
  "proof_layers sha layer idx out =
     (if 1 < length layer
      then proof_layers sha (next_level sha layer) (idx div 2) (out @ take 20 (sibling layer idx)) else out)"
  by (simp add: proof_layers.simps [of sha layer] sibling_def next_layer_eq drop_bit_Suc Let_def
      del: xor_one_nat)

lemma proof_layers_eq: "proof_layers sha layer idx out = out @ proof_loop (build_levels sha layer) idx"
proof (induction sha layer arbitrary: idx out rule: build_levels.induct)
  case (1 sha layer)
  then show ?case
    by (subst proof_layers_step) (simp add: build_levels.simps [of sha layer])
qed

lemma test_tree_eq:
  "leaves \<noteq> [] \<Longrightarrow> build_root sha leaves = Ret (last (build_levels sha leaves) ! 0)"
  "build_proof sha leaves i = proof_loop (build_levels sha leaves) i"
  using build_tree_Ret [of leaves sha, where ?'a = unit]
  by (auto simp: build_root_def root_loop_eq build_tree_def build_proof_def proof_layers_eq rindex_def
      Let_def split: if_splits)

section \<open>The tests\<close>

definition test_leaf :: "(bytes \<Rightarrow> bytes) \<Rightarrow> nat \<Rightarrow> bytes" where
  "test_leaf sha i = sha (bstr ''lattica-test-leaf'' @ to_le_bytes (word_of_nat i :: u32))"

definition synthetic_fec_round_trip ::
  "(bytes \<Rightarrow> bytes) \<Rightarrow> ed_api \<Rightarrow> 'k signer_api \<Rightarrow> (bytes \<Rightarrow> 'k) \<Rightarrow> (unit, unit) outcome" where
  "synthetic_fec_round_trip sha ed sg key_of_seed =
     (let signing = key_of_seed (replicate 32 7);
          leader_pk = sk_public sg signing;
          leaves = map (test_leaf sha) [0..<SHREDS_PER_FEC]
      in
      obind (build_root sha leaves) (\<lambda>root.
      let sig = sk_sign sg signing root in
      for_each [0..<SHREDS_PER_FEC] (\<lambda>i.
        let proof' = build_proof sha leaves i in
        obind (rindex leaves i) (\<lambda>leaf.
        obind (expect (compute_merkle_root sha i leaf proof')) (\<lambda>r.
        obind (rust_assert (r = root)) (\<lambda>_.
        obind (rust_assert (pk_ok ed leader_pk)) (\<lambda>_.
          rust_assert (ed_verify ed leader_pk root sig))))))))"

lemma synthetic_fec_round_trip_passes:
  assumes "sha_ok sha" and "signer_ok sg ed (key_of_seed (replicate 32 7))"
  shows "synthetic_fec_round_trip sha ed sg key_of_seed = Ret ()"
proof -
  let ?leaves = "map (test_leaf sha) [0..<64]"
  have len: "\<forall>n \<in> set ?leaves. 20 \<le> length n"
    using assms(1) by (auto simp: test_leaf_def sha_ok_def)
  have "compute_merkle_root sha i (test_leaf sha i) (build_proof sha ?leaves i)
      = Ret (last (build_levels sha ?leaves) ! 0)" if "i < 64" for i
    using climb_to_root [OF assms(1) _ len, of i] that
    by (simp add: compute_merkle_root_Ret_iff test_tree_eq)
  then show ?thesis
    using assms(2)
    by (auto simp: synthetic_fec_round_trip_def test_tree_eq Let_def outcome_simps signer_ok_def)
qed

definition round_trip_params :: "'k \<Rightarrow> 'k fec_set_params" where
  "round_trip_params signing =
     \<lparr>fp_slot = 12345678, fp_fec_set_index = 0, fp_version = 5, fp_parent_offset = 1,
      fp_flags = 0x40, fp_chained_root = replicate 32 0, fp_signing_key = signing\<rparr>"

text \<open>The body of its loop.\<close>

definition check_built_shred ::
  "(bytes \<Rightarrow> bytes) \<Rightarrow> ed_api \<Rightarrow> bool \<Rightarrow> bytes \<Rightarrow> 'k fec_set_params \<Rightarrow> bytes \<Rightarrow> bytes \<Rightarrow> (unit, unit) outcome" where
  "check_built_shred sha ed oc leader_pk params root raw =
     obind (expect (parse_shred oc raw)) (\<lambda>parsed.
     obind (rust_assert (hdr_slot (header parsed) = fp_slot params)) (\<lambda>_.
     obind (rust_assert (hdr_fec_set_index (header parsed) = fp_fec_set_index params)) (\<lambda>_.
     obind (expect (verify_shred sha ed oc raw leader_pk)) (\<lambda>v.
       rust_assert (v_merkle_root v = root)))))"

definition fec_set_round_trips_through_verify_shred ::
  "(bytes \<Rightarrow> bytes) \<Rightarrow> ed_api \<Rightarrow> 'r rs_api \<Rightarrow> 'k signer_api \<Rightarrow> bool \<Rightarrow> (bytes \<Rightarrow> 'k) \<Rightarrow> (unit, unit) outcome" where
  "fec_set_round_trips_through_verify_shred sha ed rs sg oc key_of_seed =
     (let signing = key_of_seed (replicate 32 42);
          leader_pk = sk_public sg signing;
          payload = counting_payload 4000;
          params = round_trip_params signing
      in
      obind (expect (build_fec_set sha rs sg oc payload params)) (\<lambda>fec.
      obind (rust_assert (length (shreds fec) = SHREDS_PER_FEC)) (\<lambda>_.
        for_each (shreds fec) (check_built_shred sha ed oc leader_pk params (fs_merkle_root fec)))))"

lemma check_built_shred_passes:
  assumes v: "verify_shred sha ed oc raw pk = Ret (built_shred ps root i)"
  shows "check_built_shred sha ed oc pk ps root raw = Ret ()"
proof -
  obtain p where p: "parse_shred oc raw = Ret p" using v by (auto simp: verify_shred_Ret_iff)
  note w = verify_shred_parsed [OF v p, unfolded verified_of_def]
  from p v arg_cong [OF w, of v_slot] arg_cong [OF w, of v_fec_set_index] show ?thesis
    by (simp add: check_built_shred_def built_shred_def)
qed

lemma fec_set_round_trip_passes:
  assumes "sha_ok sha" and "rs_ok rs" and "signer_ok sg ed (key_of_seed (replicate 32 42))"
  shows "fec_set_round_trips_through_verify_shred sha ed rs sg oc key_of_seed = Ret ()"
proof -
  let ?ps = "round_trip_params (key_of_seed (replicate 32 42))"
  obtain fs where fs: "build_fec_set sha rs sg oc (counting_payload 4000) ?ps = Ret fs"
      "length (shreds fs) = 64" "leader_pubkey fs = sk_public sg (key_of_seed (replicate 32 42))"
    and v: "\<forall>i < 64. verify_shred sha ed oc (shreds fs ! i) (leader_pubkey fs)
          = Ret (built_shred ?ps (fs_merkle_root fs) i)"
    using build_verifies [OF assms(1,2), of sg ed ?ps oc "counting_payload 4000"] assms(3)
    by (auto simp: round_trip_params_def no_overflow_def)
  from v have "for_each (shreds fs) (check_built_shred sha ed oc (leader_pubkey fs) ?ps (fs_merkle_root fs)) = Ret ()"
    by (intro for_each_pass) (metis check_built_shred_passes fs(2) in_set_conv_nth)
  then show ?thesis
    by (simp add: fec_set_round_trips_through_verify_shred_def Let_def fs)
qed

definition erasure_regions_have_equal_size :: "(unit, unit) outcome" where
  "erasure_regions_have_equal_size =
     obind (rust_assert (DATA_BUF_END - SIZE_OF_SIGNATURE = ERASURE_SHARD_SIZE)) (\<lambda>_.
       rust_assert (ERASURE_BUF_END - ERASURE_BUF = ERASURE_SHARD_SIZE))"

lemma erasure_regions_test_passes: "erasure_regions_have_equal_size = Ret ()"
  by (simp add: erasure_regions_have_equal_size_def)

section \<open>Properties\<close>

text \<open>
  C27: The tree of the builder is the tree of the reference. For any non-empty list of leaves, full or not,
  \<open>build_tree\<close> returns the root that \<open>build_root\<close> of the tests computes and \<open>merkle_proof\<close> emits for every
  index the proof that \<open>build_proof\<close> computes; and if leaves and hashes have 32 bytes, the root that
  \<open>compute_merkle_root\<close> rebuilds from a leaf and its proof is that root.
\<close>

theorem reference_tree_agrees:
  assumes "leaves \<noteq> []"
  shows "\<exists>t. build_tree sha leaves = (Ret t :: (shred_error, tree) outcome)
     \<and> build_root sha leaves = (Ret (tree_root t) :: (shred_error, bytes) outcome)
     \<and> (\<forall>i. build_proof sha leaves i = merkle_proof t i)
     \<and> (sha_ok sha \<and> (\<forall>n \<in> set leaves. length n = 32) \<longrightarrow>
          (\<forall>i < length leaves. compute_merkle_root sha i (leaves ! i) (merkle_proof t i) = Ret (tree_root t)))"
proof (intro exI conjI)
  let ?t = "\<lparr>levels = build_levels sha leaves, tree_root = last (build_levels sha leaves) ! 0\<rparr>"
  show "build_tree sha leaves = Ret ?t" by (rule build_tree_Ret [OF assms])
  show "build_root sha leaves = Ret (tree_root ?t)" by (simp add: test_tree_eq assms)
  show "\<forall>i. build_proof sha leaves i = merkle_proof ?t i" by (simp add: test_tree_eq merkle_proof_def)
  show "sha_ok sha \<and> (\<forall>n \<in> set leaves. length n = 32) \<longrightarrow>
      (\<forall>i < length leaves. compute_merkle_root sha i (leaves ! i) (merkle_proof ?t i) = Ret (tree_root ?t))"
  proof (intro impI allI; elim conjE)
    fix i assume sha: "sha_ok sha" and i: "i < length leaves" and "\<forall>n \<in> set leaves. length n = 32"
    then have "\<forall>n \<in> set leaves. 20 \<le> length n" by simp
    from climb_to_root [OF sha i this]
    show "compute_merkle_root sha i (leaves ! i) (merkle_proof ?t i) = Ret (tree_root ?t)"
      by (simp add: merkle_proof_def compute_merkle_root_Ret_iff)
  qed
qed

theorem reference_tree_agrees_witness:
  "\<exists>t. build_tree zero_sha [replicate 32 1, replicate 32 2, replicate 32 3] = (Ret t :: (shred_error, tree) outcome)
     \<and> build_root zero_sha [replicate 32 1, replicate 32 2, replicate 32 3]
         = (Ret (tree_root t) :: (shred_error, bytes) outcome)
     \<and> build_proof zero_sha [replicate 32 1, replicate 32 2, replicate 32 3] 2 = merkle_proof t 2
     \<and> compute_merkle_root zero_sha 2 (replicate 32 3) (merkle_proof t 2) = Ret (tree_root t)"
proof -
  let ?ls = "[replicate 32 1, replicate 32 2, replicate 32 3] :: bytes list"
  have "?ls \<noteq> []" by simp
  from reference_tree_agrees [OF this, of zero_sha] obtain t where
    "build_tree zero_sha ?ls = (Ret t :: (shred_error, tree) outcome)"
    "build_root zero_sha ?ls = (Ret (tree_root t) :: (shred_error, bytes) outcome)"
    "\<forall>i. build_proof zero_sha ?ls i = merkle_proof t i"
    "\<forall>i < length ?ls. compute_merkle_root zero_sha i (?ls ! i) (merkle_proof t i) = Ret (tree_root t)" by auto
  from this(1-3) this(4) [rule_format, of 2] show ?thesis by (intro exI [of _ t]) simp
qed

end
