(* ===== verification/Tests_Rs.thy ===== *)
theory Tests_Rs
  imports Rust_Test Shred_Wire Rs_Code
begin

text \<open>
  The test of \<open>crates/reedsol/src/lib.rs\<close>: 64 shards of 1024 bytes, 32 of them dropped, are reconstructed.
  It passes with any codec that recovers what it encoded, and \<open>gf_rs\<close> is one. The crate has constants of its
  own for 32, 32 and 64, with the names and values of those of \<open>shred\<close>.
\<close>

definition test_shard :: "nat \<Rightarrow> bytes" where
  "test_shard i = map (\<lambda>j. word_of_nat ((i * 31 + j) AND 0xff)) [0..<1024]"

definition fill_shards :: "bytes list \<Rightarrow> bytes option list \<Rightarrow> (unit, bytes option list) outcome" where
  "fill_shards originals = ofold (\<lambda>(i, s). update_at i (\<lambda>_. Ret (Some s))) (enumerate 0 originals)"

definition drop_shards :: "nat list \<Rightarrow> bytes option list \<Rightarrow> (unit, bytes option list) outcome" where
  "drop_shards = ofold (\<lambda>i. update_at i (\<lambda>_. Ret None))"

definition rs_round_trip_recovers_from_any_32 :: "'r rs_api \<Rightarrow> (unit, unit) outcome" where
  "rs_round_trip_recovers_from_any_32 rs =
     (let datas = map test_shard [0..<DATA_SHREDS_PER_FEC];
          parity = replicate CODING_SHREDS_PER_FEC (replicate 1024 0)
      in
      obind (expect (rs_new rs DATA_SHREDS_PER_FEC CODING_SHREDS_PER_FEC)) (\<lambda>r.
      obind (expect (rs_encode_sep rs r datas parity)) (\<lambda>parity.
      let originals = datas @ parity in
      obind (fill_shards originals (replicate SHREDS_PER_FEC None)) (\<lambda>shards.
      obind (drop_shards [0..<16] shards) (\<lambda>shards.
      obind (drop_shards [DATA_SHREDS_PER_FEC..<DATA_SHREDS_PER_FEC + 16] shards) (\<lambda>shards.
      obind (expect (reconstruct rs shards)) (\<lambda>shards.
        for_each (zip originals shards) (\<lambda>(orig, recovered).
          obind (unwrap recovered) (\<lambda>b. rust_assert (orig = b))))))))))"

lemma fill_shards_eq:
  "fill_shards ys (replicate (length ys) None) = Ret (map Some ys)"
proof -
  have "ofold (\<lambda>(i, s). update_at i (\<lambda>_. Ret (Some s))) (enumerate (length xs) ys)
      (map Some xs @ replicate (length ys) None) = (Ret (map Some (xs @ ys)) :: (unit, bytes option list) outcome)" for xs
  proof (induction ys arbitrary: xs)
    case (Cons y ys)
    from Cons.IH [of "xs @ [y]"] show ?case
      by (simp add: update_at_def rindex_def nth_append list_update_append)
  qed simp
  from this [of "[]"] show ?thesis by (simp add: fill_shards_def)
qed

lemma drop_shards_eq:
  "\<forall>i \<in> set is. i < length xs \<Longrightarrow>
     drop_shards is xs = Ret (map (\<lambda>i. if i \<in> set is then None else xs ! i) [0..<length xs])"
proof (induction "is" arbitrary: xs)
  case Nil
  then show ?case by (simp add: drop_shards_def map_nth)
next
  case (Cons i js)
  then have "drop_shards js (xs[i := None])
      = Ret (map (\<lambda>j. if j \<in> set js then None else xs[i := None] ! j) [0..<length xs])" by simp
  also have "map (\<lambda>j. if j \<in> set js then None else xs[i := None] ! j) [0..<length xs]
      = map (\<lambda>j. if j \<in> set (i # js) then None else xs ! j) [0..<length xs]"
    by (rule map_cong) (auto simp: nth_list_update)
  finally show ?case using Cons.prems by (simp add: drop_shards_def update_at_def rindex_def)
qed

lemma compare_same:
  "for_each (zip ys (map Some ys)) (\<lambda>(orig, recovered). obind (unwrap recovered) (\<lambda>b. rust_assert (orig = b))) = Ret ()"
  by (rule for_each_pass) (auto simp: zip_map2 zip_same_conv_map)

lemma rs_test_passes:
  assumes "rs_ok rs" and rec: "rs_recovers rs"
  shows "rs_round_trip_recovers_from_any_32 rs = Ret ()"
proof -
  let ?ds = "map test_shard [0..<32]" and ?zs = "replicate 32 (replicate 1024 0) :: bytes list"
  have size: "same_size 1024 ?ds" "same_size 1024 ?zs" by (auto simp: same_size_def test_shard_def)
  obtain r qs where r: "rs_new rs 32 32 = Ret r" and enc: "rs_encode_sep rs r ?ds ?zs = Ret qs"
    and qs: "length qs = 32"
    using rs_ok_encodes [OF assms(1) _ _ _ size] by auto
  let ?os = "?ds @ qs"
  define xs where "xs = map (\<lambda>i. if i \<in> {0..<16} \<union> {32..<48} then None else Some (?os ! i)) [0..<64]"
  have fill: "fill_shards ?os (replicate 64 None) = Ret (map Some ?os)"
    using fill_shards_eq [of ?os] qs by simp
  have "obind (drop_shards [0..<16] (map Some ?os)) (drop_shards [32..<48]) = Ret xs"
    using qs by (subst drop_shards_eq) (auto simp: drop_shards_eq xs_def nth_append simp del: upt_rec_numeral)
  then obtain ys where "drop_shards [0..<16] (map Some ?os) = Ret ys" "drop_shards [32..<48] ys = Ret xs"
    by (auto simp only: obind_eq_Ret)
  moreover have "rs_reconstruct rs r xs = Ret (map Some ?os)"
  proof -
    have "filter (\<lambda>i. xs ! i \<noteq> None) [0..<64] = filter (\<lambda>i. i \<notin> {0..<16} \<union> {32..<48}) [0..<64]"
      by (rule filter_cong) (auto simp: xs_def)
    then have "length (present xs) = length (filter (\<lambda>i. i \<notin> {0..<16} \<union> {32..<48}) [0..<64::nat])"
      by (simp add: length_present xs_def)
    also have "\<dots> = 32" by code_simp
    finally show ?thesis
      using rec [unfolded rs_recovers_def, rule_format, of r 1024 ?ds ?zs qs xs] r enc size by (simp add: xs_def)
  qed
  ultimately show ?thesis
    using r enc fill compare_same [of ?os] by (simp add: rs_round_trip_recovers_from_any_32_def reconstruct_def Let_def obind_assoc)
qed

end
