(* ===== verification/Tests_Listener.thy ===== *)
theory Tests_Listener
  imports Tests_Shred Arrival_Props Das Udp_Listener
begin

text \<open>
  The tests of \<open>crates/listener/src\<close> (\<open>lib.rs\<close>, \<open>leader.rs\<close>, \<open>udp.rs\<close>). The sets are built and fed to the
  assembler as in the sources; \<open>env\<close> holds the hash, the signature scheme, the codec and the profile, its
  resolver is the static one. They pass by the characterisation of the reports in \<open>Arrival_Props\<close>.
\<close>

section \<open>Setting\<close>

definition test_world :: "('r, bytes) listener_env \<Rightarrow> 'k signer_api \<Rightarrow> bool" where
  "test_world env sg \<longleftrightarrow> sha_ok (le_sha env) \<and> rs_ok (le_rs env) \<and> rs_total (le_rs env)
     \<and> (\<forall>k. signer_ok sg (le_ed env) k) \<and> le_resolve env = static_leader"

definition static_leader_resolves :: "(unit, unit) outcome" where
  "static_leader_resolves =
     (let pk = replicate 32 0x11; r = pk in
      obind (static_leader r 0) (\<lambda>(r, a). obind (rust_assert (a = Some pk)) (\<lambda>_.
      obind (static_leader r (-1)) (\<lambda>(r, a). rust_assert (a = Some pk)))))"

definition test_params :: "u64 \<Rightarrow> u32 \<Rightarrow> byte \<Rightarrow> 'k \<Rightarrow> 'k fec_set_params" where
  "test_params slot fec_set_index flags signing =
     \<lparr>fp_slot = slot, fp_fec_set_index = fec_set_index, fp_version = 1, fp_parent_offset = 1,
      fp_flags = flags, fp_chained_root = replicate 32 0, fp_signing_key = signing\<rparr>"

text \<open>\<open>(0..(payload_len / 4) as u32).flat_map(|i| i.to_le_bytes()).collect()\<close>\<close>

definition test_payload :: "nat \<Rightarrow> bytes" where
  "test_payload payload_len = counting_payload (unat (word_of_nat (payload_len div 4) :: u32))"

definition build_test_set ::
  "('r, bytes) listener_env \<Rightarrow> 'k signer_api \<Rightarrow> (bytes \<Rightarrow> 'k) \<Rightarrow> nat \<Rightarrow> (unit, bytes list \<times> bytes \<times> bytes) outcome" where
  "build_test_set env sg key_of_seed payload_len =
     (let signing = key_of_seed (replicate 32 9);
          leader_pk = sk_public sg signing;
          payload = test_payload payload_len;
          params = test_params 1111 0 0 signing
      in obind (expect (build_fec_set (le_sha env) (le_rs env) sg (le_oc env) payload params)) (\<lambda>fec.
           Ret (shreds fec, fs_merkle_root fec, leader_pk)))"

definition build_set_at ::
  "('r, bytes) listener_env \<Rightarrow> 'k signer_api \<Rightarrow> 'k \<Rightarrow> u64 \<Rightarrow> u32 \<Rightarrow> nat \<Rightarrow> bool
     \<Rightarrow> (unit, bytes list \<times> bytes) outcome" where
  "build_set_at env sg signing slot fec_set_index payload_len last_in_slot =
     (let payload = test_payload payload_len;
          flags = (if last_in_slot then SHRED_FLAG_DATA_COMPLETE OR SHRED_FLAG_LAST_IN_SLOT else 0);
          params = test_params slot fec_set_index flags signing
      in obind (expect (build_fec_set (le_sha env) (le_rs env) sg (le_oc env) payload params)) (\<lambda>fec.
           Ret (shreds fec, fs_merkle_root fec)))"

section \<open>Reconstruction\<close>

text \<open>
  The loop of the reconstruction tests: each shred of \<open>order\<close> is ingested, \<open>check\<close> is what is asserted of the
  root and confidence of a \<open>Reconstructed\<close> event, and the result is the flag \<open>reconstructed\<close>.
\<close>

definition watch ::
  "(bytes \<Rightarrow> f64 \<Rightarrow> (unit, unit) outcome) \<Rightarrow> fec_event list \<Rightarrow> bool \<Rightarrow> (unit, bool) outcome" where
  "watch check evs reconstructed =
     ofold (\<lambda>ev r. case ev of
         Reconstructed _ merkle_root das \<Rightarrow> obind (check merkle_root das) (\<lambda>_. Ret True)
       | _ \<Rightarrow> Ret r) evs reconstructed"

definition feed_set ::
  "('r, bytes) listener_env \<Rightarrow> (bytes \<Rightarrow> f64 \<Rightarrow> (unit, unit) outcome) \<Rightarrow> bytes list \<Rightarrow> nat list
     \<Rightarrow> bytes assembler \<Rightarrow> (unit, bool) outcome" where
  "feed_set env check raws order asm =
     obind (ofold (\<lambda>i (asm, reconstructed).
         obind (rindex raws i) (\<lambda>raw.
         obind (ingest env asm raw) (\<lambda>(asm, evs).
         obind (watch check evs reconstructed) (\<lambda>r. Ret (asm, r))))) order (asm, False))
       (\<lambda>(_, reconstructed). Ret reconstructed)"

definition assembler_recovers_from_32_data_shreds_only ::
  "('r, bytes) listener_env \<Rightarrow> 'k signer_api \<Rightarrow> (bytes \<Rightarrow> 'k) \<Rightarrow> (unit, unit) outcome" where
  "assembler_recovers_from_32_data_shreds_only env sg key_of_seed =
     obind (build_test_set env sg key_of_seed 8000) (\<lambda>(raws, root, leader_pk).
     obind (feed_set env (\<lambda>merkle_root das.
         obind (rust_assert (merkle_root = root)) (\<lambda>_. rust_assert (1 \<le> das)))
       raws [0..<32] (assembler_new leader_pk)) rust_assert)"

definition assembler_recovers_from_mixed_data_and_coding ::
  "('r, bytes) listener_env \<Rightarrow> 'k signer_api \<Rightarrow> (bytes \<Rightarrow> 'k) \<Rightarrow> (unit, unit) outcome" where
  "assembler_recovers_from_mixed_data_and_coding env sg key_of_seed =
     obind (build_test_set env sg key_of_seed 8000) (\<lambda>(raws, root, leader_pk).
     let order = [16..<32] @ [32..<48] in
     obind (feed_set env (\<lambda>merkle_root das. rust_assert (merkle_root = root))
       raws order (assembler_new leader_pk)) rust_assert)"

text \<open>\<open>matches!(e, FecEvent::Rejected \<dots>)\<close>\<close>

fun is_rejected :: "fec_event \<Rightarrow> bool" where
  "is_rejected (Rejected _) = True"
| "is_rejected _ = False"

definition assembler_rejects_wrong_leader ::
  "('r, bytes) listener_env \<Rightarrow> 'k signer_api \<Rightarrow> (bytes \<Rightarrow> 'k) \<Rightarrow> (unit, unit) outcome" where
  "assembler_rejects_wrong_leader env sg key_of_seed =
     obind (build_test_set env sg key_of_seed 2000) (\<lambda>(raws, _, _).
     let wrong_pk = sk_public sg (key_of_seed (replicate 32 1)) in
     obind (rindex raws 0) (\<lambda>raw.
     obind (ingest env (assembler_new wrong_pk) raw) (\<lambda>(_, events).
       rust_assert (list_ex is_rejected events))))"

definition assembler_does_not_reconstruct_at_31 ::
  "('r, bytes) listener_env \<Rightarrow> 'k signer_api \<Rightarrow> (bytes \<Rightarrow> 'k) \<Rightarrow> (unit, unit) outcome" where
  "assembler_does_not_reconstruct_at_31 env sg key_of_seed =
     obind (build_test_set env sg key_of_seed 4000) (\<lambda>(raws, root, leader_pk).
     obind (feed_set env (\<lambda>_ _. Ret ()) raws [0..<31] (assembler_new leader_pk)) (\<lambda>reconstructed.
     obind (rust_assert (\<not> reconstructed)) (\<lambda>_.
       rust_assert (das_confidence 8 < 1))))"

definition das_confidence_table :: "(unit, unit) outcome" where
  "das_confidence_table =
     obind (rust_assert (\<bar>f64_sub (das_confidence 0) 0\<bar> < f64_round (1 / 10 ^ 12))) (\<lambda>_.
     obind (rust_assert (f64_round (99999 / 100000) < das_confidence 20)) (\<lambda>_.
     obind (rust_assert (das_confidence 32 = 1)) (\<lambda>_.
     let c10 = das_confidence 10 in
       rust_assert (f64_round (99 / 100) < c10 \<and> c10 < 1))))"

section \<open>Slots\<close>

fun is_slot_finalized :: "fec_event \<Rightarrow> bool" where
  "is_slot_finalized (SlotFinalized _ _ _ _ _) = True"
| "is_slot_finalized _ = False"

definition collect_slot_finalized :: "fec_event list \<Rightarrow> fec_event option" where
  "collect_slot_finalized events = List.find is_slot_finalized events"

definition slot_finalizes_when_all_sets_done ::
  "('r, bytes) listener_env \<Rightarrow> 'k signer_api \<Rightarrow> (bytes \<Rightarrow> 'k) \<Rightarrow> (unit, unit) outcome" where
  "slot_finalizes_when_all_sets_done env sg key_of_seed =
     (let signing = key_of_seed (replicate 32 5); leader_pk = sk_public sg signing in
      obind (build_set_at env sg signing 222 0 4000 False) (\<lambda>(set0, root0).
      obind (build_set_at env sg signing 222 32 4000 True) (\<lambda>(set1, root1).
      obind (ingest_all env (take 32 set0 @ take 32 set1) (assembler_new leader_pk)) (\<lambda>(_, all_events).
      obind (unwrap (collect_slot_finalized all_events)) (\<lambda>final_ev.
      case final_ev of
        SlotFinalized slot fec_roots slot_root total_shreds_observed slot_das_confidence \<Rightarrow>
          obind (rust_assert (slot = 222)) (\<lambda>_.
          obind (rust_assert (length fec_roots = 2)) (\<lambda>_.
          obind (rindex fec_roots 0) (\<lambda>r. obind (rust_assert (r = root0)) (\<lambda>_.
          obind (rindex fec_roots 1) (\<lambda>r. obind (rust_assert (r = root1)) (\<lambda>_.
          obind (rust_assert (total_shreds_observed = 64)) (\<lambda>_.
          obind (rust_assert (f64_round (999999 / 1000000) < slot_das_confidence)) (\<lambda>_.
          let recomputed = aggregate_root (le_sha env) [root0, root1] in
            rust_assert (slot_root = recomputed)))))))))
      | _ \<Rightarrow> Panic)))))"

definition slot_does_not_finalize_without_last_marker ::
  "('r, bytes) listener_env \<Rightarrow> 'k signer_api \<Rightarrow> (bytes \<Rightarrow> 'k) \<Rightarrow> (unit, unit) outcome" where
  "slot_does_not_finalize_without_last_marker env sg key_of_seed =
     (let signing = key_of_seed (replicate 32 6); leader_pk = sk_public sg signing in
      obind (build_set_at env sg signing 333 0 2000 False) (\<lambda>(set0, _).
      obind (build_set_at env sg signing 333 32 2000 False) (\<lambda>(set1, _).
      obind (ingest_all env (take 32 set0 @ take 32 set1) (assembler_new leader_pk)) (\<lambda>(_, all_events).
        rust_assert (collect_slot_finalized all_events = None)))))"

definition slot_does_not_finalize_when_a_set_is_incomplete ::
  "('r, bytes) listener_env \<Rightarrow> 'k signer_api \<Rightarrow> (bytes \<Rightarrow> 'k) \<Rightarrow> (unit, unit) outcome" where
  "slot_does_not_finalize_when_a_set_is_incomplete env sg key_of_seed =
     (let signing = key_of_seed (replicate 32 7); leader_pk = sk_public sg signing in
      obind (build_set_at env sg signing 444 0 2000 False) (\<lambda>(set0, _).
      obind (build_set_at env sg signing 444 32 2000 True) (\<lambda>(set1, _).
      obind (ingest_all env (take 32 set0) (assembler_new leader_pk)) (\<lambda>(asm, events0).
      obind (ingest_all env (take 31 set1) asm) (\<lambda>(_, events1).
        rust_assert (collect_slot_finalized (events0 @ events1) = None))))))"

definition slot_finalizes_idempotently ::
  "('r, bytes) listener_env \<Rightarrow> 'k signer_api \<Rightarrow> (bytes \<Rightarrow> 'k) \<Rightarrow> (unit, unit) outcome" where
  "slot_finalizes_idempotently env sg key_of_seed =
     (let signing = key_of_seed (replicate 32 8); leader_pk = sk_public sg signing in
      obind (build_set_at env sg signing 555 0 2000 True) (\<lambda>(set0, _).
      obind (ingest_all env set0 (assembler_new leader_pk)) (\<lambda>(_, all_events).
      let n_finalized = length (filter is_slot_finalized all_events) in
        rust_assert (n_finalized = 1))))"

section \<open>The runs of the tests\<close>

lemma length_test_payload: "length (test_payload n) \<le> n"
proof -
  have "unat (word_of_nat (n div 4) :: u32) \<le> n div 4" by (simp add: unat_of_nat)
  then show ?thesis by (simp add: test_payload_def)
qed

lemma test_params_simps [simp]:
  "fp_slot (test_params slot i fl k) = slot" "fp_fec_set_index (test_params slot i fl k) = i"
  "fp_signing_key (test_params slot i fl k) = k" "length (fp_chained_root (test_params slot i fl k)) = 32"
  "fp_flags (test_params slot i fl k) = fl"
  "i \<in> {0, 32} \<Longrightarrow> no_overflow oc (test_params slot i fl k)"
  by (auto simp: test_params_def no_overflow_def)

lemma test_set_built:
  assumes "test_world env sg" and "i \<in> {0, 32}" and "n \<le> 30816"
  obtains fs where
    "build_fec_set (le_sha env) (le_rs env) sg (le_oc env) (test_payload n) (test_params slot i fl k) = Ret fs"
    "length (shreds fs) = 64"
proof -
  have "\<exists>fs. build_fec_set (le_sha env) (le_rs env) sg (le_oc env) (test_payload n) (test_params slot i fl k) = Ret fs
      \<and> length (shreds fs) = 64"
    using build_verifies [of "le_sha env" "le_rs env" sg "le_ed env" "test_params slot i fl k" "le_oc env" "test_payload n"]
      assms length_test_payload [of n] by (auto simp: test_world_def)
  then show ?thesis using that by blast
qed

definition test_builder :: "(fec_key \<Rightarrow> bytes) \<Rightarrow> (fec_key \<Rightarrow> byte) \<Rightarrow> 'k \<Rightarrow> (fec_key \<Rightarrow> fec_set) \<Rightarrow> 'k leader_builder" where
  "test_builder pl fl k fs =
     \<lparr>lb_payload = pl, lb_params = (\<lambda>key. test_params (fk_slot key) (fk_index key) (fl key) k), lb_set = fs\<rparr>"

lemma test_run:
  assumes w: "test_world env sg"
    and built: "\<And>key. key \<in> keys \<Longrightarrow> fk_index key \<in> {0, 32} \<and>
      build_fec_set (le_sha env) (le_rs env) sg (le_oc env) (pl key)
        (test_params (fk_slot key) (fk_index key) (fl key) k) = Ret (fs key)"
    and h: "set h \<subseteq> keys \<times> {..<64}"
  obtains asm evs where
    "ingest_all env (map (\<lambda>(key, i). shreds (fs key) ! i) h) (assembler_new (sk_public sg k)) = Ret (asm, evs)"
    "\<And>key r c. Reconstructed key r c \<in> set evs \<longleftrightarrow> 32 \<le> card (arrived h key) \<and> r = fs_merkle_root (fs key) \<and> c = 1"
    "\<And>s rts r n c. SlotFinalized s rts r n c \<in> set evs \<longleftrightarrow>
       (\<exists>m. first_complete (sets_of (test_builder pl fl k fs)) h s m \<and> SlotFinalized s rts r n c
          = report_of (le_sha env) (sets_of (test_builder pl fl k fs)) (take m h) s)"
    "\<And>s. finalizations s evs \<le> 1"
proof -
  let ?lb = "test_builder pl fl k fs"
  have world: "sha_ok (le_sha env)" "rs_ok (le_rs env)" "rs_total (le_rs env)" "\<forall>k. signer_ok sg (le_ed env) k"
    and static: "le_resolve env = static_leader" using w by (simp_all add: test_world_def)
  have lb: "built_all env (le_rs env) sg (le_oc env) (\<lambda>_. k) ?lb keys"
    using built by (auto simp: built_all_def test_builder_def)
  from static_schedule.scheduled_resolver_axioms have
    "scheduled_resolver (le_resolve env) (\<lambda>s. s = sk_public sg k) (\<lambda>slot. sk_public sg k) UNIV"
    unfolding static .
  from built_arrivals_run [OF world(1,2,2,3) this refl _ _ lb h] world(4) obtain asm evs where
    run: "ingest_all env (datagrams (sets_of ?lb) h) (with_resolver (sk_public sg k)) = Ret (asm, evs)"
    and reps: "\<forall>key r c. Reconstructed key r c \<in> set evs \<longleftrightarrow>
          32 \<le> card (arrived h key) \<and> r = fs_merkle_root (lb_set ?lb key) \<and> c = 1"
      "\<forall>s rts r n c. SlotFinalized s rts r n c \<in> set evs \<longleftrightarrow>
       (\<exists>m. first_complete (sets_of ?lb) h s m \<and> SlotFinalized s rts r n c
          = report_of (le_sha env) (sets_of ?lb) (take m h) s)" by blast
  have raws: "datagrams (sets_of ?lb) h = map (\<lambda>(key, i). shreds (fs key) ! i) h"
    by (simp add: datagrams_def sets_of_def test_builder_def)
  have "finalizations s evs \<le> 1" for s using run_counts [OF run world(3), of undefined s] by simp
  moreover have "lb_set ?lb = fs" by (simp add: test_builder_def)
  ultimately show ?thesis
    using that [OF run [unfolded raws assembler_new_def [symmetric]]] reps by presburger
qed

text \<open>A slot that is reported had an arrival of a flagged shred.\<close>

lemma finalized_flagged:
  assumes "\<And>s rts r n c. SlotFinalized s rts r n c \<in> set evs \<longleftrightarrow>
      (\<exists>m. first_complete ls h s m \<and> SlotFinalized s rts r n c = report_of sha ls (take m h) s)"
    and "SlotFinalized s rts r n c \<in> set evs"
  obtains m where "complete ls (take m h) s" "set (flagged_sets ls h s) \<noteq> {}"
proof -
  from assms obtain m where m: "complete ls (take m h) s" by (auto simp: first_complete_def)
  then have "set (flagged_sets ls (take m h) s) \<noteq> {}" by (simp add: complete_iff)
  then have "set (flagged_sets ls h s) \<noteq> {}"
    by (auto simp: flagged_sets_def seen_sets_def dest: in_set_takeD)
  with m show ?thesis by (rule that)
qed

lemma slot_finalizedE:
  assumes "is_slot_finalized ev"
  obtains s rts r n c where "ev = SlotFinalized s rts r n c"
  using assms by (cases ev) auto

lemma collect_none: "collect_slot_finalized evs = None \<longleftrightarrow> (\<forall>s rts r n c. SlotFinalized s rts r n c \<notin> set evs)"
  by (auto simp: collect_slot_finalized_def find_None_iff elim: slot_finalizedE)

lemma collect_filter:
  "collect_slot_finalized evs = (case filter is_slot_finalized evs of [] \<Rightarrow> None | ev # _ \<Rightarrow> Some ev)"
  by (induction evs) (simp_all add: collect_slot_finalized_def)

lemma finalized_only:
  assumes "SlotFinalized slot rts r n c \<in> set evs" and "finalizations slot evs \<le> 1"
    and "\<And>s rts r n c. SlotFinalized s rts r n c \<in> set evs \<Longrightarrow> s = slot"
  shows "filter is_slot_finalized evs = [SlotFinalized slot rts r n c]"
proof -
  have "is_slot_finalized ev \<longleftrightarrow> (case ev of SlotFinalized s r t n c \<Rightarrow> s = slot | _ \<Rightarrow> False)" if "ev \<in> set evs" for ev
    using assms(3) that by (cases ev) auto
  then have "length (filter is_slot_finalized evs) \<le> 1"
    using assms(2) unfolding finalizations_def by (simp cong: filter_cong)
  moreover have "SlotFinalized slot rts r n c \<in> set (filter is_slot_finalized evs)" using assms(1) by simp
  ultimately show ?thesis
    by (cases "filter is_slot_finalized evs") auto
qed

section \<open>They pass\<close>

lemma watch_all:
  assumes "\<And>key r c. Reconstructed key r c \<in> set evs \<Longrightarrow> check r c = Ret ()"
  shows "watch check evs b = Ret (b \<or> (\<exists>key r c. Reconstructed key r c \<in> set evs))"
  using assms
proof (induction evs arbitrary: b)
  case Nil
  then show ?case by (simp add: watch_def)
next
  case (Cons ev evs)
  have IH: "watch check evs b = Ret (b \<or> (\<exists>key r c. Reconstructed key r c \<in> set evs))" for b
    using Cons by auto
  show ?case
  proof (cases "\<exists>key r c. ev = Reconstructed key r c")
    case True
    then obtain key r c where ev: "ev = Reconstructed key r c" by blast
    with Cons.prems [of key r c] have "check r c = Ret ()" by simp
    with IH [of True] show ?thesis unfolding ev watch_def by auto
  next
    case False
    then have "watch check (ev # evs) b = watch check evs b"
      by (cases ev) (auto simp: watch_def)
    with IH [of b] False show ?thesis by auto
  qed
qed

lemma feed_set_all:
  assumes "ingest_all env (map ((!) raws) order) asm = Ret (asm', evs)" and "set order \<subseteq> {..<length raws}"
    and "\<And>key r c. Reconstructed key r c \<in> set evs \<Longrightarrow> check r c = Ret ()"
  shows "feed_set env check raws order asm = Ret (\<exists>key r c. Reconstructed key r c \<in> set evs)"
proof -
  let ?step = "\<lambda>i (asm, b). obind (rindex raws i) (\<lambda>raw. obind (ingest env asm raw) (\<lambda>(asm, evs).
         obind (watch check evs b) (\<lambda>r. Ret (asm, r))))"
  have "ofold ?step order (asm, b) = Ret (asm', b \<or> (\<exists>key r c. Reconstructed key r c \<in> set evs))" for b
    using assms
  proof (induction order arbitrary: asm evs b)
    case (Cons i order)
    then obtain asm1 evs1 evs2 where i: "ingest env asm (raws ! i) = Ret (asm1, evs1)"
      and r: "ingest_all env (map ((!) raws) order) asm1 = Ret (asm', evs2)" and evs: "evs = evs1 @ evs2"
      by (auto simp: obind_eq_Ret)
    have "watch check evs1 b = Ret (b \<or> (\<exists>key r c. Reconstructed key r c \<in> set evs1))"
    proof (rule watch_all)
      show "check r c = Ret ()" if "Reconstructed key r c \<in> set evs1" for key r c
        using Cons.prems(3) [of key r c] that evs by simp
    qed
    moreover have "ofold ?step order (asm1, b') = Ret (asm', b' \<or> (\<exists>key r c. Reconstructed key r c \<in> set evs2))" for b'
    proof (rule Cons.IH [OF r])
      show "check r c = Ret ()" if "Reconstructed key r c \<in> set evs2" for key r c
        using Cons.prems(3) [of key r c] that evs by simp
    qed (use Cons.prems(2) in simp)
    ultimately show ?case using Cons.prems(2) i by (auto simp: outcome_simps evs)
  qed simp
  then show ?thesis by (simp add: feed_set_def)
qed
lemma arrived_pair [simp]: "arrived (map (Pair k) is) key = (if key = k then set is else {})"
  by (auto simp: arrived_iff)

lemma arrived_append [simp]: "arrived (h @ h') key = arrived h key \<union> arrived h' key"
  by (auto simp: arrived_iff)

lemma single_set_run:
  assumes "test_world env sg" and "i \<in> {0, 32}" and "set order \<subseteq> {..<64}"
    and "build_fec_set (le_sha env) (le_rs env) sg (le_oc env) (test_payload n) (test_params slot i fl k) = Ret fs"
  obtains asm evs where "ingest_all env (map ((!) (shreds fs)) order) (assembler_new (sk_public sg k)) = Ret (asm, evs)"
    "(\<exists>key r c. Reconstructed key r c \<in> set evs) \<longleftrightarrow> 32 \<le> card (set order)"
    "\<And>key r c. Reconstructed key r c \<in> set evs \<Longrightarrow> r = fs_merkle_root fs \<and> c = 1"
proof -
  have h: "set (map (Pair (fkey slot i)) order) \<subseteq> {fkey slot i} \<times> {..<64}" using assms(3) by auto
  obtain asm evs where
    run: "ingest_all env (map (\<lambda>(key, i). shreds fs ! i) (map (Pair (fkey slot i)) order)) (assembler_new (sk_public sg k))
        = Ret (asm, evs)"
    and r: "\<And>key r c. Reconstructed key r c \<in> set evs \<longleftrightarrow>
        32 \<le> card (arrived (map (Pair (fkey slot i)) order) key) \<and> r = fs_merkle_root fs \<and> c = 1"
    by (rule test_run [OF assms(1) _ h, where pl = "\<lambda>_. test_payload n" and fl = "\<lambda>_. fl" and fs = "\<lambda>_. fs" and k = k])
      (use assms(2,4) in auto)
  have "(\<exists>key r c. Reconstructed key r c \<in> set evs) \<longleftrightarrow> 32 \<le> card (set order)"
    unfolding r by (auto intro: exI [of _ "fkey slot i"])
  then show ?thesis using run r by (intro that) (auto simp: o_def)
qed

lemma feed_test_set:
  assumes "test_world env sg" and "set order \<subseteq> {..<64}" and "n \<le> 30816"
  obtains raws root where "build_test_set env sg key_of_seed n = Ret (raws, root, sk_public sg (key_of_seed (replicate 32 9)))"
    "\<And>check. check root 1 = Ret () \<Longrightarrow>
       feed_set env check raws order (assembler_new (sk_public sg (key_of_seed (replicate 32 9))))
         = Ret (32 \<le> card (set order))"
proof -
  let ?k = "key_of_seed (replicate 32 9)"
  obtain fs where fs: "build_fec_set (le_sha env) (le_rs env) sg (le_oc env) (test_payload n) (test_params 1111 0 0 ?k) = Ret fs"
    and len: "length (shreds fs) = 64"
    by (rule test_set_built [OF assms(1) _ assms(3), of 0]) auto
  obtain asm evs where run: "ingest_all env (map ((!) (shreds fs)) order) (assembler_new (sk_public sg ?k)) = Ret (asm, evs)"
    and r: "(\<exists>key r c. Reconstructed key r c \<in> set evs) \<longleftrightarrow> 32 \<le> card (set order)"
      "\<And>key r c. Reconstructed key r c \<in> set evs \<Longrightarrow> r = fs_merkle_root fs \<and> c = 1"
    by (rule single_set_run [OF assms(1) _ assms(2) fs]) auto
  show ?thesis
  proof (rule that [of "shreds fs" "fs_merkle_root fs"])
    show "build_test_set env sg key_of_seed n = Ret (shreds fs, fs_merkle_root fs, sk_public sg ?k)"
      by (simp add: build_test_set_def Let_def fs)
    show "feed_set env check (shreds fs) order (assembler_new (sk_public sg ?k)) = Ret (32 \<le> card (set order))"
      if "check (fs_merkle_root fs) 1 = Ret ()" for check
      using feed_set_all [OF run, of check] r assms(2) len that by auto
  qed
qed

lemma das_values:
  "1 / 10 ^ 3 \<le> undetected_ratio 8" "1 / 10 ^ 4 \<le> undetected_ratio 10"
  "undetected_ratio 10 \<le> 1 / 10 ^ 3" "undetected_ratio 20 \<le> 1 / 10 ^ 6"
  by code_simp+

lemma das_between:
  assumes "n \<le> 31"
  shows "1 - undetected_ratio n - 1 / 2 ^ 51 \<le> das_confidence n"
    and "das_confidence n \<le> 1 - undetected_ratio n + 1 / 2 ^ 51"
  using das_confidence_near [OF assms] unfolding abs_le_iff by linarith+

lemma das_8_below_1: "das_confidence 8 < 1"
proof -
  have "das_confidence 8 \<le> 1 - 1 / 10 ^ 3 + 1 / 2 ^ 51"
    using das_between(2) [of 8] das_values(1) by simp
  also have "\<dots> < 1" by simp
  finally show ?thesis .
qed

lemma das_confidence_table_passes: "das_confidence_table = Ret ()"
proof -
  have "das_confidence 0 = 0" by (simp add: das_confidence_def f64_sub_def)
  moreover have "0 < f64_round (1 / 10 ^ 12)"
    using f64_round_between(1) [of "1 / 10 ^ 12"] by (simp add: order.strict_trans2 [rotated])
  moreover have "f64_round (99999 / 100000) < das_confidence 20"
  proof -
    have "f64_round (99999 / 100000) \<le> 99999 / 100000 * (1 + 1 / 2 ^ 53)" by (rule f64_round_between) simp
    also have "\<dots> < 1 - 1 / 10 ^ 6 - 1 / 2 ^ 51" by simp
    also have "\<dots> \<le> das_confidence 20" using das_between(1) [of 20] das_values(4) by simp
    finally show ?thesis .
  qed
  moreover have "f64_round (99 / 100) < das_confidence 10"
  proof -
    have "f64_round (99 / 100) \<le> 99 / 100 * (1 + 1 / 2 ^ 53)" by (rule f64_round_between) simp
    also have "\<dots> < 1 - 1 / 10 ^ 3 - 1 / 2 ^ 51" by simp
    also have "\<dots> \<le> das_confidence 10" using das_between(1) [of 10] das_values(3) by simp
    finally show ?thesis .
  qed
  moreover have "das_confidence 10 < 1"
  proof -
    have "das_confidence 10 \<le> 1 - 1 / 10 ^ 4 + 1 / 2 ^ 51"
      using das_between(2) [of 10] das_values(2) by simp
    also have "\<dots> < 1" by simp
    finally show ?thesis .
  qed
  ultimately show ?thesis
    by (simp add: das_confidence_table_def das_confidence_one [of 32] f64_sub_def)
qed

lemma reconstruction_tests_pass:
  assumes "test_world env sg"
  shows "assembler_recovers_from_32_data_shreds_only env sg key_of_seed = Ret ()"
    and "assembler_recovers_from_mixed_data_and_coding env sg key_of_seed = Ret ()"
    and "assembler_does_not_reconstruct_at_31 env sg key_of_seed = Ret ()"
proof -
  show "assembler_recovers_from_32_data_shreds_only env sg key_of_seed = Ret ()"
    by (rule feed_test_set [OF assms, of "[0..<32]" 8000 key_of_seed])
      (auto simp: assembler_recovers_from_32_data_shreds_only_def)
  have "card ({16..<32} \<union> {32..<48 :: nat}) = 32" by (simp add: ivl_disj_un)
  then show "assembler_recovers_from_mixed_data_and_coding env sg key_of_seed = Ret ()"
    by (rule_tac feed_test_set [OF assms, of "[16..<32] @ [32..<48]" 8000 key_of_seed])
      (auto simp: assembler_recovers_from_mixed_data_and_coding_def)
  show "assembler_does_not_reconstruct_at_31 env sg key_of_seed = Ret ()"
    by (rule_tac feed_test_set [OF assms, of "[0..<31]" 4000 key_of_seed])
      (auto simp: assembler_does_not_reconstruct_at_31_def das_8_below_1)
qed
lemma set_at_built:
  assumes "test_world env sg" and "i \<in> {0, 32}" and "n \<le> 30816"
  obtains fs where "build_set_at env sg k slot i n l = Ret (shreds fs, fs_merkle_root fs)" "length (shreds fs) = 64"
    "build_fec_set (le_sha env) (le_rs env) sg (le_oc env) (test_payload n)
       (test_params slot i (if l then SHRED_FLAG_DATA_COMPLETE OR SHRED_FLAG_LAST_IN_SLOT else 0) k) = Ret fs"
  by (rule test_set_built [OF assms, where slot = slot and k = k
        and fl = "if l then SHRED_FLAG_DATA_COMPLETE OR SHRED_FLAG_LAST_IN_SLOT else 0"])
    (simp add: that build_set_at_def)

text \<open>The sets 0 and 32 of a slot; \<open>l0\<close> and \<open>l1\<close> say whether they are flagged.\<close>

definition pair_flags :: "bool \<Rightarrow> bool \<Rightarrow> fec_key \<Rightarrow> byte" where
  "pair_flags l0 l1 key =
     (if (if fk_index key = 0 then l0 else l1) then SHRED_FLAG_DATA_COMPLETE OR SHRED_FLAG_LAST_IN_SLOT else 0)"

definition pick :: "'a \<Rightarrow> 'a \<Rightarrow> fec_key \<Rightarrow> 'a" where
  "pick x0 x1 key = (if fk_index key = 0 then x0 else x1)"

definition two_sets :: "u64 \<Rightarrow> nat list \<Rightarrow> nat list \<Rightarrow> arrivals" where
  "two_sets slot is js = map (Pair (fkey slot 0)) is @ map (Pair (fkey slot 32)) js"

lemma pair_last:
  "ls_last (sets_of (test_builder pl (pair_flags l0 l1) k fs)) key i \<longleftrightarrow> i < 32 \<and> pick l0 l1 key"
  by (simp add: sets_of_def test_builder_def ends_slot_def pair_flags_def pick_def SHRED_FLAG_LAST_IN_SLOT_def)

lemma two_sets_arrived: "arrived (two_sets slot is js) key =
   (if key = fkey slot 0 then set is else if key = fkey slot 32 then set js else {})"
  by (auto simp: two_sets_def)

lemma two_sets_slot: "a \<in> set (two_sets slot is js) \<Longrightarrow> fk_slot (fst a) = slot"
  by (auto simp: two_sets_def)

lemma pair_run:
  assumes w: "test_world env sg" and b: "set is \<subseteq> {..<64}" "set js \<subseteq> {..<64}" and n: "n0 \<le> 30816" "n1 \<le> 30816"
  obtains fs0 :: fec_set and fs1 :: fec_set and ls asm evs where
    "build_set_at env sg k slot 0 n0 l0 = Ret (shreds fs0, fs_merkle_root fs0)" "length (shreds fs0) = 64"
    "build_set_at env sg k slot 32 n1 l1 = Ret (shreds fs1, fs_merkle_root fs1)" "length (shreds fs1) = 64"
    "ingest_all env (map ((!) (shreds fs0)) is @ map ((!) (shreds fs1)) js) (assembler_new (sk_public sg k)) = Ret (asm, evs)"
    "\<And>s rts r n c. SlotFinalized s rts r n c \<in> set evs \<longleftrightarrow>
       (\<exists>m. first_complete ls (two_sets slot is js) s m
          \<and> SlotFinalized s rts r n c = report_of (le_sha env) ls (take m (two_sets slot is js)) s)"
    "\<And>key. ls_root ls key = fs_merkle_root (pick fs0 fs1 key)"
    "\<And>key i. ls_last ls key i \<longleftrightarrow> i < 32 \<and> pick l0 l1 key"
    "finalizations slot evs \<le> 1"
proof -
  obtain fs0 where fs0: "build_set_at env sg k slot 0 n0 l0 = Ret (shreds fs0, fs_merkle_root fs0)" "length (shreds fs0) = 64"
    "build_fec_set (le_sha env) (le_rs env) sg (le_oc env) (test_payload n0)
       (test_params slot 0 (if l0 then SHRED_FLAG_DATA_COMPLETE OR SHRED_FLAG_LAST_IN_SLOT else 0) k) = Ret fs0"
    by (rule set_at_built [OF w, of 0 n0 k slot l0]) (use n in auto)
  obtain fs1 where fs1: "build_set_at env sg k slot 32 n1 l1 = Ret (shreds fs1, fs_merkle_root fs1)" "length (shreds fs1) = 64"
    "build_fec_set (le_sha env) (le_rs env) sg (le_oc env) (test_payload n1)
       (test_params slot 32 (if l1 then SHRED_FLAG_DATA_COMPLETE OR SHRED_FLAG_LAST_IN_SLOT else 0) k) = Ret fs1"
    by (rule set_at_built [OF w, of 32 n1 k slot l1]) (use n in auto)
  have h: "set (two_sets slot is js) \<subseteq> {fkey slot 0, fkey slot 32} \<times> {..<64}"
    using b by (auto simp: two_sets_def)
  have built: "fk_index key \<in> {0, 32} \<and>
      build_fec_set (le_sha env) (le_rs env) sg (le_oc env) (pick (test_payload n0) (test_payload n1) key)
        (test_params (fk_slot key) (fk_index key) (pair_flags l0 l1 key) k) = Ret (pick fs0 fs1 key)"
    if "key \<in> {fkey slot 0, fkey slot 32}" for key
    using that fs0(3) fs1(3) by (auto simp: pick_def pair_flags_def)
  have raws: "map (\<lambda>(key, i). shreds (pick fs0 fs1 key) ! i) (two_sets slot is js)
      = map ((!) (shreds fs0)) is @ map ((!) (shreds fs1)) js"
    by (simp add: two_sets_def pick_def)
  let ?ls = "sets_of (test_builder (pick (test_payload n0) (test_payload n1)) (pair_flags l0 l1) k (pick fs0 fs1))"
  have ls: "\<And>key. ls_root ?ls key = fs_merkle_root (pick fs0 fs1 key)"
    "\<And>key i. ls_last ?ls key i \<longleftrightarrow> i < 32 \<and> pick l0 l1 key"
    by (simp add: sets_of_def test_builder_def) (rule pair_last)
  show ?thesis
  proof (rule test_run [OF w built h])
    fix asm evs
    assume run: "ingest_all env (map (\<lambda>(key, i). shreds (pick fs0 fs1 key) ! i) (two_sets slot is js))
        (assembler_new (sk_public sg k)) = Ret (asm, evs)"
      and fin: "\<And>s rts r n c. SlotFinalized s rts r n c \<in> set evs \<longleftrightarrow>
       (\<exists>m. first_complete ?ls (two_sets slot is js) s m
          \<and> SlotFinalized s rts r n c = report_of (le_sha env) ?ls (take m (two_sets slot is js)) s)"
      and once: "\<And>s. finalizations s evs \<le> 1"
    note run = run [unfolded raws]
    show thesis by (rule that; fact)
  qed
qed
lemma take_as_map: "n \<le> length xs \<Longrightarrow> map ((!) xs) [0..<n] = take n xs"
  by (simp add: list_eq_iff_nth_eq)

lemma two_sets_seen: "set (seen_sets (two_sets slot is js) slot) = (if is = [] then {} else {0}) \<union> (if js = [] then {} else {32})"
  by (auto simp: two_sets_def seen_sets_def image_constant_conv)

lemma no_report:
  assumes fin: "\<And>s rts r n c. SlotFinalized s rts r n c \<in> set evs \<longleftrightarrow>
       (\<exists>m. first_complete ls h s m \<and> SlotFinalized s rts r n c = report_of sha ls (take m h) s)"
    and "\<And>m s. \<not> complete ls (take m h) s"
  shows "collect_slot_finalized evs = None"
  using finalized_flagged [OF fin] assms(2) by (auto simp: collect_none)

lemma no_last_marker_passes:
  assumes "test_world env sg"
  shows "slot_does_not_finalize_without_last_marker env sg key_of_seed = Ret ()"
proof (rule pair_run [OF assms, of "[0..<32]" "[0..<32]" 2000 2000 "key_of_seed (replicate 32 6)" 333 False False])
  fix fs0 fs1 :: fec_set and ls asm evs
  assume b: "build_set_at env sg (key_of_seed (replicate 32 6)) 333 0 2000 False = Ret (shreds fs0, fs_merkle_root fs0)"
      "length (shreds fs0) = 64"
      "build_set_at env sg (key_of_seed (replicate 32 6)) 333 32 2000 False = Ret (shreds fs1, fs_merkle_root fs1)"
      "length (shreds fs1) = 64"
    and run: "ingest_all env (map ((!) (shreds fs0)) [0..<32] @ map ((!) (shreds fs1)) [0..<32])
      (assembler_new (sk_public sg (key_of_seed (replicate 32 6)))) = Ret (asm, evs)"
    and fin: "\<And>s rts r n c. SlotFinalized s rts r n c \<in> set evs \<longleftrightarrow>
       (\<exists>m. first_complete ls (two_sets 333 [0..<32] [0..<32]) s m
          \<and> SlotFinalized s rts r n c = report_of (le_sha env) ls (take m (two_sets 333 [0..<32] [0..<32])) s)"
    and ls: "\<And>key i. ls_last ls key i \<longleftrightarrow> i < 32 \<and> pick False False key"
  have "\<not> complete ls h s" for h s using ls by (simp add: complete_def flagged_sets_def pick_def seen_sets_def)
  with no_report [OF fin] have "collect_slot_finalized evs = None" by blast
  with run b show ?thesis
    by (simp add: slot_does_not_finalize_without_last_marker_def Let_def take_as_map)
qed auto

lemma incomplete_set_passes:
  assumes "test_world env sg"
  shows "slot_does_not_finalize_when_a_set_is_incomplete env sg key_of_seed = Ret ()"
proof (rule pair_run [OF assms, of "[0..<32]" "[0..<31]" 2000 2000 "key_of_seed (replicate 32 7)" 444 False True])
  let ?h = "two_sets 444 [0..<32] [0..<31]"
  fix fs0 fs1 :: fec_set and ls asm evs
  assume b: "build_set_at env sg (key_of_seed (replicate 32 7)) 444 0 2000 False = Ret (shreds fs0, fs_merkle_root fs0)"
      "length (shreds fs0) = 64"
      "build_set_at env sg (key_of_seed (replicate 32 7)) 444 32 2000 True = Ret (shreds fs1, fs_merkle_root fs1)"
      "length (shreds fs1) = 64"
    and run: "ingest_all env (map ((!) (shreds fs0)) [0..<32] @ map ((!) (shreds fs1)) [0..<31])
      (assembler_new (sk_public sg (key_of_seed (replicate 32 7)))) = Ret (asm, evs)"
    and fin: "\<And>s rts r n c. SlotFinalized s rts r n c \<in> set evs \<longleftrightarrow>
       (\<exists>m. first_complete ls ?h s m \<and> SlotFinalized s rts r n c = report_of (le_sha env) ls (take m ?h) s)"
    and ls: "\<And>key i. ls_last ls key i \<longleftrightarrow> i < 32 \<and> pick False True key"
  have "\<not> complete ls (take m ?h) s" for m s
  proof
    assume c: "complete ls (take m ?h) s"
    have "set (flagged_sets ls (take m ?h) s) \<subseteq> {32}"
      by (auto simp: flagged_sets_def seen_sets_def ls pick_def two_sets_def dest!: in_set_takeD)
    with c have "set (flagged_sets ls (take m ?h) s) = {32}"
      by (metis complete_iff subset_singletonD)
    with c flagged_seen [of ls "take m ?h" s] have "32 \<le> card (arrived (take m ?h) (fkey s 32))"
      by (auto simp: complete_iff)
    also have "\<dots> \<le> card (arrived ?h (fkey s 32))"
      by (intro card_mono) (auto simp: arrived_iff dest: in_set_takeD)
    also have "\<dots> \<le> 31" by (simp add: two_sets_arrived)
    finally show False by simp
  qed
  with no_report [OF fin] have "collect_slot_finalized evs = None" by blast
  with run b show ?thesis
    by (auto simp: slot_does_not_finalize_when_a_set_is_incomplete_def Let_def take_as_map ingest_all_append obind_eq_Ret)
qed auto

lemma one_report:
  assumes fin: "\<And>s rts r n c. SlotFinalized s rts r n c \<in> set evs \<longleftrightarrow>
       (\<exists>m. first_complete ls h s m \<and> SlotFinalized s rts r n c = report_of sha ls (take m h) s)"
    and "slot_arrives ls slot idxs l h" and "finalizations slot evs \<le> 1" and "\<And>a. a \<in> set h \<Longrightarrow> fk_slot (fst a) = slot"
  shows "filter is_slot_finalized evs = [SlotFinalized slot (map (\<lambda>i. ls_root ls (fkey slot i)) (idxs @ [l]))
       (aggregate_root sha (map (\<lambda>i. ls_root ls (fkey slot i)) (idxs @ [l]))) (32 * length (idxs @ [l])) 1]"
proof (rule finalized_only [OF _ assms(3)])
  from slot_arrives_report [OF assms(2), of sha] show "SlotFinalized slot (map (\<lambda>i. ls_root ls (fkey slot i)) (idxs @ [l]))
       (aggregate_root sha (map (\<lambda>i. ls_root ls (fkey slot i)) (idxs @ [l]))) (32 * length (idxs @ [l])) 1 \<in> set evs"
    unfolding fin by metis
  fix s rts r n c assume "SlotFinalized s rts r n c \<in> set evs"
  then obtain m where "set (flagged_sets ls h s) \<noteq> {}" by (rule finalized_flagged [OF fin])
  then obtain a where "a \<in> set h" "fk_slot (fst a) = s" by (auto simp: flagged_sets_def seen_sets_def)
  with assms(4) show "s = slot" by auto
qed

lemma card_ivl_32 [simp]: "card (set [0..<32]) = 32" "card (set [0..<64]) = 64"
  by simp_all

lemma two_slot_arrives:
  assumes "\<And>key i. ls_last ls key i \<longleftrightarrow> i < 32 \<and> pick False True key"
  shows "slot_arrives ls slot [0] 32 (two_sets slot [0..<32] [0..<32])"
proof (rule slot_arrivesI, unfold slot_sent_def, intro conjI)
  let ?h = "two_sets slot [0..<32] [0..<32]"
  show "set (seen_sets ?h slot) = set ([0] @ [32])" by (auto simp: two_sets_seen)
  show "set (flagged_sets ls ?h slot) = {32}"
    by (auto simp: flagged_sets_def seen_sets_def assms pick_def two_sets_def image_constant_conv)
  show "\<forall>i \<in> set ([0] @ [32]). 32 \<le> card (arrived ?h (fkey slot i))" by (simp add: two_sets_arrived)
  have "take 33 ?h = two_sets slot [0..<32] [0]" "33 \<le> length ?h" by (simp_all add: two_sets_def take_map)
  then show "\<exists>p \<le> length ?h. set (seen_sets (take p ?h) slot) = set ([0] @ [32]) \<and> card (arrived (take p ?h) (fkey slot 32)) < 32"
    by (intro exI [of _ 33]) (auto simp: two_sets_seen two_sets_arrived)
qed simp

lemma slot_finalizes_passes:
  assumes "test_world env sg"
  shows "slot_finalizes_when_all_sets_done env sg key_of_seed = Ret ()"
proof (rule pair_run [OF assms, of "[0..<32]" "[0..<32]" 4000 4000 "key_of_seed (replicate 32 5)" 222 False True])
  fix fs0 fs1 :: fec_set and ls asm evs
  assume b: "build_set_at env sg (key_of_seed (replicate 32 5)) 222 0 4000 False = Ret (shreds fs0, fs_merkle_root fs0)"
      "length (shreds fs0) = 64"
      "build_set_at env sg (key_of_seed (replicate 32 5)) 222 32 4000 True = Ret (shreds fs1, fs_merkle_root fs1)"
      "length (shreds fs1) = 64"
    and run: "ingest_all env (map ((!) (shreds fs0)) [0..<32] @ map ((!) (shreds fs1)) [0..<32])
      (assembler_new (sk_public sg (key_of_seed (replicate 32 5)))) = Ret (asm, evs)"
    and fin: "\<And>s rts r n c. SlotFinalized s rts r n c \<in> set evs \<longleftrightarrow>
       (\<exists>m. first_complete ls (two_sets 222 [0..<32] [0..<32]) s m
          \<and> SlotFinalized s rts r n c = report_of (le_sha env) ls (take m (two_sets 222 [0..<32] [0..<32])) s)"
    and rt: "\<And>key. ls_root ls key = fs_merkle_root (pick fs0 fs1 key)"
    and ls: "\<And>key i. ls_last ls key i \<longleftrightarrow> i < 32 \<and> pick False True key" and once: "finalizations 222 evs \<le> 1"
  have "filter is_slot_finalized evs = [SlotFinalized 222 (map (\<lambda>i. ls_root ls (fkey 222 i)) ([0] @ [32]))
       (aggregate_root (le_sha env) (map (\<lambda>i. ls_root ls (fkey 222 i)) ([0] @ [32]))) (32 * length ([0] @ [32 :: u32])) 1]"
    by (rule one_report [OF fin two_slot_arrives [OF ls] once two_sets_slot])
  then have "collect_slot_finalized evs = Some (SlotFinalized 222 [fs_merkle_root fs0, fs_merkle_root fs1]
      (aggregate_root (le_sha env) [fs_merkle_root fs0, fs_merkle_root fs1]) 64 1)"
    by (simp add: collect_filter rt pick_def)
  moreover have "f64_round (999999 / 1000000) < 1"
    using f64_round_between(2) [of "999999 / 1000000"] by (simp add: order.strict_trans1)
  ultimately show ?thesis
    using run b by (simp add: slot_finalizes_when_all_sets_done_def Let_def take_as_map rindex_def)
qed auto

lemma one_slot_arrives:
  assumes "\<And>key i. ls_last ls key i \<longleftrightarrow> i < 32 \<and> pick True False key"
  shows "slot_arrives ls slot [] 0 (two_sets slot [0..<64] [])"
proof (rule slot_arrivesI, unfold slot_sent_def, intro conjI)
  let ?h = "two_sets slot [0..<64] []"
  show "set (seen_sets ?h slot) = set ([] @ [0])" by (auto simp: two_sets_seen)
  show "set (flagged_sets ls ?h slot) = {0}"
    by (auto simp: flagged_iff assms pick_def two_sets_def intro!: exI [of _ "0 :: nat"])
  show "\<forall>i \<in> set ([] @ [0]). 32 \<le> card (arrived ?h (fkey slot i))" by (simp add: two_sets_arrived)
  have "take 1 ?h = two_sets slot [0] []" "1 \<le> length ?h" by (simp_all add: two_sets_def take_map)
  then show "\<exists>p \<le> length ?h. set (seen_sets (take p ?h) slot) = set ([] @ [0]) \<and> card (arrived (take p ?h) (fkey slot 0)) < 32"
    by (intro exI [of _ 1]) (simp del: One_nat_def add: two_sets_seen two_sets_arrived)
qed simp

lemma idempotent_passes:
  assumes "test_world env sg"
  shows "slot_finalizes_idempotently env sg key_of_seed = Ret ()"
proof (rule pair_run [OF assms, of "[0..<64]" "[]" 2000 2000 "key_of_seed (replicate 32 8)" 555 True False])
  fix fs0 fs1 :: fec_set and ls asm evs
  assume b: "build_set_at env sg (key_of_seed (replicate 32 8)) 555 0 2000 True = Ret (shreds fs0, fs_merkle_root fs0)"
      "length (shreds fs0) = 64"
    and run: "ingest_all env (map ((!) (shreds fs0)) [0..<64] @ map ((!) (shreds fs1)) [])
      (assembler_new (sk_public sg (key_of_seed (replicate 32 8)))) = Ret (asm, evs)"
    and fin: "\<And>s rts r n c. SlotFinalized s rts r n c \<in> set evs \<longleftrightarrow>
       (\<exists>m. first_complete ls (two_sets 555 [0..<64] []) s m
          \<and> SlotFinalized s rts r n c = report_of (le_sha env) ls (take m (two_sets 555 [0..<64] [])) s)"
    and ls: "\<And>key i. ls_last ls key i \<longleftrightarrow> i < 32 \<and> pick True False key" and once: "finalizations 555 evs \<le> 1"
  note one_report [OF fin one_slot_arrives [OF ls] once two_sets_slot]
  then have "length (filter is_slot_finalized evs) = 1" by simp
  with run b show ?thesis
    by (simp add: slot_finalizes_idempotently_def Let_def take_as_map)
qed auto
lemma static_leader_test_passes: "static_leader_resolves = Ret ()"
  by (simp add: static_leader_resolves_def static_leader_def)

text \<open>A signature that verifies under both keys is the only way for a foreign leader to be accepted.\<close>

lemma wrong_leader_passes:
  assumes w: "test_world env sg"
  shows "assembler_rejects_wrong_leader env sg key_of_seed = Ret ()
    \<or> (\<exists>m sig. ed_verify (le_ed env) (sk_public sg (key_of_seed (replicate 32 9))) m sig
         \<and> ed_verify (le_ed env) (sk_public sg (key_of_seed (replicate 32 1))) m sig)"
proof -
  let ?k = "key_of_seed (replicate 32 9)" and ?wrong = "sk_public sg (key_of_seed (replicate 32 1))"
  let ?ps = "test_params 1111 0 0 ?k"
  have world: "sha_ok (le_sha env)" "rs_ok (le_rs env)" "rs_total (le_rs env)" "signer_ok sg (le_ed env) k"
    and static: "le_resolve env = static_leader" for k using w by (simp_all add: test_world_def)
  obtain fs where fs: "build_fec_set (le_sha env) (le_rs env) sg (le_oc env) (test_payload 2000) ?ps = Ret fs"
    "length (shreds fs) = 64" "leader_pubkey fs = sk_public sg ?k"
    and v: "\<forall>i < 64. verify_shred (le_sha env) (le_ed env) (le_oc env) (shreds fs ! i) (leader_pubkey fs)
          = Ret (built_shred ?ps (fs_merkle_root fs) i)"
    using build_verifies [OF world(1,2), of sg "le_ed env" ?ps "le_oc env" "test_payload 2000"]
      world(4) length_test_payload [of 2000] by auto
  let ?raw = "shreds fs ! 0"
  from v have v0: "verify_shred (le_sha env) (le_ed env) (le_oc env) ?raw (leader_pubkey fs)
      = Ret (built_shred ?ps (fs_merkle_root fs) 0)" by simp
  then obtain p where p: "parse_shred (le_oc env) ?raw = Ret p" by (auto simp: verify_shred_Ret_iff)
  have test: "assembler_rejects_wrong_leader env sg key_of_seed =
      obind (ingest env (assembler_new ?wrong) ?raw) (\<lambda>(_, events). rust_assert (list_ex is_rejected events))"
    using fs(2) by (simp add: assembler_rejects_wrong_leader_def build_test_set_def Let_def fs(1) outcome_simps)
  show ?thesis
  proof (cases "verify_shred (le_sha env) (le_ed env) (le_oc env) ?raw ?wrong")
    case (Ret u)
    from verified_signature(1) [OF v0 p] verified_signature(1) [OF this p]
    have "v_merkle_root u = v_merkle_root (built_shred ?ps (fs_merkle_root fs) 0)" by simp
    with verified_signature(2) [OF v0 p] verified_signature(2) [OF Ret p] fs(3) show ?thesis by auto
  next
    case (Fail e)
    then have "ingest env (assembler_new ?wrong) ?raw
        = Ret (assembler_new ?wrong, [Rejected (VerifyFailed e)])"
      using p by (simp add: ingest_def static static_leader_def assembler_new_def with_resolver_def)
    then show ?thesis by (simp add: test)
  next
    case Panic
    from verify_shred_Panic [OF this] p show ?thesis by simp
  qed
qed

section \<open>The loopback test\<close>

text \<open>
  The channel keeps what is sent; \<open>wire\<close> is what the socket returns of the datagrams sent to it. A
  stream that ends without a report is a closed channel or a timeout, a panic in both cases.
\<close>

definition keep_all :: "fec_event list \<Rightarrow> fec_event \<Rightarrow> fec_event list option" where
  "keep_all q ev = Some (q @ [ev])"

fun await_reconstructed :: "bytes \<Rightarrow> fec_event list \<Rightarrow> (unit, unit) outcome" where
  "await_reconstructed rt [] = Panic"
| "await_reconstructed rt (ev # evs) =
     (case ev of
        Reconstructed _ merkle_root das \<Rightarrow>
          obind (rust_assert (merkle_root = rt)) (\<lambda>_. rust_assert (1 \<le> das))
      | _ \<Rightarrow> await_reconstructed rt evs)"

definition e2e_loopback_recovers_block ::
  "('r, bytes) listener_env \<Rightarrow> 'k signer_api \<Rightarrow> (bytes \<Rightarrow> 'k) \<Rightarrow> (bytes list \<Rightarrow> recv_result list) \<Rightarrow> (unit, unit) outcome" where
  "e2e_loopback_recovers_block env sg key_of_seed wire =
     (let signing = key_of_seed (replicate 32 123);
          leader_pk = sk_public sg signing;
          payload = counting_payload 2000
      in obind (expect (build_fec_set (le_sha env) (le_rs env) sg (le_oc env) payload (test_params 42 0 0 signing))) (\<lambda>fec.
         obind (omap (rindex (shreds fec)) [0..<32]) (\<lambda>sent.
         obind (expect (run_listener env keep_all None leader_pk (wire sent) [])) (\<lambda>task.
         obind task (\<lambda>(_, events). await_reconstructed (fs_merkle_root fec) events)))))"

lemma keep_all_events: "send_events keep_all evs q = (q @ evs, True)"
  by (induction evs arbitrary: q) (simp_all add: keep_all_def)

lemma task_keep_all:
  assumes "ingest_all env raws asm = Ret (asm', evs)"
  shows "listener_task env keep_all (map Datagram raws) asm q = Ret (Some asm', q @ evs)"
  using assms
proof (induction raws arbitrary: asm q evs)
  case (Cons raw raws)
  from Cons.prems obtain asm1 evs1 evs2 where
    i: "ingest env asm raw = Ret (asm1, evs1)" and r: "ingest_all env raws asm1 = Ret (asm', evs2)"
    and evs: "evs = evs1 @ evs2"
    by (auto simp: obind_eq_Ret)
  have "listener_turn env keep_all (Datagram raw) asm q = Ret (Some asm1, q @ evs1)"
    by (simp add: listener_turn_def ingest_truncated i keep_all_events)
  with Cons.IH [OF r] evs show ?case by simp
qed simp

lemma await_passes:
  assumes "\<exists>key r c. Reconstructed key r c \<in> set evs"
    and "\<And>key r c. Reconstructed key r c \<in> set evs \<Longrightarrow> r = rt \<and> c = 1"
  shows "await_reconstructed rt evs = Ret ()"
  using assms
proof (induction evs)
  case (Cons ev evs)
  show ?case
  proof (cases ev)
    case (Reconstructed key r c)
    with Cons.prems(2) [of key r c] show ?thesis by simp
  qed (use Cons in auto)
qed simp

lemma test_payload_counting: "n < 2 ^ 32 \<Longrightarrow> test_payload (4 * n) = counting_payload n"
  by (simp add: test_payload_def unat_of_nat)

lemma loopback_passes:
  assumes w: "test_world env sg" and "\<And>ds. wire ds = map Datagram ds"
  shows "e2e_loopback_recovers_block env sg key_of_seed wire = Ret ()"
proof -
  let ?k = "key_of_seed (replicate 32 123)"
  have env: "env\<lparr>le_resolve := static_leader\<rparr> = env" using w by (simp add: test_world_def)
  have pl: "test_payload 8000 = counting_payload 2000" using test_payload_counting [of 2000] by simp
  obtain fs where fs: "build_fec_set (le_sha env) (le_rs env) sg (le_oc env) (test_payload 8000) (test_params 42 0 0 ?k) = Ret fs"
    and len: "length (shreds fs) = 64"
    by (rule test_set_built [OF w, of 0 8000]) auto
  obtain asm evs where run: "ingest_all env (map ((!) (shreds fs)) [0..<32]) (assembler_new (sk_public sg ?k)) = Ret (asm, evs)"
    and r: "(\<exists>key r c. Reconstructed key r c \<in> set evs) \<longleftrightarrow> 32 \<le> card (set [0..<32])"
      "\<And>key r c. Reconstructed key r c \<in> set evs \<Longrightarrow> r = fs_merkle_root fs \<and> c = 1"
    by (rule single_set_run [OF w _ _ fs, of "[0..<32]"]) auto
  have sent: "omap (rindex (shreds fs)) [0..<32] = (Ret (map ((!) (shreds fs)) [0..<32]) :: (unit, bytes list) outcome)"
    using len by (intro omap_Ret) (simp add: rindex_def)
  have "await_reconstructed (fs_merkle_root fs) evs = Ret ()" by (rule await_passes) (use r in simp_all)
  with fs sent task_keep_all [OF run, of "[]"] show ?thesis
    by (simp add: e2e_loopback_recovers_block_def Let_def pl run_listener_def run_listener_with_resolver_def
        assms(2) env assembler_new_def)
qed
end
