(* ===== verification/Tests.thy ===== *)
theory Tests
  imports Tests_Attest Tests_Liq Tests_Shred Tests_Rs Tests_Listener Recovery
begin

text \<open>
  The 31 tests of the workspace together. What they leave to libraries is a parameter: the hash functions,
  the signature scheme and \<open>SigningKey::from_bytes\<close> (\<open>key_of_seed\<close>), the codec, the keys of
  \<open>Pubkey::new_unique\<close> and the loopback interface.
\<close>

definition passing_tests ::
  "('r, bytes) listener_env \<Rightarrow> 'k signer_api \<Rightarrow> (bytes \<Rightarrow> 'k) \<Rightarrow> (bytes \<Rightarrow> nat \<Rightarrow> bytes) \<Rightarrow> (bytes \<Rightarrow> bytes)
     \<Rightarrow> ('pk :: linorder) sdk_api \<Rightarrow> 'pk \<times> 'pk \<times> 'pk \<Rightarrow> (bytes list \<Rightarrow> recv_result list) \<Rightarrow> (unit, unit) outcome list" where
  "passing_tests env sg key_of_seed xof b3 sdk keys wire =
     (let (p1, p2, p3) = keys in
      [mix_in_then_mix_out_is_identity xof, additive_homomorphism xof, slot_delta_after_state xof,
       tombstone_is_identity xof,
       happy_path_complete_set_verifies xof b3, account_creation_and_closure_verify xof b3,
       empty_transition_rejected xof b3, empty_slot_verifies xof b3, malformed_delta_rejected xof b3,
       synthetic_fec_round_trip (le_sha env) (le_ed env) sg key_of_seed,
       fec_set_round_trips_through_verify_shred (le_sha env) (le_ed env) (le_rs env) sg (le_oc env) key_of_seed,
       erasure_regions_have_equal_size,
       rs_round_trip_recovers_from_any_32 (le_rs env),
       static_leader_resolves,
       assembler_recovers_from_32_data_shreds_only env sg key_of_seed,
       assembler_recovers_from_mixed_data_and_coding env sg key_of_seed,
       assembler_does_not_reconstruct_at_31 env sg key_of_seed,
       das_confidence_table,
       slot_finalizes_when_all_sets_done env sg key_of_seed,
       slot_does_not_finalize_without_last_marker env sg key_of_seed,
       slot_does_not_finalize_when_a_set_is_incomplete env sg key_of_seed,
       slot_finalizes_idempotently env sg key_of_seed,
       e2e_loopback_recovers_block env sg key_of_seed wire,
       discriminator_matches_idl, state_pda_is_deterministic sdk,
       ordering_is_oracles_then_spots_then_perps p1 p2 p3, writable_wins_over_readable p1])"

text \<open>Tests that expect a refusal, each with the failure of the cryptography that alone could make it fail.\<close>

definition refusing_tests ::
  "('r, bytes) listener_env \<Rightarrow> 'k signer_api \<Rightarrow> (bytes \<Rightarrow> 'k) \<Rightarrow> (bytes \<Rightarrow> nat \<Rightarrow> bytes) \<Rightarrow> (bytes \<Rightarrow> bytes)
     \<Rightarrow> ((unit, unit) outcome \<times> bool) list" where
  "refusing_tests env sg key_of_seed xof b3 =
     [(single_flipped_byte_fails xof b3,
       hash_collision xof (acct 1 (bstr ''new-a'')) (acct 1 (bstr ''new-A''))),
      (spurious_extra_transition_fails xof b3,
       hash_collision xof (acct 99 (bstr ''phantom-old'')) (acct 99 (bstr ''phantom-new''))),
      (missing_transition_fails xof b3,
       hash_collision xof (acct 2 (bstr ''old-b'')) (acct 2 (bstr ''new-b''))),
      (assembler_rejects_wrong_leader env sg key_of_seed,
       \<exists>m sig. ed_verify (le_ed env) (sk_public sg (key_of_seed (replicate 32 9))) m sig
         \<and> ed_verify (le_ed env) (sk_public sg (key_of_seed (replicate 32 1))) m sig)]"

text \<open>
  C30: Every test of the workspace passes. With libraries that keep their contracts, a loopback interface that
  delivers what is sent and any keys, 27 of the 31 tests return without a failed assertion; each of the
  other four, which expect a refusal, does so too unless two accounts named in it collide under Blake3 or
  one signature verifies under the keys of both leaders.
\<close>

theorem unit_tests_pass:
  assumes "test_world env sg" and "rs_recovers (le_rs env)" and "xof_ok xof" and "wire = map Datagram"
  shows "length (passing_tests env sg key_of_seed xof b3 sdk keys wire) = 27
     \<and> (\<forall>t \<in> set (passing_tests env sg key_of_seed xof b3 sdk keys wire). t = Ret ())
     \<and> length (refusing_tests env sg key_of_seed xof b3) = 4
     \<and> (\<forall>(t, broken) \<in> set (refusing_tests env sg key_of_seed xof b3). t = Ret () \<or> broken)"
proof (intro conjI)
  have w: "sha_ok (le_sha env)" "rs_ok (le_rs env)" "signer_ok sg (le_ed env) k" for k
    using assms(1) by (simp_all add: test_world_def)
  have wire: "wire ds = map Datagram ds" for ds using assms(4) by simp
  note passed = lthash_tests_pass tests_accept ix_tests_pass erasure_regions_test_passes
    synthetic_fec_round_trip_passes [where key_of_seed = key_of_seed, OF w(1,3)]
    fec_set_round_trip_passes [where key_of_seed = key_of_seed, OF w(1,2,3)]
    rs_test_passes [OF w(2) assms(2)] static_leader_test_passes das_confidence_table_passes
    reconstruction_tests_pass [OF assms(1)] no_last_marker_passes [OF assms(1)] incomplete_set_passes [OF assms(1)]
    slot_finalizes_passes [OF assms(1)] idempotent_passes [OF assms(1)] loopback_passes [OF assms(1) wire]
  show "length (passing_tests env sg key_of_seed xof b3 sdk keys wire) = 27"
    "length (refusing_tests env sg key_of_seed xof b3) = 4"
    by (simp_all add: passing_tests_def refusing_tests_def split: prod.split)
  show "\<forall>t \<in> set (passing_tests env sg key_of_seed xof b3 sdk keys wire). t = Ret ()"
    by (cases keys) (simp add: passing_tests_def passed)
  show "\<forall>(t, broken) \<in> set (refusing_tests env sg key_of_seed xof b3). t = Ret () \<or> broken"
    using tests_refuse [OF assms(3), of b3] wrong_leader_passes [OF assms(1), of key_of_seed]
    by (simp add: refusing_tests_def)
qed

theorem unit_tests_pass_witness:
  "list_all (\<lambda>t. t = Ret ()) (passing_tests gf_env zero_signer (\<lambda>_. ()) (\<lambda>m n. replicate n 0) (\<lambda>m. []) toy_sdk
       (1, 2, 3) (map Datagram))
   \<and> list_all (\<lambda>(t, broken). t = Ret () \<or> broken)
       (refusing_tests gf_env zero_signer (\<lambda>_. ()) (\<lambda>m n. replicate n 0) (\<lambda>m. []))"
proof -
  have "test_world gf_env zero_signer"
    by (simp add: test_world_def gf_rs_ok gf_rs_total sample_signer_ok)
  moreover have "rs_recovers (le_rs gf_env)" by (simp add: gf_rs_recovers)
  moreover have "xof_ok (\<lambda>m n. replicate n 0)" by (simp add: xof_ok_def)
  ultimately show ?thesis
    using unit_tests_pass [of gf_env zero_signer "\<lambda>m n. replicate n 0" "map Datagram" "\<lambda>_. ()" "\<lambda>m. []" toy_sdk "(1, 2, 3)"]
    unfolding list_all_iff by blast
qed

end
