(* ===== verification/Spec2Isabelle.thy ===== *)
theory Spec2Isabelle
  imports Rust_Prelude Rust_Text Rust_F64 Rust_BTree Lt_Hash Attest Shred_Wire Merkle_Tree Reed_Sol Fec_Set Leader
    Assembler Fec_Machine Listener_Spec Delivery Listener_Props Listener_Types Arrivals Arrival_Props Das Udp_Listener
    Daemon Wasm_Verify Liq_Ix Liq_Scan Liq_Tools Liq_Runs Rpc_Url Cli_Rpc Cli_Attest Cli_Demo Cli_Status Cli Cli_Text
    Tree_Binding Gf256 Rs_Code Recovery Rust_Test Tests_Attest Tests_Liq Tests_Shred Tests_Rs Tests_Listener Tests
begin

text \<open>
  Verification of lattica, a Rust workspace under \<open>src/crates\<close>. The program listens to Solana shreds, checks
  them against the leader's signature, recovers FEC sets by erasure decoding and reports finalized slots
  with one root; it computes homomorphic account hashes, packs the change of a slot into an attestation
  and verifies attestations natively and in a browser; a liquidator scans Drift users and builds
  \<open>liquidate_perp\<close> instructions; a command line tool demonstrates all of it.

  \<^bold>\<open>Parts and theories.\<close>
  \<^item> \<open>Rust_Prelude\<close>, \<open>Rust_Text\<close>, \<open>Rust_F64\<close>, \<open>Rust_BTree\<close>: what the sources use of Rust. The outcome of a call (\<open>Ret\<close>,
    \<open>Fail\<close>, \<open>Panic\<close>), arithmetic with and without overflow checks, checked slices and copies,
    little-endian bytes, decimal numbers, doubles rounded to nearest and how they print, string search, lines; \<open>BTreeSet\<close> over a user-supplied order (locale
    \<open>rust_ord\<close>).
  \<^item> \<open>Lt_Hash\<close> (\<open>lthash\<close>): the 1024 limbs as a group, mixing loops, checksum, account hash, slot delta.
  \<^item> \<open>Attest\<close> (\<open>attest\<close>): the attestation packet and \<open>verify_slot_delta\<close>, refined to a sum of differences.
  \<^item> \<open>Wasm_Verify\<close> (\<open>wasm-verify\<close>): conversion of the JavaScript values and the call of the verifier.
  \<^item> \<open>Shred_Wire\<close> (\<open>shred/src/lib.rs\<close>): variant byte, headers, parser, Merkle path, signature check.
  \<^item> \<open>Merkle_Tree\<close> (locale \<open>merkle_ladder\<close>), \<open>Fec_Set\<close> (\<open>shred/src/fec_set.rs\<close>): tree and proofs, and the builder
    of a set of 32 data and 32 coding shreds.
  \<^item> \<open>Reed_Sol\<close> (\<open>reedsol\<close>): erasure reconstruction over the codec crate. \<open>Rs_Code\<close> states that the codec recovers
    what it encoded, and has an instance over the field of 256 elements that \<open>Gf256\<close> builds.
  \<^item> \<open>Tree_Binding\<close>: what the root of a built tree commits to. \<open>Recovery\<close>: the shards that the assembler holds for a
    built set decode to its payload.
  \<^item> \<open>Leader\<close> (\<open>listener/src/leader.rs\<close>): the trait as the locale \<open>leader_resolver\<close>, and the service of a
    leader schedule as \<open>scheduled_resolver\<close>, both interpreted on the static key, on the caching JSON-RPC
    resolver and (in \<open>Udp_Listener\<close>) on the choice between them.
  \<^item> \<open>Assembler\<close> (\<open>listener/src/lib.rs\<close>): \<open>FecAssembler::ingest\<close>, slot finalization, aggregate root, confidence.
    \<open>Fec_Machine\<close> is the abstract step relation of one set, \<open>Listener_Spec\<close> the invariant and the inversion of
    \<open>ingest\<close> into machine steps, \<open>Delivery\<close> what delivering a built set does, \<open>Listener_Props\<close> and
    \<open>Listener_Types\<close> the properties of whole runs. \<open>Arrivals\<close> specifies the reports as a function of which
    shreds have arrived, and shows that the assembler computes it under any interleaving; \<open>Arrival_Props\<close> is
    its instance for the sets that the scheduled leaders build. \<open>Das\<close> compares the sampling confidence with its closed form.
  \<^item> \<open>Udp_Listener\<close> (\<open>listener/src/udp.rs\<close>, \<open>main.rs\<close>): the receive loop and the daemon's arguments; the locale
    \<open>total_resolver\<close> for resolvers that never panic. \<open>Daemon\<close> (\<open>main.rs\<close>, and the error texts of \<open>shred\<close> and
    \<open>reedsol\<close>): printed lines, event loop, exit status.
  \<^item> \<open>Liq_Ix\<close> (\<open>liquidator/src/markets.rs\<close>, \<open>ix.rs\<close>), \<open>Liq_Scan\<close> (\<open>scanner.rs\<close>, \<open>paper.rs\<close>), \<open>Liq_Tools\<close>
    (\<open>simulate.rs\<close>, \<open>probe.rs\<close>, \<open>disc_probe.rs\<close>, \<open>idl_dump.rs\<close>: their parts), \<open>Liq_Runs\<close> (transactions, the
    \<open>run\<close> of each mode, \<open>main.rs\<close>).
  \<^item> \<open>Rpc_Url\<close>, \<open>Cli_Rpc\<close>, \<open>Cli_Attest\<close>, \<open>Cli_Demo\<close>, \<open>Cli_Status\<close>, \<open>Cli\<close>, \<open>Cli_Text\<close> (\<open>cli/src/main.rs\<close>): the
    lookup of the RPC URL, the RPC calls and each command, what decides its exit code, then the dispatch; the
    texts that the commands print.
  \<^item> \<open>Rust_Test\<close>, \<open>Tests_Attest\<close>, \<open>Tests_Shred\<close>, \<open>Tests_Rs\<close>, \<open>Tests_Listener\<close>, \<open>Tests_Liq\<close>: the \<open>#[test]\<close> functions of
    the crates, each a call that returns or panics; \<open>Tests\<close> collects them.

  \<^bold>\<open>How they interact.\<close> \<open>ingest\<close> parses a datagram (\<open>parse_shred\<close>), asks the resolver for the leader of its slot,
  verifies (\<open>verify_shred\<close>, which climbs the Merkle path that \<open>Fec_Set\<close> wrote), stores the erasure shard,
  reconstructs from 32 shards (\<open>reconstruct\<close>) and settles the slot (\<open>aggregate_root\<close>, the same ladder as
  \<open>build_tree\<close>). \<open>Udp_Listener\<close> iterates it over a socket, \<open>Daemon\<close> prints its events, \<open>Cli_Demo\<close> feeds it built sets. \<open>Attest\<close> mixes
  \<open>hash_account\<close> of \<open>Lt_Hash\<close>; \<open>Wasm_Verify\<close> and \<open>Cli_Attest\<close> call it. \<open>Liq_Tools\<close> feeds the users of
  \<open>Liq_Scan\<close> and the markets of \<open>Liq_Ix\<close> to the instruction builder.

  \<^bold>\<open>Conventions.\<close> A struct is a record, an enum a datatype, an unsigned integer a word of its width; \<open>usize\<close>
  counts and lengths are naturals. The flag \<open>oc\<close> is the profile: with overflow checks (dev, test) an overflow
  panics, without (release, the default of \<open>Cargo.toml\<close>) it wraps. An \<open>f64\<close> is the rational it stands for, and
  each operation on it is rounded to 53 bits, to nearest and even. Maps are partial functions, \<open>BTreeSet\<close>s are ordered lists. State is passed explicitly; in
  \<open>Cli_Rpc\<close> a command also returns what it prints. \<open>Fail\<close> is an \<open>Err\<close>, an early return of an exit code, or
  \<open>process::exit\<close>; \<open>Panic\<close> a panic.

  \<^bold>\<open>Parameters and hypotheses.\<close> Third-party code is an argument of the definitions: SHA-256 (\<open>sha_ok\<close>: 32
  bytes), Blake3 and its extended output (\<open>xof_ok\<close>: the length asked for), Ed25519 (\<open>signer_ok\<close>: a signer's
  64-byte signatures verify under its own key), the Reed-Solomon crate (\<open>rs_ok\<close>: encoding yields equally long
  parity, and 64 slots with 32 shards are filled, the given shards kept; \<open>rs_recovers\<close>: from 32 shards of an
  encoded batch with the batch itself, which \<open>gf_rs\<close> shows to be satisfiable; \<open>rs_total\<close>: it does not panic), JSON, HTTP, base58, base64,
  hex, the Solana SDK, zlib. The account decoders and the client of drift-rs are parameters that may return,
  fail or panic (\<open>market_decoder\<close>), as the comments of the sources say they do. No hash is assumed injective: properties that would need it exhibit the
  collision instead.

  \<^bold>\<open>What the lemmas show.\<close> For hashing: the group laws, that a delta carries the state hash before a slot into
  the one after it, what the verifier decides, what it does not bind, and that different encodings with
  one hash are a collision. For shreds: which bytes parse, verify and panic; that verified shreds of one
  position and root agree up to a collision; that every shred of a built set verifies; that the payload
  survives, the shreds are a codeword, and any 32 of them give the payload back; that a verified datagram
  brings the erasure shard of its position or a collision with a message of the tree, so that what the
  assembler has collected from any traffic decodes to the payload that was signed; that the
  tree is the one of the reference implementation in the tests. For the confidence: its distance from the closed form, and where it is
  rounded to certainty. For the assembler: the invariant of sets and slots, the
  refinement of the abstract machine, that reports are sound and come at most once for any traffic; under
  the scheduled leaders' traffic and a resolver that serves the schedule, that the reports are exactly the
  specified function of the arrivals, so that any 32 shreds of a set are reported, and an interleaved slot once,
  with all of its sets exactly if it is at no moment complete without one of them (\<open>none_missed\<close>); that the
  counts of a report are those of the accepted shreds; the shape of every event. For the daemon:
  what it prints, when it ends, and that one forged datagram ends a build with overflow checks. For the
  resolver: the contract of the trait, its cache bound, that it answers the schedule of an honest node, what
  the cache holds after a window was fetched, and when the eviction loses that window. For the
  liquidator: the exact accounts of an instruction, which markets are loaded, what a simulation sends, when a
  mode panics, what a scan really returns.
  For the tools: the exit code of every command line, printed values, and when a loop waits forever. For the tests: that each passes,
  or a failure of the cryptography is exhibited.

  \<^bold>\<open>Loops.\<close> Recursion is structural or has a measure (the layers of a Merkle tree shrink, the lines of a text
  get fewer). The listener task runs over the list of results of its socket. The one loop without a bound,
  the polling of \<open>rpc-attest\<close>, is a \<open>partial_function\<close>; \<open>poll_slot_outcome\<close> says exactly when it returns. No
  fuel is used.

  \<^bold>\<open>Not modelled.\<close> \<open>serde\<close> derivations, the log texts of the liquidator (their contents are values), and
  some messages of the commands on stderr; the sockets,
  channels and tasks of tokio beyond sending to a consumer that may close (so the lines of a failing resolver,
  \<open>resolver_stderr\<close>, which the listener task writes, have no place among the lines of the daemon's loop); what the SDKs do when they
  build messages, simulate, subscribe to markets or decode accounts. They hold no state of the program,
  and their sources are not part of the repository. White space and digits are treated as ASCII. Paths are compared as strings, and the parent of a path is a
  parameter.
\<close>

end
